(* ===== verification/Prelude.thy ===== *)
theory Prelude
  imports Main "HOL-Library.Word"
begin

unbundle bit_operations_syntax

text \<open>
  Shared vocabulary of the development: the machine integers of the Rust sources, results
  with an error value, little-endian byte strings, decimal printing (the messages of the
  snapshot errors), and the lemmas on words, options and lists that the components use.
  The collections declared here are filled by the components:
  \<^item> \<open>codec_simps\<close>: what a reader returns at the bytes a writer produced;
  \<^item> \<open>dev_simps\<close>: the small operations of the devices, unfolded together.
\<close>

named_theorems codec_simps "what a reader returns at the bytes a writer produced"
named_theorems dev_simps "small operations of the devices"

subsection \<open>Machine integers and results\<close>

type_synonym u8 = "8 word"
type_synonym u16 = "16 word"
type_synonym u32 = "32 word"
type_synonym u64 = "64 word"
type_synonym u128 = "128 word"
type_synonym bytes = "u8 list"

text \<open>\<^verbatim>\<open>Result<T, E>\<close> is a sum: \<open>Inl\<close> the error, \<open>Inr\<close> the value; \<open>rbind\<close> is the
  question mark operator.\<close>

fun rbind :: "'e + 'a \<Rightarrow> ('a \<Rightarrow> 'e + 'b) \<Rightarrow> 'e + 'b" where
  "rbind (Inl e) f = Inl e"
| "rbind (Inr x) f = f x"

fun rmap :: "('a \<Rightarrow> 'b) \<Rightarrow> 'e + 'a \<Rightarrow> 'e + 'b" where
  "rmap f (Inl e) = Inl e"
| "rmap f (Inr x) = Inr (f x)"

fun map_err :: "('e \<Rightarrow> 'f) \<Rightarrow> 'e + 'a \<Rightarrow> 'f + 'a" where
  "map_err g (Inl e) = Inl (g e)"
| "map_err g (Inr x) = Inr x"

lemma rbind_cong [fundef_cong]:
  "x = x' \<Longrightarrow> (\<And>v. x' = Inr v \<Longrightarrow> f v = g v) \<Longrightarrow> rbind x f = rbind x' g"
  by (cases x') auto

lemma rbind_assoc: "rbind (rbind x f) g = rbind x (\<lambda>v. rbind (f v) g)"
  by (cases x) simp_all

lemma rbind_Inr_iff: "rbind x f = Inr y \<longleftrightarrow> (\<exists>v. x = Inr v \<and> f v = Inr y)"
  by (cases x) simp_all

lemma map_err_Inr_iff [simp]: "map_err g x = Inr y \<longleftrightarrow> x = Inr y"
  by (cases x) simp_all

lemma rmap_Inr_iff: "rmap f x = Inr y \<longleftrightarrow> (\<exists>v. x = Inr v \<and> y = f v)"
  by (cases x) auto

lemma rbind_Inl_iff: "rbind x f = Inl e \<longleftrightarrow> x = Inl e \<or> (\<exists>v. x = Inr v \<and> f v = Inl e)"
  by (cases x) auto

lemma map_err_Inl_iff: "map_err h x = Inl e \<longleftrightarrow> (\<exists>r. x = Inl r \<and> e = h r)"
  by (cases x) auto

subsection \<open>Failure that leaves a state\<close>

text \<open>
  Code that changes state and may fail part of the way (\<^verbatim>\<open>&mut self\<close> with \<^verbatim>\<open>?\<close>) returns its result
  or error beside the state it leaves.
\<close>

fun sbind :: "('e + 'a) \<times> 's \<Rightarrow> ('a \<Rightarrow> 's \<Rightarrow> ('e + 'b) \<times> 's) \<Rightarrow> ('e + 'b) \<times> 's" where
  "sbind (Inl e, s) f = (Inl e, s)"
| "sbind (Inr x, s) f = f x s"

lemma sbind_cong [fundef_cong]:
  "x = x' \<Longrightarrow> (\<And>v s. x' = (Inr v, s) \<Longrightarrow> f v s = g v s) \<Longrightarrow> sbind x f = sbind x' g"
  by (cases "(x', f)" rule: sbind.cases) auto

lemma sbind_Inr_iff: "sbind x f = (Inr y, s) \<longleftrightarrow> (\<exists>v s'. x = (Inr v, s') \<and> f v s' = (Inr y, s))"
  by (cases "(x, f)" rule: sbind.cases) auto

text \<open>Induction-free rule: what holds after the first part and is kept by the second holds after both.\<close>

lemma sbind_keeps:
  assumes "P (snd x)" "\<And>v s. x = (Inr v, s) \<Longrightarrow> P s \<Longrightarrow> P (snd (f v s))"
  shows "P (snd (sbind x f))"
  using assms by (cases "(x, f)" rule: sbind.cases) auto

subsection \<open>Decimal printing\<close>

fun dec_digits :: "nat \<Rightarrow> nat list" where
  "dec_digits n = (if n < 10 then [n] else dec_digits (n div 10) @ [n mod 10])"

declare dec_digits.simps [simp del]

definition dec :: "nat \<Rightarrow> string" where
  "dec n = map (\<lambda>d. char_of (48 + d)) (dec_digits n)"

subsection \<open>Little-endian bytes\<close>

text \<open>\<^verbatim>\<open>to_le_bytes\<close> and \<^verbatim>\<open>from_le_bytes\<close>, at any width.\<close>

primrec le_bytes :: "nat \<Rightarrow> 'a::len word \<Rightarrow> bytes" where
  "le_bytes 0 w = []"
| "le_bytes (Suc n) w = ucast w # le_bytes n (drop_bit 8 w)"

primrec of_le :: "bytes \<Rightarrow> 'a::len word" where
  "of_le [] = 0"
| "of_le (b # bs) = ucast b OR push_bit 8 (of_le bs)"

lemma length_le_bytes [simp]: "length (le_bytes n w) = n"
  by (induction n arbitrary: w) simp_all

lemma of_le_le_bytes_take: "of_le (le_bytes n w) = take_bit (8 * n) w"
proof (induction n arbitrary: w)
  case 0
  show ?case by simp
next
  case (Suc n)
  have "ucast (ucast w :: u8) OR push_bit 8 (take_bit (8 * n) (drop_bit 8 w)) = take_bit (8 * Suc n) w"
    by (rule bit_word_eqI) (auto simp: bit_simps not_less dest: bit_imp_le_length)
  with Suc.IH show ?case by simp
qed

lemma of_le_le_bytes:
  fixes w :: "'a::len word"
  assumes "8 * n = LENGTH('a)"
  shows "of_le (le_bytes n w) = w"
  using assms by (simp add: of_le_le_bytes_take)

lemmas of_le_simps [simp] =
  of_le_le_bytes [where 'a = 8 and n = 1, simplified]
  of_le_le_bytes [where 'a = 16 and n = 2, simplified]
  of_le_le_bytes [where 'a = 32 and n = 4, simplified]
  of_le_le_bytes [where 'a = 64 and n = 8, simplified]
  of_le_le_bytes [where 'a = 128 and n = 16, simplified]

lemma le_bytes_of_le:
  fixes bs :: bytes
  assumes "length bs = n" "8 * n \<le> LENGTH('a::len)"
  shows "le_bytes n (of_le bs :: 'a word) = bs"
  using assms
proof (induction bs arbitrary: n)
  case Nil
  then show ?case by simp
next
  case (Cons b bs)
  then obtain m where n: "n = Suc m" and m: "length bs = m" "8 + 8 * m \<le> LENGTH('a)"
    by (cases n) auto
  define r :: "'a word" where "r = of_le bs"
  have small: "take_bit (8 * m) r = r"
  proof -
    have "le_bytes m r = bs" unfolding r_def using Cons.IH m by simp
    then show ?thesis unfolding r_def by (metis of_le_le_bytes_take)
  qed
  have hd: "ucast (ucast b OR push_bit 8 r :: 'a word) = b"
    using m by (intro bit_word_eqI) (auto simp: bit_simps dest: bit_imp_le_length)
  have tl: "drop_bit 8 (ucast b OR push_bit 8 r :: 'a word) = r"
  proof (rule bit_word_eqI)
    fix k assume "k < LENGTH('a)"
    show "bit (drop_bit 8 (ucast b OR push_bit 8 r :: 'a word)) k = bit r k"
    proof (cases "k < 8 * m")
      case True
      then show ?thesis using m
        by (auto simp: bit_simps dest: bit_imp_le_length)
    next
      case False
      then have "\<not> bit r k"
        by (subst small [symmetric]) (simp add: bit_simps)
      then show ?thesis by (auto simp: bit_simps dest: bit_imp_le_length)
    qed
  qed
  have "le_bytes m r = bs" unfolding r_def using Cons.IH m by simp
  then show ?case
    by (simp only: n le_bytes.simps of_le.simps r_def [symmetric] hd tl)
qed

lemma le_bytes_inject:
  fixes v w :: "'a::len word"
  assumes "8 * n = LENGTH('a)" "le_bytes n v = le_bytes n w"
  shows "v = w"
  using assms by (metis of_le_le_bytes)

subsection \<open>Words and lists\<close>

lemma word_ne_zero_test: "(w AND push_bit k 1 \<noteq> (0 :: 'a::len word)) \<longleftrightarrow> bit w k"
  by (simp add: bit_iff_and_push_bit_not_eq_0)

lemma take_bit_word_self_iff: "take_bit n w = w \<longleftrightarrow> unat w < 2 ^ n" for w :: "'a::len word"
proof -
  have "take_bit n w = w \<longleftrightarrow> take_bit n (unat w) = unat w"
    by (metis unsigned_take_bit_eq word_unat_eq_iff)
  then show ?thesis by (simp add: take_bit_nat_eq_self_iff)
qed

lemma word_small_no_bit: "unat w < 2 ^ n \<Longrightarrow> n \<le> k \<Longrightarrow> \<not> bit w k" for w :: "'a::len word"
  by (metis bit_take_bit_iff leD take_bit_word_self_iff)

lemma list_update_append_right:
  "length xs \<le> i \<Longrightarrow> (xs @ ys)[i := v] = xs @ ys[i - length xs := v]"
  by (simp add: list_update_append)

lemma take_drop_split3:
  "i + n \<le> length xs \<Longrightarrow> xs = take i xs @ take n (drop i xs) @ drop (i + n) xs"
  by (metis append_assoc append_take_drop_id take_add)

text \<open>Aligned blocks of \<open>2 ^ b\<close> bytes: base and offset.\<close>

lemma unat_exp64: "b < 64 \<Longrightarrow> unat (2 ^ b :: u64) = 2 ^ b"
proof -
  assume "b < 64"
  then have "(2::nat) ^ b < 2 ^ 64" by (rule power_strict_increasing) simp
  then have "unat (of_nat (2 ^ b) :: u64) = 2 ^ b" by (simp only: unat_of_nat) simp
  then show ?thesis by simp
qed

lemma word_less_exp64: "b < 64 \<Longrightarrow> (w :: u64) < 2 ^ b \<longleftrightarrow> w AND mask b = w"
  by (simp add: word_less_nat_alt unat_exp64 take_bit_eq_mask [symmetric] take_bit_word_self_iff)

lemma base_plus_offset:
  fixes base d :: u64
  assumes "base AND mask b = 0" "d AND mask b = d"
  shows "base + d = base OR d" "(base + d) AND NOT (mask b) = base"
proof -
  have bd: "bit base n \<Longrightarrow> b \<le> n" "bit d n \<Longrightarrow> n < b" for n
    using arg_cong [OF assms(1), of "\<lambda>w. bit w n"] arg_cong [OF assms(2), of "\<lambda>w. bit w n"]
    by (auto simp: bit_simps not_less dest: bit_imp_le_length)
  have "base AND d = 0" by (rule bit_word_eqI) (auto simp: bit_and_iff dest!: bd)
  then show s: "base + d = base OR d" by (rule disjunctive_add_eq_or)
  show "(base + d) AND NOT (mask b) = base"
    unfolding s by (rule bit_word_eqI) (auto simp: bit_simps dest: bd)
qed

lemma sub_block:
  fixes base key :: u64
  assumes "base AND mask b = 0" "b < 64"
  shows "key - base < 2 ^ b \<longleftrightarrow> key AND NOT (mask b) = base"
    and "key AND NOT (mask b) = base \<Longrightarrow> key - base = key AND mask b"
proof -
  have k: "base + (key - base) = key" by simp
  show s: "key - base = key AND mask b" if "key AND NOT (mask b) = base"
  proof -
    have "base + (key AND mask b) = base OR (key AND mask b)"
      using assms(1) by (rule base_plus_offset) (simp add: and.assoc)
    also have "\<dots> = key" unfolding that [symmetric] by (rule bit_word_eqI) (auto simp: bit_simps)
    finally show ?thesis using k by (metis add_left_cancel)
  qed
  show "key - base < 2 ^ b \<longleftrightarrow> key AND NOT (mask b) = base"
  proof
    assume "key - base < 2 ^ b"
    then have "(key - base) AND mask b = key - base" using assms(2) word_less_exp64 by blast
    from base_plus_offset(2) [OF assms(1) this] show "key AND NOT (mask b) = base" unfolding k .
  next
    assume "key AND NOT (mask b) = base"
    then have "key - base = key AND mask b" by (rule s)
    then have "(key - base) AND mask b = key - base" by (simp only: and.assoc and.idem)
    then show "key - base < 2 ^ b" using assms(2) word_less_exp64 by blast
  qed
qed

lemma unat_ucast_up:
  "LENGTH('a) \<le> LENGTH('b) \<Longrightarrow> unat (ucast w :: 'b::len word) = unat w" for w :: "'a::len word"
proof -
  assume "LENGTH('a) \<le> LENGTH('b)"
  then have "(2 :: nat) ^ LENGTH('a) \<le> 2 ^ LENGTH('b)" by (rule power_increasing) simp
  then have "unat w < 2 ^ LENGTH('b)" by (rule order_less_le_trans [OF unsigned_less])
  then show ?thesis by (simp add: unsigned_ucast_eq unsigned_take_bit_eq take_bit_nat_eq_self_iff)
qed

end
