(* ===== verification/Snapshot.thy ===== *)
theory Snapshot
  imports Prelude
begin

text \<open>
  The snapshot stream of \<^verbatim>\<open>crates/vetro-snapshot/src/lib.rs\<close>: errors, \<^verbatim>\<open>Writer\<close>, \<^verbatim>\<open>Reader\<close>,
  the checksum \<^verbatim>\<open>hash64\<close> and its incremental form \<^verbatim>\<open>Hash64\<close>, the file container, and
  \<^verbatim>\<open>is_zero\<close>. A \<^verbatim>\<open>&mut Writer\<close> is a \<open>writer\<close> passed and returned, a \<^verbatim>\<open>&mut Reader\<close> a
  \<open>reader\<close> returned beside the value read; a Rust string is its list of UTF-8 bytes.
  Two interfaces are stated as locales: \<open>codec\<close>, a value encoding with its reader, and
  \<open>snapshot\<close>, the trait \<^verbatim>\<open>Snapshot\<close> that every device implements.
\<close>

subsection \<open>Errors, writer and reader\<close>

type_synonym tag4 = bytes

datatype snap_error =
    BadMagic
  | Version u32 u32
  | Config u64 u64
  | Checksum
  | Truncated
  | Section tag4 tag4
  | Trailing tag4 nat
  | Invalid string

datatype level = Fast | Small

text \<open>\<^verbatim>\<open>deferred::Mark\<close> and \<^verbatim>\<open>deferred::Plan\<close>.\<close>

datatype mark = SectionMark (m_at: u64) (m_end: u64) | BlocksMark (m_at: u64) (m_len: u64)

record plan =
  config_hash :: u64
  marks :: "mark list"
  raw_len :: u64

record writer =
  wbuf :: bytes
  wlevel :: level
  wmarks :: "mark list option"

definition w_new :: writer where
  "w_new = \<lparr>wbuf = [], wlevel = Fast, wmarks = None\<rparr>"

definition w_deferred :: writer where
  "w_deferred = \<lparr>wbuf = [], wlevel = Fast, wmarks = Some []\<rparr>"

definition is_deferred :: "writer \<Rightarrow> bool" where
  "is_deferred w = (wmarks w \<noteq> None)"

definition set_level :: "level \<Rightarrow> writer \<Rightarrow> writer" where
  "set_level l w = w\<lparr>wlevel := l\<rparr>"

definition w_raw :: "bytes \<Rightarrow> writer \<Rightarrow> writer" where
  "w_raw b w = w\<lparr>wbuf := wbuf w @ b\<rparr>"

definition w_u8 :: "u8 \<Rightarrow> writer \<Rightarrow> writer" where
  "w_u8 v w = w\<lparr>wbuf := wbuf w @ [v]\<rparr>"

definition w_u16 :: "u16 \<Rightarrow> writer \<Rightarrow> writer" where
  "w_u16 v w = w\<lparr>wbuf := wbuf w @ le_bytes 2 v\<rparr>"

definition w_u32 :: "u32 \<Rightarrow> writer \<Rightarrow> writer" where
  "w_u32 v w = w\<lparr>wbuf := wbuf w @ le_bytes 4 v\<rparr>"

definition w_u64 :: "u64 \<Rightarrow> writer \<Rightarrow> writer" where
  "w_u64 v w = w\<lparr>wbuf := wbuf w @ le_bytes 8 v\<rparr>"

definition w_u128 :: "u128 \<Rightarrow> writer \<Rightarrow> writer" where
  "w_u128 v w = w\<lparr>wbuf := wbuf w @ le_bytes 16 v\<rparr>"

definition w_bool :: "bool \<Rightarrow> writer \<Rightarrow> writer" where
  "w_bool v w = w\<lparr>wbuf := wbuf w @ [if v then 1 else 0]\<rparr>"

definition w_len_of :: "nat \<Rightarrow> writer \<Rightarrow> writer" where
  "w_len_of n w = w_u64 (of_nat n) w"

definition w_bytes :: "bytes \<Rightarrow> writer \<Rightarrow> writer" where
  "w_bytes b w = w_raw b (w_len_of (length b) w)"

definition w_opt :: "('a \<Rightarrow> writer \<Rightarrow> writer) \<Rightarrow> 'a option \<Rightarrow> writer \<Rightarrow> writer" where
  "w_opt f v w = (case v of None \<Rightarrow> w_u8 0 w | Some x \<Rightarrow> f x (w_u8 1 w))"

definition w_opt_u64 :: "u64 option \<Rightarrow> writer \<Rightarrow> writer" where
  "w_opt_u64 v w = w_opt w_u64 v w"

definition w_seq :: "('a \<Rightarrow> writer \<Rightarrow> writer) \<Rightarrow> 'a list \<Rightarrow> writer \<Rightarrow> writer" where
  "w_seq f xs w = fold f xs (w_len_of (length xs) w)"

text \<open>\<^verbatim>\<open>buf[at..at + n].copy_from_slice(b)\<close>.\<close>

definition patch :: "nat \<Rightarrow> bytes \<Rightarrow> bytes \<Rightarrow> bytes" where
  "patch at b buf = take at buf @ b @ drop (at + length b) buf"

definition w_section :: "tag4 \<Rightarrow> (writer \<Rightarrow> writer) \<Rightarrow> writer \<Rightarrow> writer" where
  "w_section tag f w =
    (let w1 = w_raw tag w;
         at = length (wbuf w1);
         w2 = w_u64 0 w1;
         mark = map_option length (wmarks w2);
         w3 = f (w2\<lparr>wmarks := map_option (\<lambda>m. m @ [SectionMark (of_nat at) 0]) (wmarks w2)\<rparr>);
         len = length (wbuf w3) - at - 8;
         w4 = w3\<lparr>wbuf := patch at (le_bytes 8 (of_nat len :: u64)) (wbuf w3)\<rparr>
     in case mark of
          None \<Rightarrow> w4
        | Some i \<Rightarrow>
            w4\<lparr>wmarks := map_option
              (\<lambda>m. m[i := SectionMark (of_nat at) (of_nat (length (wbuf w4)))]) (wmarks w4)\<rparr>)"

text \<open>\<open>None\<close> is the panic of \<^verbatim>\<open>expect\<close> on a writer that is not deferred.\<close>

definition external_section :: "tag4 \<Rightarrow> u64 \<Rightarrow> writer \<Rightarrow> writer option" where
  "external_section tag len w =
    (let w1 = w_raw tag w;
         at = of_nat (length (wbuf w1)) :: u64;
         w2 = w_u64 0 w1
     in case wmarks w2 of
          None \<Rightarrow> None
        | Some m \<Rightarrow> Some (w2\<lparr>wmarks :=
              Some (m @ [SectionMark at (at + 8 + len), BlocksMark (at + 8) len])\<rparr>))"

definition into_plan :: "u64 \<Rightarrow> u64 \<Rightarrow> writer \<Rightarrow> (plan \<times> bytes) option" where
  "into_plan ch extra w =
    (case wmarks w of
       None \<Rightarrow> None
     | Some m \<Rightarrow> Some (\<lparr>config_hash = ch, marks = m,
                        raw_len = of_nat (length (wbuf w)) + extra\<rparr>, wbuf w))"

record reader =
  rbuf :: bytes
  rpos :: nat
  rtag :: tag4

definition r_new :: "bytes \<Rightarrow> reader" where
  "r_new b = \<lparr>rbuf = b, rpos = 0, rtag = [32, 32, 32, 32]\<rparr>"

definition remaining :: "reader \<Rightarrow> nat" where
  "remaining r = length (rbuf r) - rpos r"

type_synonym 'a read = "reader \<Rightarrow> snap_error + 'a \<times> reader"

definition r_raw :: "nat \<Rightarrow> bytes read" where
  "r_raw n r =
    (if remaining r < n then Inl Truncated
     else Inr (take n (drop (rpos r) (rbuf r)), r\<lparr>rpos := rpos r + n\<rparr>))"

definition r_u8 :: "u8 read" where
  "r_u8 r = rbind (r_raw 1 r) (\<lambda>(b, r'). Inr (b ! 0, r'))"

definition r_u16 :: "u16 read" where
  "r_u16 r = rbind (r_raw 2 r) (\<lambda>(b, r'). Inr (of_le b, r'))"

definition r_u32 :: "u32 read" where
  "r_u32 r = rbind (r_raw 4 r) (\<lambda>(b, r'). Inr (of_le b, r'))"

definition r_u64 :: "u64 read" where
  "r_u64 r = rbind (r_raw 8 r) (\<lambda>(b, r'). Inr (of_le b, r'))"

definition r_u128 :: "u128 read" where
  "r_u128 r = rbind (r_raw 16 r) (\<lambda>(b, r'). Inr (of_le b, r'))"

definition r_bool :: "bool read" where
  "r_bool r = rbind (r_u8 r) (\<lambda>(v, r').
     if v = 0 then Inr (False, r') else if v = 1 then Inr (True, r')
     else Inl (Invalid (''boolean '' @ dec (unat v))))"

definition r_len_of :: "nat \<Rightarrow> nat read" where
  "r_len_of min_item r = rbind (r_u64 r) (\<lambda>(n, r').
     if remaining r' div max min_item 1 < unat n then Inl Truncated else Inr (unat n, r'))"

definition r_bytes :: "bytes read" where
  "r_bytes r = rbind (r_len_of 1 r) (\<lambda>(n, r'). r_raw n r')"

definition r_vec :: "bytes read" where
  "r_vec r = r_bytes r"

text \<open>\<^verbatim>\<open>String::from_utf8\<close> accepts exactly the well-formed UTF-8 of the Unicode standard.\<close>

abbreviation cont_byte :: "u8 \<Rightarrow> bool" where
  "cont_byte b \<equiv> 0x80 \<le> b \<and> b \<le> 0xBF"

fun utf8_tail :: "nat \<Rightarrow> bytes \<Rightarrow> bytes option" where
  "utf8_tail 0 bs = Some bs"
| "utf8_tail (Suc n) [] = None"
| "utf8_tail (Suc n) (b # bs) = (if cont_byte b then utf8_tail n bs else None)"

lemma utf8_tail_length: "utf8_tail n bs = Some cs \<Longrightarrow> length cs \<le> length bs"
  by (induction n bs rule: utf8_tail.induct) (auto split: if_splits)

definition utf8_char :: "u8 \<Rightarrow> bytes \<Rightarrow> bytes option" where
  "utf8_char b bs =
    (if b < 0x80 then Some bs
     else if 0xC2 \<le> b \<and> b \<le> 0xDF then utf8_tail 1 bs
     else case bs of
       [] \<Rightarrow> None
     | c # cs \<Rightarrow>
        if (b = 0xE0 \<and> 0xA0 \<le> c \<and> c \<le> 0xBF) \<or> (0xE1 \<le> b \<and> b \<le> 0xEC \<and> cont_byte c)
           \<or> (b = 0xED \<and> 0x80 \<le> c \<and> c \<le> 0x9F) \<or> (0xEE \<le> b \<and> b \<le> 0xEF \<and> cont_byte c)
        then utf8_tail 1 cs
        else if (b = 0xF0 \<and> 0x90 \<le> c \<and> c \<le> 0xBF) \<or> (0xF1 \<le> b \<and> b \<le> 0xF3 \<and> cont_byte c)
           \<or> (b = 0xF4 \<and> 0x80 \<le> c \<and> c \<le> 0x8F)
        then utf8_tail 2 cs
        else None)"

lemma utf8_char_length: "utf8_char b bs = Some cs \<Longrightarrow> length cs \<le> length bs"
  by (auto simp: utf8_char_def dest!: utf8_tail_length split: if_splits list.splits)

function valid_utf8 :: "bytes \<Rightarrow> bool" where
  "valid_utf8 [] = True"
| "valid_utf8 (b # bs) = (case utf8_char b bs of None \<Rightarrow> False | Some cs \<Rightarrow> valid_utf8 cs)"
  by pat_completeness auto
termination
  by (relation "measure length") (auto dest: utf8_char_length)

definition r_string :: "bytes read" where
  "r_string r = rbind (r_vec r) (\<lambda>(v, r').
     if valid_utf8 v then Inr (v, r') else Inl (Invalid ''non-UTF-8 string''))"

definition r_opt :: "'a read \<Rightarrow> 'a option read" where
  "r_opt f r = rbind (r_u8 r) (\<lambda>(v, r').
     if v = 0 then Inr (None, r')
     else if v = 1 then rmap (\<lambda>(x, r''). (Some x, r'')) (f r')
     else Inl (Invalid (''option '' @ dec (unat v))))"

definition r_opt_u64 :: "u64 option read" where
  "r_opt_u64 r = r_opt r_u64 r"

fun r_times :: "nat \<Rightarrow> 'a read \<Rightarrow> 'a list read" where
  "r_times 0 f r = Inr ([], r)"
| "r_times (Suc n) f r =
     rbind (f r) (\<lambda>(x, r'). rbind (r_times n f r') (\<lambda>(xs, r''). Inr (x # xs, r'')))"

definition r_seq :: "nat \<Rightarrow> 'a read \<Rightarrow> 'a list read" where
  "r_seq min_item f r = rbind (r_len_of min_item r) (\<lambda>(n, r'). r_times n f r')"

definition r_section :: "tag4 \<Rightarrow> reader read" where
  "r_section tag r = rbind (r_raw 4 r) (\<lambda>(found, r1).
     if found \<noteq> tag then Inl (Section tag found)
     else rbind (r_u64 r1) (\<lambda>(n, r2).
       if remaining r2 < unat n then Inl Truncated
       else rbind (r_raw (unat n) r2) (\<lambda>(body, r3).
         Inr (\<lparr>rbuf = body, rpos = 0, rtag = tag\<rparr>, r3))))"

definition peek_tag :: "reader \<Rightarrow> tag4 option" where
  "peek_tag r = (if rpos r + 4 \<le> length (rbuf r) then Some (take 4 (drop (rpos r) (rbuf r))) else None)"

definition r_finish :: "reader \<Rightarrow> snap_error + unit" where
  "r_finish r = (if remaining r = 0 then Inr () else Inl (Trailing (rtag r) (remaining r)))"

definition expect_u64 :: "string \<Rightarrow> u64 \<Rightarrow> reader \<Rightarrow> snap_error + unit \<times> reader" where
  "expect_u64 what expected r = rbind (r_u64 r) (\<lambda>(v, r').
     if v \<noteq> expected
     then Inl (Invalid (what @ '': '' @ dec (unat v) @ '' in the snapshot, '' @
                        dec (unat expected) @ '' in this machine''))
     else Inr ((), r'))"

subsection \<open>Checksum\<close>

definition hash_prime :: u64 where "hash_prime = 0x100000001b3"

definition hash_word :: "u64 \<Rightarrow> bytes \<Rightarrow> u64" where
  "hash_word h c = word_rotl 23 ((h XOR of_le c) * hash_prime)"

definition hash_byte :: "u64 \<Rightarrow> u8 \<Rightarrow> u64" where
  "hash_byte h b = (h XOR ucast b) * hash_prime"

definition hash_mix :: "u64 \<Rightarrow> u64" where
  "hash_mix h =
    (let h1 = (h XOR drop_bit 30 h) * 0xbf58476d1ce4e5b9;
         h2 = (h1 XOR drop_bit 27 h1) * 0x94d049bb133111eb
     in h2 XOR drop_bit 31 h2)"

text \<open>\<^verbatim>\<open>as_chunks::<8>\<close> and the loop over the words: the hash so far and the rest.\<close>

fun hash_chunks :: "u64 \<Rightarrow> bytes \<Rightarrow> u64 \<times> bytes" where
  "hash_chunks h data =
     (if length data < 8 then (h, data) else hash_chunks (hash_word h (take 8 data)) (drop 8 data))"

declare hash_chunks.simps [simp del]

definition hash_seed :: u64 where "hash_seed = 0xcbf29ce484222325"

definition hash64 :: "bytes \<Rightarrow> u64" where
  "hash64 data =
    (let (h, rest) = hash_chunks (hash_seed XOR of_nat (length data)) data
     in hash_mix (foldl hash_byte h rest))"

record hash_state =
  hs_h :: u64
  hs_carry :: bytes
  hs_n :: nat

definition hs_new :: "u64 \<Rightarrow> hash_state" where
  "hs_new tot = \<lparr>hs_h = hash_seed XOR tot, hs_carry = replicate 8 0, hs_n = 0\<rparr>"

definition hs_words :: "bytes \<Rightarrow> hash_state \<Rightarrow> hash_state" where
  "hs_words data s =
    (let (h, rest) = hash_chunks (hs_h s) data
     in s\<lparr>hs_h := h, hs_carry := patch 0 rest (hs_carry s), hs_n := length rest\<rparr>)"

definition hs_update :: "bytes \<Rightarrow> hash_state \<Rightarrow> hash_state" where
  "hs_update data s =
    (if 0 < hs_n s then
       let k = min (8 - hs_n s) (length data);
           s1 = s\<lparr>hs_carry := patch (hs_n s) (take k data) (hs_carry s), hs_n := hs_n s + k\<rparr>
       in if hs_n s1 < 8 then s1
          else hs_words (drop k data) (s1\<lparr>hs_h := hash_word (hs_h s1) (hs_carry s1), hs_n := 0\<rparr>)
     else hs_words data s)"

definition hs_finish :: "hash_state \<Rightarrow> u64" where
  "hs_finish s = hash_mix (foldl hash_byte (hs_h s) (take (hs_n s) (hs_carry s)))"

subsection \<open>File container\<close>

definition snap_magic :: bytes where
  "snap_magic = map (of_nat \<circ> of_char) ''VETROSNP''"

definition format_version :: u32 where "format_version = 4"

definition header_len :: nat where "header_len = 8 + 4 + 8 + 8 + 8"

definition encode_container :: "bytes \<Rightarrow> u32 \<Rightarrow> u64 \<Rightarrow> bytes \<Rightarrow> bytes" where
  "encode_container magic version ch payload =
     magic @ le_bytes 4 version @ le_bytes 8 ch @ le_bytes 8 (of_nat (length payload) :: u64) @
     le_bytes 8 (hash64 payload) @ payload"

definition encode_file :: "u64 \<Rightarrow> bytes \<Rightarrow> bytes" where
  "encode_file ch payload = encode_container snap_magic format_version ch payload"

record header =
  h_version :: u32
  h_config_hash :: u64

definition decode_container :: "bytes \<Rightarrow> u32 \<Rightarrow> bytes \<Rightarrow> snap_error + header \<times> bytes" where
  "decode_container magic version b =
    (if length b < 8 \<or> take 8 b \<noteq> magic then Inl BadMagic
     else rbind (r_u32 (r_new (drop 8 b))) (\<lambda>(found, r1).
       if found \<noteq> version then Inl (Version found version)
       else rbind (r_u64 r1) (\<lambda>(ch, r2). rbind (r_u64 r2) (\<lambda>(len, r3). rbind (r_u64 r3) (\<lambda>(cks, r4).
         if len \<noteq> of_nat (remaining r4) then Inl Truncated
         else rbind (r_raw (unat len) r4) (\<lambda>(payload, r5).
           if hash64 payload \<noteq> cks then Inl Checksum
           else Inr (\<lparr>h_version = found, h_config_hash = ch\<rparr>, payload)))))))"

definition decode_file :: "bytes \<Rightarrow> snap_error + header \<times> bytes" where
  "decode_file b = decode_container snap_magic format_version b"

text \<open>The word-wise test for a zero block.\<close>

fun or_words :: "u64 \<Rightarrow> bytes \<Rightarrow> u64 \<times> bytes" where
  "or_words acc b =
     (if length b < 8 then (acc, b) else or_words (acc OR of_le (take 8 b)) (drop 8 b))"

declare or_words.simps [simp del]

definition is_zero :: "bytes \<Rightarrow> bool" where
  "is_zero b = (let (acc, rest) = or_words 0 b in acc = 0 \<and> (\<forall>x \<in> set rest. x = 0))"


subsection \<open>Reading back what was written\<close>

text \<open>A reader in the middle of its buffer: \<open>pre\<close> already read, \<open>xs\<close> to come.\<close>

definition reader_at :: "tag4 \<Rightarrow> bytes \<Rightarrow> bytes \<Rightarrow> reader" where
  "reader_at t pre xs = \<lparr>rbuf = pre @ xs, rpos = length pre, rtag = t\<rparr>"

lemma r_new_at: "r_new b = reader_at [32, 32, 32, 32] [] b"
  by (simp add: r_new_def reader_at_def)

lemma reader_at_exhaust:
  assumes "rpos r \<le> length (rbuf r)"
  shows "r = reader_at (rtag r) (take (rpos r) (rbuf r)) (drop (rpos r) (rbuf r))"
  using assms by (cases r) (simp add: reader_at_def)

lemma remaining_at [simp]: "remaining (reader_at t pre xs) = length xs"
  by (simp add: remaining_def reader_at_def)

lemma r_raw_at:
  "r_raw n (reader_at t pre xs) =
    (if length xs < n then Inl Truncated
     else Inr (take n xs, reader_at t (pre @ take n xs) (drop n xs)))"
  by (simp add: r_raw_def) (simp add: reader_at_def)

lemma r_raw_append [codec_simps]:
  "length b = n \<Longrightarrow> r_raw n (reader_at t pre (b @ xs)) = Inr (b, reader_at t (pre @ b) xs)"
  by (simp add: r_raw_at)

lemma r_u8_at [codec_simps]:
  "r_u8 (reader_at t pre (v # xs)) = Inr (v, reader_at t (pre @ [v]) xs)"
  by (simp add: r_u8_def r_raw_at)

lemma r_u16_at [codec_simps]:
  "r_u16 (reader_at t pre (le_bytes 2 v @ xs)) = Inr (v, reader_at t (pre @ le_bytes 2 v) xs)"
  by (simp add: r_u16_def r_raw_append)

lemma r_u32_at [codec_simps]:
  "r_u32 (reader_at t pre (le_bytes 4 v @ xs)) = Inr (v, reader_at t (pre @ le_bytes 4 v) xs)"
  by (simp add: r_u32_def r_raw_append)

lemma r_u64_at [codec_simps]:
  "r_u64 (reader_at t pre (le_bytes 8 v @ xs)) = Inr (v, reader_at t (pre @ le_bytes 8 v) xs)"
  by (simp add: r_u64_def r_raw_append)

lemma r_u128_at [codec_simps]:
  "r_u128 (reader_at t pre (le_bytes 16 v @ xs)) = Inr (v, reader_at t (pre @ le_bytes 16 v) xs)"
  by (simp add: r_u128_def r_raw_append)

lemma r_bool_at [codec_simps]:
  "r_bool (reader_at t pre ((if v then 1 else 0) # xs)) =
     Inr (v, reader_at t (pre @ [if v then 1 else 0]) xs)"
  by (simp add: r_bool_def codec_simps)

lemma r_bool_of_bool: "r_bool (reader_at t pre (of_bool v # xs)) = Inr (v, reader_at t (pre @ [of_bool v]) xs)"
  using r_bool_at [of t pre v xs] by (cases v) simp_all

lemma expect_u64_at [codec_simps]:
  "expect_u64 what v (reader_at t pre (le_bytes 8 v @ xs)) = Inr ((), reader_at t (pre @ le_bytes 8 v) xs)"
  by (simp add: expect_u64_def codec_simps)

lemma r_len_of_at [codec_simps]:
  assumes "n < 2 ^ 64" "n * max m 1 \<le> length xs"
  shows "r_len_of m (reader_at t pre (le_bytes 8 (of_nat n :: u64) @ xs)) =
    Inr (n, reader_at t (pre @ le_bytes 8 (of_nat n :: u64)) xs)"
proof -
  have "unat (of_nat n :: u64) = n"
    using assms(1) by (simp add: unat_of_nat)
  moreover have "n \<le> length xs div max m 1"
    using assms(2) by (simp add: less_eq_div_iff_mult_less_eq)
  ultimately show ?thesis
    by (simp add: r_len_of_def codec_simps not_less)
qed

lemma r_finish_at [codec_simps]: "r_finish (reader_at t pre []) = Inr ()"
  by (simp add: r_finish_def)

lemma r_section_at [codec_simps]:
  assumes "length tag = 4" "length body < 2 ^ 64"
  shows "r_section tag (reader_at t pre (tag @ le_bytes 8 (of_nat (length body) :: u64) @ body @ xs)) =
    Inr (reader_at tag [] body,
         reader_at t (pre @ tag @ le_bytes 8 (of_nat (length body) :: u64) @ body) xs)"
  using assms
  by (simp add: r_section_def codec_simps unat_of_nat)
    (simp add: reader_at_def)

text \<open>Every write appends: the image of a value.\<close>

lemma w_raw_raw [codec_simps]: "w_raw b (w_raw a w) = w_raw (a @ b) w"
  by (simp add: w_raw_def)

lemma w_raw_Nil [simp]: "w_raw [] w = w"
  by (simp add: w_raw_def)

lemma w_prims_raw [codec_simps]:
  "w_u8 a w = w_raw [a] w" "w_u16 b w = w_raw (le_bytes 2 b) w" "w_u32 c w = w_raw (le_bytes 4 c) w"
  "w_u64 d w = w_raw (le_bytes 8 d) w" "w_u128 e w = w_raw (le_bytes 16 e) w"
  "w_bool f w = w_raw [if f then 1 else 0] w"
  "w_len_of n w = w_raw (le_bytes 8 (of_nat n :: u64)) w"
  "w_bytes bs w = w_raw (le_bytes 8 (of_nat (length bs) :: u64) @ bs) w"
  by (simp_all add: w_raw_def w_u8_def w_u16_def w_u32_def w_u64_def w_u128_def w_bool_def
      w_len_of_def w_bytes_def)

lemma fold_w_raw:
  assumes "\<And>x v. x \<in> set xs \<Longrightarrow> f x v = w_raw (enc x) v"
  shows "fold f xs w = w_raw (concat (map enc xs)) w"
  using assms
proof (induction xs arbitrary: w)
  case Nil
  then show ?case by simp
next
  case (Cons x xs)
  then show ?case by (simp add: w_raw_raw)
qed

definition seq_img :: "('a \<Rightarrow> bytes) \<Rightarrow> 'a list \<Rightarrow> bytes" where
  "seq_img enc xs = le_bytes 8 (of_nat (length xs) :: u64) @ concat (map enc xs)"

definition opt_img :: "('a \<Rightarrow> bytes) \<Rightarrow> 'a option \<Rightarrow> bytes" where
  "opt_img enc v = (case v of None \<Rightarrow> [0] | Some x \<Rightarrow> 1 # enc x)"

definition section_img :: "tag4 \<Rightarrow> bytes \<Rightarrow> bytes" where
  "section_img tag body = tag @ le_bytes 8 (of_nat (length body) :: u64) @ body"

lemma w_section_raw:
  assumes "wmarks w = None" "\<And>v. f v = w_raw body v"
  shows "w_section tag f w = w_raw (section_img tag body) w"
  using assms
  by (simp add: w_section_def Let_def w_raw_def w_u64_def patch_def section_img_def)

subsection \<open>The interface of a value encoding\<close>

locale codec =
  fixes emit :: "'a \<Rightarrow> writer \<Rightarrow> writer"
    and parse :: "'a read"
    and img :: "'a \<Rightarrow> bytes"
    and min_len :: nat
  assumes write_img: "emit x w = w_raw (img x) w"
    and read_img: "parse (reader_at t pre (img x @ xs)) = Inr (x, reader_at t (pre @ img x) xs)"
    and img_min: "min_len \<le> length (img x)"
begin

lemma img_prefix_free: "img x @ xs = img y @ ys \<Longrightarrow> x = y \<and> xs = ys"
proof -
  assume eq: "img x @ xs = img y @ ys"
  from read_img [of "[]" "[]" x xs] read_img [of "[]" "[]" y ys] eq
  have xy: "x = y" by simp
  with eq show ?thesis by simp
qed

lemma write_seq: "w_seq emit xs w = w_raw (seq_img img xs) w"
  using fold_w_raw [of xs emit img] by (simp add: w_seq_def write_img codec_simps seq_img_def)

lemma write_opt: "w_opt emit v w = w_raw (opt_img img v) w"
  by (cases v) (simp_all add: w_opt_def opt_img_def write_img codec_simps)

lemma read_times:
  "r_times (length xs) parse (reader_at t pre (concat (map img xs) @ zs)) =
    Inr (xs, reader_at t (pre @ concat (map img xs)) zs)"
  by (induction xs arbitrary: pre) (simp_all add: read_img)

lemma length_concat_img: "length xs * min_len \<le> length (concat (map img xs))"
  by (induction xs) (auto intro: add_le_mono img_min)

lemma read_seq:
  assumes "length xs < 2 ^ 64" "0 < min_len"
  shows "r_seq min_len parse (reader_at t pre (seq_img img xs @ zs)) =
    Inr (xs, reader_at t (pre @ seq_img img xs) zs)"
proof -
  have "max min_len 1 = min_len"
    using assms(2) by auto
  with length_concat_img [of xs] have "length xs * max min_len 1 \<le> length (concat (map img xs) @ zs)"
    by simp
  with assms(1) show ?thesis
    by (simp add: r_seq_def seq_img_def r_len_of_at read_times)
qed

lemma read_opt:
  "r_opt parse (reader_at t pre (opt_img img v @ zs)) = Inr (v, reader_at t (pre @ opt_img img v) zs)"
  by (cases v) (simp_all add: r_opt_def opt_img_def codec_simps read_img)

end

interpretation u8c: codec w_u8 r_u8 "\<lambda>v. [v]" 1
  by unfold_locales (simp_all add: codec_simps)

interpretation u16c: codec w_u16 r_u16 "le_bytes 2" 2
  by unfold_locales (simp_all add: codec_simps)

interpretation u32c: codec w_u32 r_u32 "le_bytes 4" 4
  by unfold_locales (simp_all add: codec_simps)

interpretation u64c: codec w_u64 r_u64 "le_bytes 8" 8
  by unfold_locales (simp_all add: codec_simps)

interpretation u128c: codec w_u128 r_u128 "le_bytes 16" 16
  by unfold_locales (simp_all add: codec_simps)

interpretation boolc: codec w_bool r_bool "\<lambda>v. [if v then 1 else 0]" 1
  by unfold_locales (simp_all add: codec_simps)

lemma r_bytes_at [codec_simps]:
  assumes "length b < 2 ^ 64"
  shows "r_bytes (reader_at t pre (le_bytes 8 (of_nat (length b) :: u64) @ b @ xs)) =
    Inr (b, reader_at t (pre @ le_bytes 8 (of_nat (length b) :: u64) @ b) xs)"
  using assms by (simp add: r_bytes_def codec_simps)

lemma r_vec_at [codec_simps]:
  assumes "length b < 2 ^ 64"
  shows "r_vec (reader_at t pre (le_bytes 8 (of_nat (length b) :: u64) @ b @ xs)) =
    Inr (b, reader_at t (pre @ le_bytes 8 (of_nat (length b) :: u64) @ b) xs)"
  using assms by (simp add: r_vec_def codec_simps)

subsection \<open>The interface of a saved state: the trait Snapshot\<close>

text \<open>
  \<open>img s\<close> are the bytes \<open>save\<close> appends, \<open>fits s0 s\<close> says that \<open>s0\<close> was built with the
  configuration of \<open>s\<close> (and that \<open>s\<close> is a state the format can hold), \<open>restored s0 s\<close> is the
  state \<open>restore\<close> reaches. The last law is the contract written at the trait: after
  \<open>restore\<close>, \<open>save\<close> gives the same bytes again.
\<close>

locale snapshot =
  fixes save :: "'s \<Rightarrow> writer \<Rightarrow> writer"
    and restore :: "'s \<Rightarrow> reader \<Rightarrow> snap_error + 's \<times> reader"
    and img :: "'s \<Rightarrow> bytes"
    and fits :: "'s \<Rightarrow> 's \<Rightarrow> bool"
    and restored :: "'s \<Rightarrow> 's \<Rightarrow> 's"
  assumes save_img: "save s w = w_raw (img s) w"
    and restore_img: "fits s0 s \<Longrightarrow>
      restore s0 (reader_at t pre (img s @ xs)) = Inr (restored s0 s, reader_at t (pre @ img s) xs)"
    and img_restored: "fits s0 s \<Longrightarrow> img (restored s0 s) = img s"
begin

lemma save_restore:
  assumes "fits s0 s"
  shows "restore s0 (r_new (wbuf (save s w_new))) =
    Inr (restored s0 s, reader_at [32, 32, 32, 32] (img s) [])"
  using restore_img [OF assms, of "[32, 32, 32, 32]" "[]" "[]"]
  by (simp add: save_img r_new_at w_raw_def w_new_def)

lemma save_again:
  assumes "fits s0 s"
  shows "save (restored s0 s) w = save s w"
  by (simp add: save_img img_restored [OF assms])

lemma save_section:
  assumes "wmarks w = None"
  shows "w_section tag (save s) w = w_raw (section_img tag (img s)) w"
  using assms by (rule w_section_raw) (rule save_img)

lemma restore_section:
  assumes "fits s0 s" "length tag = 4" "length (img s) < 2 ^ 64"
  shows "rbind (r_section tag (reader_at t pre (section_img tag (img s) @ xs)))
      (\<lambda>(sec, r). rbind (restore s0 sec) (\<lambda>(s', sec'). rbind (r_finish sec') (\<lambda>_. Inr (s', r)))) =
    Inr (restored s0 s, reader_at t (pre @ section_img tag (img s)) xs)"
  using assms(2,3) restore_img [OF assms(1), of tag "[]" "[]"]
  by (simp add: section_img_def codec_simps)

end

subsection \<open>Checksum in pieces\<close>

lemma hash_chunks_append:
  "hash_chunks h (d @ x) = (let (h', rest) = hash_chunks h d in hash_chunks h' (rest @ x))"
proof (induction h d rule: hash_chunks.induct)
  case (1 h d)
  show ?case
  proof (cases "length d < 8")
    case True
    then show ?thesis by (simp add: hash_chunks.simps [of h d])
  next
    case False
    then have "hash_chunks h (d @ x) = hash_chunks (hash_word h (take 8 d)) (drop 8 d @ x)"
      by (subst hash_chunks.simps) simp
    with False "1.IH" show ?thesis by (simp add: hash_chunks.simps [of h d])
  qed
qed

lemma hash_chunks_rest: "length (snd (hash_chunks h d)) < 8"
proof (induction h d rule: hash_chunks.induct)
  case (1 h d)
  then show ?case by (cases "length d < 8") (simp_all add: hash_chunks.simps [of h d])
qed

text \<open>The incremental state after the bytes \<open>d\<close>.\<close>

definition hs_rel :: "u64 \<Rightarrow> bytes \<Rightarrow> hash_state \<Rightarrow> bool" where
  "hs_rel h0 d s \<longleftrightarrow> hs_n s < 8 \<and> length (hs_carry s) = 8
     \<and> hash_chunks h0 d = (hs_h s, take (hs_n s) (hs_carry s))"

lemma hs_words_rel:
  assumes "length (hs_carry s) = 8" "hash_chunks h0 (d @ x) = hash_chunks (hs_h s) x"
  shows "hs_rel h0 (d @ x) (hs_words x s)"
proof -
  obtain h rest where hc: "hash_chunks (hs_h s) x = (h, rest)" by (cases "hash_chunks (hs_h s) x")
  with hash_chunks_rest [of "hs_h s" x] have "length rest < 8" by simp
  with assms hc show ?thesis by (simp add: hs_rel_def hs_words_def patch_def)
qed

lemma hs_update_cases:
  assumes "hs_n s < 8" "length (hs_carry s) = 8"
  shows "hs_n s = 0 \<Longrightarrow> hs_update x s = hs_words x s"
    and "0 < hs_n s \<Longrightarrow> hs_n s + length x < 8 \<Longrightarrow>
      hs_update x s = s\<lparr>hs_carry := take (hs_n s) (hs_carry s) @ x @ drop (hs_n s + length x) (hs_carry s),
        hs_n := hs_n s + length x\<rparr>"
    and "0 < hs_n s \<Longrightarrow> 8 \<le> hs_n s + length x \<Longrightarrow> k = 8 - hs_n s \<Longrightarrow>
      c = take (hs_n s) (hs_carry s) @ take k x \<Longrightarrow>
      hs_update x s = hs_words (drop k x) (s\<lparr>hs_carry := c, hs_h := hash_word (hs_h s) c, hs_n := 0\<rparr>)"
proof -
  show "hs_n s = 0 \<Longrightarrow> hs_update x s = hs_words x s"
    by (simp add: hs_update_def)
  show "0 < hs_n s \<Longrightarrow> hs_n s + length x < 8 \<Longrightarrow>
      hs_update x s = s\<lparr>hs_carry := take (hs_n s) (hs_carry s) @ x @ drop (hs_n s + length x) (hs_carry s),
        hs_n := hs_n s + length x\<rparr>"
    by (simp add: hs_update_def patch_def Let_def)
  assume a: "0 < hs_n s" "8 \<le> hs_n s + length x" and k: "k = 8 - hs_n s"
    and c: "c = take (hs_n s) (hs_carry s) @ take k x"
  have "min (8 - hs_n s) (length x) = k" using a k by simp
  moreover have "patch (hs_n s) (take k x) (hs_carry s) = c"
    using a k c assms by (simp add: patch_def)
  ultimately show "hs_update x s =
      hs_words (drop k x) (s\<lparr>hs_carry := c, hs_h := hash_word (hs_h s) c, hs_n := 0\<rparr>)"
    using a k assms(1) by (simp add: hs_update_def Let_def)
qed

lemma hs_update_rel:
  assumes "hs_rel h0 d s"
  shows "hs_rel h0 (d @ x) (hs_update x s)"
proof -
  define r where "r = take (hs_n s) (hs_carry s)"
  have n: "hs_n s < 8" "length (hs_carry s) = 8" and d: "hash_chunks h0 d = (hs_h s, r)"
    using assms by (auto simp: hs_rel_def r_def)
  have r: "length r = hs_n s" using n by (simp add: r_def)
  have app: "hash_chunks h0 (d @ x) = hash_chunks (hs_h s) (r @ x)"
    by (subst hash_chunks_append) (simp add: d)
  consider "hs_n s = 0" | "0 < hs_n s" "hs_n s + length x < 8" | "0 < hs_n s" "8 \<le> hs_n s + length x"
    by linarith
  then show ?thesis
  proof cases
    case 1
    with r app have "hash_chunks h0 (d @ x) = hash_chunks (hs_h s) x" by simp
    with hs_words_rel [OF n(2)] 1 show ?thesis by (simp add: hs_update_cases(1) [OF n])
  next
    case 2
    then have "hash_chunks h0 (d @ x) = (hs_h s, r @ x)"
      using r app by (simp add: hash_chunks.simps [of "hs_h s" "r @ x"])
    with 2 n r show ?thesis
      by (simp add: hs_update_cases(2) [OF n 2] hs_rel_def r_def)
  next
    case 3
    define k where "k = 8 - hs_n s"
    define c where "c = r @ take k x"
    have c8: "length c = 8" using r 3 n by (simp add: c_def k_def)
    have "r @ x = c @ drop k x" by (simp add: c_def)
    then have "hash_chunks h0 (d @ x) = hash_chunks (hash_word (hs_h s) c) (drop k x)"
      using app c8 by (simp add: hash_chunks.simps [of "hs_h s" "c @ drop k x"])
    then have "hs_rel h0 ((d @ take k x) @ drop k x)
        (hs_words (drop k x) (s\<lparr>hs_carry := c, hs_h := hash_word (hs_h s) c, hs_n := 0\<rparr>))"
      by (intro hs_words_rel) (simp_all add: c8)
    then show ?thesis
      by (simp add: hs_update_cases(3) [OF n 3 k_def c_def [unfolded r_def]])
  qed
qed

lemma hs_fold_rel:
  "hs_rel h0 d s \<Longrightarrow> hs_rel h0 (d @ concat cs) (fold hs_update cs s)"
proof (induction cs arbitrary: d s)
  case Nil
  then show ?case by simp
next
  case (Cons c cs)
  from Cons.IH [OF hs_update_rel [OF Cons.prems, of c]] show ?case by simp
qed

text \<open>
  C19. The incremental checksum: feeding the data in pieces of any size to \<^verbatim>\<open>Hash64::update\<close> and
  then calling \<^verbatim>\<open>Hash64::finish\<close> gives \<^verbatim>\<open>hash64\<close> of the whole data.
\<close>

theorem hash64_incremental:
  "hs_finish (fold hs_update cs (hs_new (of_nat (length (concat cs))))) = hash64 (concat cs)"
proof -
  let ?h0 = "hash_seed XOR of_nat (length (concat cs))"
  have "hs_rel ?h0 [] (hs_new (of_nat (length (concat cs))))"
    by (simp add: hs_rel_def hs_new_def hash_chunks.simps)
  from hs_fold_rel [OF this, of cs] show ?thesis
    by (simp add: hs_rel_def hs_finish_def hash64_def)
qed

subsection \<open>Container\<close>

lemma decode_container_encode:
  assumes "length magic = 8" "length p < 2 ^ 64"
  shows "decode_container magic v (encode_container magic v ch p) =
    Inr (\<lparr>h_version = v, h_config_hash = ch\<rparr>, p)"
  using assms
  by (simp add: decode_container_def encode_container_def r_new_at codec_simps unat_of_nat)
    (simp add: r_raw_at)

lemma r_raw_Inr:
  "r_raw n r = Inr (b, r') \<longleftrightarrow>
    n \<le> remaining r \<and> b = take n (drop (rpos r) (rbuf r)) \<and> r' = r\<lparr>rpos := rpos r + n\<rparr>"
  by (auto simp: r_raw_def not_less)

lemma r_le_at_Inr:
  "r_u32 (reader_at t pre xs) = Inr (v, r') \<longleftrightarrow>
     (\<exists>ys. xs = le_bytes 4 v @ ys \<and> r' = reader_at t (pre @ le_bytes 4 v) ys)"
  "r_u64 (reader_at t pre xs) = Inr (w, r') \<longleftrightarrow>
     (\<exists>ys. xs = le_bytes 8 w @ ys \<and> r' = reader_at t (pre @ le_bytes 8 w) ys)"
proof -
  show "r_u32 (reader_at t pre xs) = Inr (v, r') \<longleftrightarrow>
     (\<exists>ys. xs = le_bytes 4 v @ ys \<and> r' = reader_at t (pre @ le_bytes 4 v) ys)" (is "?L \<longleftrightarrow> ?R")
  proof
    assume ?L
    then have "4 \<le> length xs" "v = of_le (take 4 xs)"
      and r': "r' = reader_at t (pre @ take 4 xs) (drop 4 xs)"
      by (auto simp: r_u32_def r_raw_at split: if_splits)
    then have "le_bytes 4 v = take 4 xs" by (simp add: le_bytes_of_le)
    with r' show ?R by (metis append_take_drop_id)
  qed (auto simp: codec_simps)
  show "r_u64 (reader_at t pre xs) = Inr (w, r') \<longleftrightarrow>
     (\<exists>ys. xs = le_bytes 8 w @ ys \<and> r' = reader_at t (pre @ le_bytes 8 w) ys)" (is "?L \<longleftrightarrow> ?R")
  proof
    assume ?L
    then have "8 \<le> length xs" "w = of_le (take 8 xs)"
      and r': "r' = reader_at t (pre @ take 8 xs) (drop 8 xs)"
      by (auto simp: r_u64_def r_raw_at split: if_splits)
    then have "le_bytes 8 w = take 8 xs" by (simp add: le_bytes_of_le)
    with r' show ?R by (metis append_take_drop_id)
  qed (auto simp: codec_simps)
qed

lemma rbind_le_at_Inr:
  "rbind (r_u32 (reader_at t pre xs)) f = Inr y \<longleftrightarrow>
     (\<exists>v ys. xs = le_bytes 4 v @ ys \<and> f (v, reader_at t (pre @ le_bytes 4 v) ys) = Inr y)"
  "rbind (r_u64 (reader_at t pre xs)) g = Inr y \<longleftrightarrow>
     (\<exists>w ys. xs = le_bytes 8 w @ ys \<and> g (w, reader_at t (pre @ le_bytes 8 w) ys) = Inr y)"
  by (auto simp: rbind_Inr_iff r_le_at_Inr)

lemma decode_container_only:
  assumes "length b < 2 ^ 64" "decode_container magic v b = Inr (h, p)"
  shows "h_version h = v \<and> b = encode_container magic v (h_config_hash h) p"
proof -
  have m: "take 8 b = magic"
    using assms(2) by (auto simp: decode_container_def split: if_splits)
  obtain ch ys where ys: "drop 8 b = le_bytes 4 v @ le_bytes 8 ch @
       le_bytes 8 (of_nat (length ys) :: u64) @ le_bytes 8 (hash64 p) @ ys"
    and h: "h = \<lparr>h_version = v, h_config_hash = ch\<rparr>"
    and p: "p = take (unat (of_nat (length ys) :: u64)) ys"
    using assms(2) unfolding decode_container_def r_new_at
    by (auto simp: rbind_le_at_Inr r_raw_at split: if_splits)
  have "length (drop 8 b) = 28 + length ys" by (subst ys) simp
  with assms(1) have "length ys < 2 ^ 64" by simp
  with p have "p = ys" by (simp add: unat_of_nat)
  with ys h m append_take_drop_id [of 8 b] show ?thesis
    by (simp add: encode_container_def)
qed

text \<open>
  C4. Snapshot files: \<^verbatim>\<open>decode_container\<close> accepts a file exactly when it is the encoding, with
  this magic and version, of the payload it returns and of the configuration hash in the
  header it returns; nothing else is accepted.
\<close>

theorem decode_container_iff:
  assumes "length magic = 8" "length b < 2 ^ 64" "length p < 2 ^ 64"
  shows "decode_container magic v b = Inr (h, p) \<longleftrightarrow>
    h_version h = v \<and> b = encode_container magic v (h_config_hash h) p"
proof
  assume "decode_container magic v b = Inr (h, p)"
  with assms(2) show "h_version h = v \<and> b = encode_container magic v (h_config_hash h) p"
    by (rule decode_container_only)
next
  assume "h_version h = v \<and> b = encode_container magic v (h_config_hash h) p"
  with decode_container_encode [OF assms(1,3), of v "h_config_hash h"]
  show "decode_container magic v b = Inr (h, p)" by (cases h) simp
qed

theorem decode_container_iff_witness:
  "decode_container snap_magic 4 (encode_container snap_magic 4 7 [1, 2, 3]) =
    Inr (\<lparr>h_version = 4, h_config_hash = 7\<rparr>, [1, 2, 3])"
proof -
  have "length snap_magic = 8" by (simp add: snap_magic_def)
  moreover from this have "length (encode_container snap_magic 4 7 [1, 2, 3]) < 2 ^ 64"
    by (simp add: encode_container_def)
  ultimately show ?thesis
    by (subst decode_container_iff) simp_all
qed

subsection \<open>Zero blocks\<close>

lemma of_le_zero_iff:
  assumes "8 * length bs \<le> LENGTH('a::len)"
  shows "(of_le bs :: 'a word) = 0 \<longleftrightarrow> (\<forall>x \<in> set bs. x = 0)"
proof
  assume z: "(of_le bs :: 'a word) = 0"
  have "le_bytes n (0 :: 'a word) = replicate n 0" for n
    by (induction n) simp_all
  with z le_bytes_of_le [OF refl assms] have "bs = replicate (length bs) 0" by simp
  then show "\<forall>x \<in> set bs. x = 0" by (metis in_set_replicate)
next
  assume "\<forall>x \<in> set bs. x = 0"
  then show "(of_le bs :: 'a word) = 0" by (induction bs) simp_all
qed

lemma or_words_zero:
  "(fst (or_words acc b) = 0 \<and> (\<forall>x \<in> set (snd (or_words acc b)). x = 0)) \<longleftrightarrow>
    acc = 0 \<and> (\<forall>x \<in> set b. x = 0)"
proof (induction acc b rule: or_words.induct)
  case (1 acc b)
  show ?case
  proof (cases "length b < 8")
    case True
    then show ?thesis by (simp add: or_words.simps [of acc b])
  next
    case False
    have "(acc OR of_le (take 8 b) = 0) \<longleftrightarrow> acc = 0 \<and> (\<forall>x \<in> set (take 8 b). x = 0)"
      using False by (simp add: or_eq_0_iff of_le_zero_iff)
    moreover have "set b = set (take 8 b) \<union> set (drop 8 b)"
      by (metis append_take_drop_id set_append)
    ultimately show ?thesis
      using False "1.IH" by (simp add: or_words.simps [of acc b] ball_Un conj_assoc)
  qed
qed

text \<open>
  \<^verbatim>\<open>is_zero\<close>, which reads eight bytes at a time, is true exactly of the blocks whose bytes
  are all zero.
\<close>

theorem is_zero_iff: "is_zero b = (b = replicate (length b) 0)"
proof -
  have "is_zero b \<longleftrightarrow> (\<forall>x \<in> set b. x = 0)"
    using or_words_zero [of 0 b] by (simp add: is_zero_def case_prod_beta)
  also have "\<dots> \<longleftrightarrow> b = replicate (length b) 0"
    by (simp add: list_eq_iff_nth_eq all_set_conv_all_nth)
  finally show ?thesis by simp
qed

end
