(* ===== verification/Lz.thy ===== *)
theory Lz
  imports Snapshot
begin

text \<open>
  The block compressor \<^verbatim>\<open>crates/vetro-snapshot/src/lz.rs\<close>: LEB128 integers, the hash table that
  is reused from block to block, the greedy compressor and the decompressor. A
  \<^verbatim>\<open>&mut Vec<u8>\<close> is passed and returned; positions are \<open>nat\<close>, the table's entries and its base
  are 32-bit words as in the source. The decompressor writes into a destination of fixed
  length, as the source does.
\<close>

subsection \<open>Model\<close>

definition min_match :: nat where "min_match = 4"

definition hash_bits :: nat where "hash_bits = 12"

record table =
  slots :: "u32 list"
  tbase :: u32

definition table_new :: table where
  "table_new = \<lparr>slots = replicate (2 ^ hash_bits) 0, tbase = 1\<rparr>"

definition table_start :: "nat \<Rightarrow> table \<Rightarrow> u32 \<times> table" where
  "table_start len t =
    (let next = unat (tbase t) + len + 1;
         t1 = (if 2 ^ 32 - 1 \<le> next
               then t\<lparr>slots := replicate (length (slots t)) 0, tbase := 1\<rparr> else t)
     in (tbase t1, t1\<lparr>tbase := tbase t1 + of_nat len + 1\<rparr>))"

definition lz_hash :: "u32 \<Rightarrow> nat" where
  "lz_hash v = unat (drop_bit (32 - hash_bits) (v * 0x9e3779b1))"

function put_varint :: "u64 \<Rightarrow> bytes" where
  "put_varint v = (if 0x80 \<le> v then (ucast v OR 0x80) # put_varint (drop_bit 7 v) else [ucast v])"
  by pat_completeness auto
termination
proof (relation "measure unat", simp)
  fix v :: u64
  assume "0x80 \<le> v"
  then have "128 \<le> unat v" by (simp add: word_le_nat_alt)
  then have "unat v div 128 < unat v" by simp
  then show "(drop_bit 7 v, v) \<in> measure unat" by (simp add: drop_bit_eq_div unat_div)
qed

declare put_varint.simps [simp del]

text \<open>The loop over \<^verbatim>\<open>(0..64).step_by(7)\<close>: the value, and the position after it.\<close>

function get_varint_from :: "bytes \<Rightarrow> nat \<Rightarrow> nat \<Rightarrow> u64 \<Rightarrow> snap_error + u64 \<times> nat" where
  "get_varint_from src pos shift v =
    (if 64 \<le> shift then Inl (Invalid ''LEB128 integer too long'')
     else if length src \<le> pos then Inl Truncated
     else let b = src ! pos; v' = v OR push_bit shift (ucast (b AND 0x7f))
       in if b AND 0x80 = 0 then Inr (v', pos + 1)
          else get_varint_from src (pos + 1) (shift + 7) v')"
  by pat_completeness auto
termination
  by (relation "measure (\<lambda>(src, pos, shift, v). 64 - shift)") auto

declare get_varint_from.simps [simp del]

definition get_varint :: "bytes \<Rightarrow> nat \<Rightarrow> snap_error + u64 \<times> nat" where
  "get_varint src pos = get_varint_from src pos 0 0"

definition literals :: "bytes \<Rightarrow> bytes" where
  "literals lit = (if lit = [] then [] else put_varint (push_bit 1 (of_nat (length lit))) @ lit)"

definition word_at :: "bytes \<Rightarrow> nat \<Rightarrow> u32" where
  "word_at b i = of_le (take 4 (drop i b))"

text \<open>The inner loop that extends a match.\<close>

function match_len :: "bytes \<Rightarrow> nat \<Rightarrow> nat \<Rightarrow> nat \<Rightarrow> nat" where
  "match_len src c i len =
    (if i + len < length src \<and> src ! (c + len) = src ! (i + len)
     then match_len src c i (len + 1) else len)"
  by pat_completeness auto
termination
  by (relation "measure (\<lambda>(src, c, i, len). length src - (i + len))") auto

declare match_len.simps [simp del]

text \<open>What the loop does at position \<open>i\<close>: the candidate it would copy from, if it matches.\<close>

definition candidate :: "bytes \<Rightarrow> u32 \<Rightarrow> nat \<Rightarrow> u32 \<Rightarrow> nat option" where
  "candidate src base i cand =
    (if base \<le> cand \<and> unat (cand - base) < i \<and> word_at src (unat (cand - base)) = word_at src i
     then Some (unat (cand - base)) else None)"

lemma match_len_ge: "len \<le> match_len src c i len"
proof (induction src c i len rule: match_len.induct)
  case (1 src c i len)
  then show ?case by (subst match_len.simps) auto
qed

lemma match_len_progress:
  "i + 4 \<le> length src \<Longrightarrow> length src + 4 - (i + match_len src c i 4) < length src + 4 - i"
  using match_len_ge [of 4 src c i] by linarith

function lz_loop :: "bytes \<Rightarrow> u32 \<Rightarrow> nat \<Rightarrow> nat \<Rightarrow> bytes \<Rightarrow> u32 list \<Rightarrow> nat \<times> bytes \<times> u32 list" where
  "lz_loop src base lit_start i out sl =
    (if length src < i + min_match then (lit_start, out, sl)
     else let h = lz_hash (word_at src i); cand = sl ! h; sl' = sl[h := base + of_nat i]
       in case candidate src base i cand of
            Some c \<Rightarrow>
              let len = match_len src c i min_match
              in lz_loop src base (i + len) (i + len)
                   (out @ literals (take (i - lit_start) (drop lit_start src)) @
                    put_varint (push_bit 1 (of_nat (len - min_match)) OR 1) @
                    put_varint (of_nat (i - c))) sl'
          | None \<Rightarrow> lz_loop src base lit_start (i + 1) out sl')"
  by pat_completeness auto
termination
  by (relation "measure (\<lambda>(src, base, lit_start, i, out, sl). length src + min_match - i)")
    (auto simp: min_match_def not_less intro: match_len_progress)

declare lz_loop.simps [simp del]

definition lz_compress :: "bytes \<Rightarrow> bytes \<Rightarrow> table \<Rightarrow> bytes \<times> table" where
  "lz_compress src out t =
    (let (base, t1) = table_start (length src) t;
         (lit_start, out', sl) = lz_loop src base 0 0 out (slots t1)
     in (out' @ literals (drop lit_start src), t1\<lparr>slots := sl\<rparr>))"

text \<open>\<^verbatim>\<open>dst[o + k] = dst[o + k - d]\<close> for \<open>k\<close> from 0, byte by byte.\<close>

fun copy_bytes :: "nat \<Rightarrow> nat \<Rightarrow> nat \<Rightarrow> bytes \<Rightarrow> bytes" where
  "copy_bytes d at 0 dst = dst"
| "copy_bytes d at (Suc n) dst = copy_bytes d (at + 1) n (dst[at := dst ! (at - d)])"

definition copy_within :: "nat \<Rightarrow> nat \<Rightarrow> nat \<Rightarrow> bytes \<Rightarrow> bytes" where
  "copy_within from n to dst = patch to (take n (drop from dst)) dst"

definition lz_bad :: "string \<Rightarrow> snap_error" where
  "lz_bad what = Invalid (''compressed block: '' @ what)"

definition saturating_add64 :: "u64 \<Rightarrow> u64 \<Rightarrow> u64" where
  "saturating_add64 a b = (if unat a + unat b < 2 ^ 64 then a + b else - 1)"

lemma get_varint_from_pos: "get_varint_from src pos sh v = Inr (w, p) \<Longrightarrow> pos < p"
proof (induction src pos sh v rule: get_varint_from.induct)
  case (1 src pos sh v)
  note IH = "1.IH" [OF _ _ refl refl]
  from "1.prems" show ?case
    by (subst (asm) get_varint_from.simps) (auto simp: Let_def split: if_splits dest: IH)
qed

lemma get_varint_pos: "get_varint src pos = Inr (w, p) \<Longrightarrow> pos < p"
  by (simp add: get_varint_def get_varint_from_pos)

function lz_decompress_from :: "bytes \<Rightarrow> nat \<Rightarrow> nat \<Rightarrow> bytes \<Rightarrow> snap_error + bytes" where
  "lz_decompress_from src p ofs dst =
    (if length src \<le> p then
       if ofs \<noteq> length dst then Inl (lz_bad ''shorter than expected'') else Inr dst
     else rbind (get_varint src p) (\<lambda>(t, p1).
       if t AND 1 = 0 then
         let len = unat (drop_bit 1 t)
         in if len = 0 \<or> length dst - ofs < len \<or> length src - p1 < len
            then Inl (lz_bad ''literals past the block'')
            else lz_decompress_from src (p1 + len) (ofs + len) (patch ofs (take len (drop p1 src)) dst)
       else
         let len = saturating_add64 (drop_bit 1 t) (of_nat min_match)
         in rbind (get_varint src p1) (\<lambda>(d, p2).
           if d = 0 \<or> ofs < unat d \<or> length dst - ofs < unat len
           then Inl (lz_bad ''copy outside the block'')
           else lz_decompress_from src p2 (ofs + unat len)
             (if unat len \<le> unat d then copy_within (ofs - unat d) (unat len) ofs dst
              else copy_bytes (unat d) ofs (unat len) dst))))"
  by pat_completeness auto
termination
  by (relation "measure (\<lambda>(src, p, ofs, dst). length src - p)") (auto dest!: get_varint_pos)

declare lz_decompress_from.simps [simp del]

definition lz_decompress :: "bytes \<Rightarrow> bytes \<Rightarrow> snap_error + bytes" where
  "lz_decompress src dst = lz_decompress_from src 0 0 dst"

subsection \<open>LEB128 integers\<close>

lemma byte_masks: "(0x80 :: u8) = push_bit 7 1" "(b :: u8) AND 0x7f = take_bit 7 b"
  by (simp_all add: take_bit_eq_mask mask_eq_exp_minus_1)

lemma varint_byte_more:
  fixes w :: u64
  shows "(ucast w OR 0x80 :: u8) AND 0x80 \<noteq> 0"
    and "push_bit s (ucast ((ucast w OR 0x80 :: u8) AND 0x7f)) OR push_bit (s + 7) (drop_bit 7 w) =
      push_bit s w"
proof -
  show "(ucast w OR 0x80 :: u8) AND 0x80 \<noteq> 0"
    by (simp only: byte_masks word_ne_zero_test) (simp add: bit_simps)
  have b: "bit (push_bit s (ucast (take_bit 7 (ucast w OR push_bit 7 1 :: u8))) OR
      push_bit (s + 7) (drop_bit 7 w)) n = bit (push_bit s w) n" if "n < 64" for n
    using that by (cases "n < s + 7") (auto simp: bit_simps not_le not_less)
  show "push_bit s (ucast ((ucast w OR 0x80 :: u8) AND 0x7f)) OR push_bit (s + 7) (drop_bit 7 w) =
      push_bit s w"
    unfolding byte_masks by (rule bit_word_eqI) (rule b, simp)
qed

lemma varint_byte_last:
  fixes w :: u64
  assumes "\<not> 0x80 \<le> w"
  shows "(ucast w :: u8) AND 0x80 = 0" and "ucast ((ucast w :: u8) AND 0x7f) = w"
proof -
  have nb: "\<not> bit w n" if "7 \<le> n" for n
    using assms that by (intro word_small_no_bit [of w 7]) (simp_all add: word_le_nat_alt)
  have "\<not> bit (ucast w :: u8) 7" using nb by (simp add: bit_simps)
  then show "(ucast w :: u8) AND 0x80 = 0"
    unfolding byte_masks(1) using word_ne_zero_test [of "ucast w :: u8" 7] by blast
  have "bit (ucast (take_bit 7 (ucast w :: u8)) :: u64) n = bit w n" for n
    using nb [of n] by (cases "n < 7") (auto simp: bit_simps)
  then show "ucast ((ucast w :: u8) AND 0x7f) = w"
    unfolding byte_masks by (intro bit_word_eqI)
qed

lemma get_varint_from_put:
  "s < 64 \<Longrightarrow> unat w < 2 ^ (64 - s) \<Longrightarrow>
   get_varint_from (pre @ put_varint w @ rest) (length pre) s acc =
     Inr (acc OR push_bit s w, length pre + length (put_varint w))"
proof (induction w arbitrary: pre s acc rule: put_varint.induct)
  case (1 w)
  show ?case
  proof (cases "0x80 \<le> w")
    case False
    define b :: u8 where "b = ucast w"
    have put: "put_varint w = [b]"
      using False by (subst put_varint.simps) (simp add: b_def)
    have b: "b AND 0x80 = 0" "ucast (b AND 0x7f) = w"
      unfolding b_def by (rule varint_byte_last [OF False])+
    show ?thesis
      using "1.prems"(1) b(1)
      by (subst get_varint_from.simps) (simp add: put nth_append Let_def b(2))
  next
    case True
    define b :: u8 where "b = ucast w OR 0x80"
    define v where "v = acc OR push_bit s (ucast (b AND 0x7f))"
    have put: "put_varint w = b # put_varint (drop_bit 7 w)"
      using True by (subst put_varint.simps) (simp add: b_def)
    have "128 \<le> unat w" using True by (simp add: word_le_nat_alt)
    with "1.prems"(2) have "(2::nat) ^ 7 < 2 ^ (64 - s)" by simp
    then have "7 < 64 - s" by (rule power_less_imp_less_exp [rotated]) simp
    then have s: "s + 7 < 64" and "64 - s = 7 + (64 - (s + 7))" by simp_all
    then have "2 ^ (64 - s) = (2::nat) ^ 7 * 2 ^ (64 - (s + 7))"
      by (metis power_add)
    with "1.prems"(2) have "unat w < 2 ^ (64 - (s + 7)) * 2 ^ 7" by (simp only: mult.commute)
    then have lt: "unat (drop_bit 7 w) < 2 ^ (64 - (s + 7))"
      by (simp only: drop_bit_eq_div unat_div) (simp add: less_mult_imp_div_less)
    have "get_varint_from (pre @ put_varint w @ rest) (length pre) s acc =
        get_varint_from (pre @ put_varint w @ rest) (length pre + 1) (s + 7) v"
      using "1.prems"(1) varint_byte_more(1) [of w]
      by (subst get_varint_from.simps) (simp add: put nth_append Let_def b_def [symmetric] v_def)
    also have "\<dots> = Inr (v OR push_bit (s + 7) (drop_bit 7 w), length pre + length (put_varint w))"
      using "1.IH" [OF True s lt, of "pre @ [b]" v] by (simp add: put)
    also have "v OR push_bit (s + 7) (drop_bit 7 w) = acc OR push_bit s w"
      unfolding v_def b_def or.assoc varint_byte_more(2) ..
    finally show ?thesis .
  qed
qed

lemma get_varint_at [simp]:
  "get_varint (pre @ put_varint v @ rest) (length pre) = Inr (v, length pre + length (put_varint v))"
  using get_varint_from_put [of 0 v pre rest 0] unsigned_less [of v, where 'a = nat]
  by (simp add: get_varint_def)

lemma get_varint_after:
  "p = length pre + length mid \<Longrightarrow>
   get_varint (pre @ mid @ put_varint v @ rest) p = Inr (v, p + length (put_varint v))"
  using get_varint_at [of "pre @ mid" v rest] by simp

subsection \<open>The compressed block decodes to its source\<close>

text \<open>The destination agrees with the source up to \<open>k\<close>.\<close>

definition agree :: "nat \<Rightarrow> bytes \<Rightarrow> bytes \<Rightarrow> bool" where
  "agree k dst src \<longleftrightarrow> length dst = length src \<and> take k dst = take k src"

lemma agree_patch:
  assumes "agree k dst src" "k + length b \<le> length src" "take (length b) (drop k src) = b"
  shows "agree (k + length b) (patch k b dst) src"
  using assms by (auto simp: agree_def patch_def take_add)

lemma agree_copy_bytes:
  assumes "agree k dst src" "k + n \<le> length src" "1 \<le> d" "d \<le> k"
    "\<forall>j<n. src ! (k + j - d) = src ! (k + j)"
  shows "agree (k + n) (copy_bytes d k n dst) src"
  using assms
proof (induction n arbitrary: k dst)
  case 0
  then show ?case by simp
next
  case (Suc n)
  have "dst ! (k - d) = take k dst ! (k - d)" using Suc.prems by simp
  also have "\<dots> = src ! (k - d)" using Suc.prems by (simp add: agree_def)
  also have "\<dots> = src ! k" using Suc.prems(5) by (metis add.right_neutral zero_less_Suc)
  finally have "agree (k + 1) (dst[k := dst ! (k - d)]) src"
    using Suc.prems by (simp add: agree_def take_Suc_conv_app_nth)
  moreover have "src ! (k + 1 + j - d) = src ! (k + 1 + j)" if "j < n" for j
    using Suc.prems(5) that by (metis Suc_less_eq add.assoc plus_1_eq_Suc)
  ultimately show ?case using Suc.IH [of "k + 1" "dst[k := dst ! (k - d)]"] Suc.prems by simp
qed

lemma agree_copy_within:
  assumes "agree k dst src" "k + n \<le> length src" "n \<le> d" "d \<le> k"
    "\<forall>j<n. src ! (k + j - d) = src ! (k + j)"
  shows "agree (k + n) (copy_within (k - d) n k dst) src"
proof -
  have "take n (drop (k - d) dst) = take n (drop (k - d) src)"
  proof -
    have "drop (k - d) (take k dst) = drop (k - d) (take k src)"
      using assms(1) by (simp add: agree_def)
    then have "take n (take d (drop (k - d) dst)) = take n (take d (drop (k - d) src))"
      using assms(4) by (simp add: drop_take)
    then show ?thesis using assms(3) by simp
  qed
  also have "\<dots> = take n (drop k src)"
    using assms(2,4,5) by (intro nth_equalityI) auto
  finally have "copy_within (k - d) n k dst = patch k (take n (drop k src)) dst"
    by (simp add: copy_within_def)
  then show ?thesis using agree_patch [of k dst src "take n (drop k src)"] assms by simp
qed

text \<open>One token of either kind.\<close>

lemma tag_bit_test: "((w :: u64) AND 1 = 0) = even w"
  by (simp add: and_one_eq even_iff_mod_2_eq_zero)

lemma tag_bits:
  fixes x :: u64
  assumes "unat x < 2 ^ 63"
  shows "push_bit 1 x AND 1 = 0" "drop_bit 1 (push_bit 1 x) = x"
    "(push_bit 1 x OR 1) AND 1 \<noteq> 0" "drop_bit 1 (push_bit 1 x OR 1) = x"
proof -
  have nb: "n < 63" if "bit x n" for n
    using assms that word_small_no_bit [of x 63 n] by linarith
  show "push_bit 1 x AND 1 = 0" "(push_bit 1 x OR 1) AND 1 \<noteq> 0"
    unfolding tag_bit_test by (simp_all add: even_or_iff)
  have b: "bit (drop_bit 1 (push_bit 1 x)) n = bit x n" for n
    using nb [of n] by (simp only: bit_drop_bit_eq bit_push_bit_iff o_apply) auto
  have c: "bit (drop_bit 1 (push_bit 1 x OR 1)) n = bit x n" for n
    using nb [of n]
    by (simp only: bit_drop_bit_eq bit_or_iff bit_push_bit_iff o_apply bit_1_iff) auto
  show "drop_bit 1 (push_bit 1 x) = x" by (rule bit_word_eqI) (rule b)
  show "drop_bit 1 (push_bit 1 x OR 1) = x" by (rule bit_word_eqI) (rule c)
qed

lemma decompress_literals:
  assumes "ofs + length lit \<le> length dst" "length lit < 2 ^ 63"
  shows "lz_decompress_from (pre @ literals lit @ rest) (length pre) ofs dst =
    lz_decompress_from (pre @ literals lit @ rest) (length pre + length (literals lit))
      (ofs + length lit) (patch ofs lit dst)"
proof (cases "lit = []")
  case True
  then show ?thesis by (simp add: literals_def patch_def)
next
  case False
  define t :: u64 where "t = push_bit 1 (of_nat (length lit))"
  have u: "unat (of_nat (length lit) :: u64) = length lit"
    using assms(2) by (simp add: unat_of_nat)
  then have t: "t AND 1 = 0" "unat (drop_bit 1 t) = length lit"
    using assms(2) unfolding t_def by (simp_all only: tag_bits)
  have le: "\<not> length dst - ofs < length lit" using assms(1) by simp
  have l: "literals lit = put_varint t @ lit" using False by (simp add: literals_def t_def)
  show ?thesis
    using False le
    by (subst lz_decompress_from.simps) (simp add: l t Let_def add.assoc del: One_nat_def)
qed

lemma decompress_copy:
  fixes ofs d m :: nat and dst :: bytes
  defines "len \<equiv> m + min_match"
    and "tok \<equiv> put_varint (push_bit 1 (of_nat m) OR 1) @ put_varint (of_nat d)"
  assumes "1 \<le> d" "d \<le> ofs" "ofs + len \<le> length dst" "length dst < 2 ^ 62"
  shows "lz_decompress_from (pre @ tok @ rest) (length pre) ofs dst =
    lz_decompress_from (pre @ tok @ rest) (length pre + length tok) (ofs + len)
      (if len \<le> d then copy_within (ofs - d) len ofs dst else copy_bytes d ofs len dst)"
proof -
  define t :: u64 where "t = push_bit 1 (of_nat m) OR 1"
  define e :: u64 where "e = of_nat d"
  have "m < 2 ^ 62" "d < 2 ^ 62" using assms(3-6) by (simp_all add: len_def)
  then have u: "unat (of_nat m :: u64) = m" "unat e = d"
    unfolding e_def by (simp_all add: unat_of_nat)
  then have "unat (of_nat m :: u64) < 2 ^ 63" using \<open>m < 2 ^ 62\<close> by simp
  then have t: "t AND 1 \<noteq> 0" "drop_bit 1 t = of_nat m"
    unfolding t_def by (rule tag_bits)+
  have "m + unat (of_nat min_match :: u64) = len" by (simp add: len_def min_match_def)
  then have len: "unat (saturating_add64 (drop_bit 1 t) (of_nat min_match)) = len"
    using assms(5,6) u(1) unfolding t(2) saturating_add64_def by (simp add: unat_word_ariths)
  have e: "e \<noteq> 0" using u(2) assms(3) by auto
  have le: "\<not> length dst - ofs < len" using assms(5) by simp
  have tok: "tok = put_varint t @ put_varint e" by (simp add: tok_def t_def e_def)
  have g: "get_varint (pre @ put_varint t @ put_varint e @ rest) (length pre) =
      Inr (t, length pre + length (put_varint t))"
    "get_varint (pre @ put_varint t @ put_varint e @ rest) (length pre + length (put_varint t)) =
      Inr (e, length pre + length (put_varint t) + length (put_varint e))"
    by (simp_all add: get_varint_after)
  have ne: "\<not> length (pre @ put_varint t @ put_varint e @ rest) \<le> length pre"
    by (subst put_varint.simps) simp
  show ?thesis
    unfolding tok append_assoc
    by (subst lz_decompress_from.simps, simp only: ne if_False g rbind.simps case_prod_conv t(1) Let_def len
        u(2) e le)
      (use assms(4) in \<open>simp add: add.assoc\<close>)
qed

text \<open>What a match of the compressor guarantees.\<close>

lemma match_len_spec:
  assumes "i + l \<le> length src" "\<forall>j<l. src ! (c + j) = src ! (i + j)"
  shows "i + match_len src c i l \<le> length src \<and>
    (\<forall>j<match_len src c i l. src ! (c + j) = src ! (i + j))"
  using assms
proof (induction src c i l rule: match_len.induct)
  case (1 src c i l)
  show ?case
  proof (cases "i + l < length src \<and> src ! (c + l) = src ! (i + l)")
    case True
    then have "\<forall>j<l + 1. src ! (c + j) = src ! (i + j)"
      using "1.prems"(2) by (auto simp: less_Suc_eq)
    with True have "i + match_len src c i (l + 1) \<le> length src \<and>
        (\<forall>j<match_len src c i (l + 1). src ! (c + j) = src ! (i + j))"
      by (intro "1.IH") simp_all
    moreover have "match_len src c i l = match_len src c i (l + 1)"
      using True by (subst match_len.simps) simp
    ultimately show ?thesis by simp
  next
    case False
    then have "match_len src c i l = l" by (subst match_len.simps) auto
    then show ?thesis using "1.prems" by simp
  qed
qed

lemma word_at_eqD:
  assumes "word_at src c = word_at src i" "c + 4 \<le> length src" "i + 4 \<le> length src" "j < 4"
  shows "src ! (c + j) = src ! (i + j)"
proof -
  have "le_bytes 4 (word_at src p) = take 4 (drop p src)" if "p + 4 \<le> length src" for p
    unfolding word_at_def using that by (intro le_bytes_of_le) simp_all
  then have "take 4 (drop c src) = take 4 (drop i src)"
    using assms(1-3) by metis
  then have "take 4 (drop c src) ! j = take 4 (drop i src) ! j" by simp
  then show ?thesis using assms(2-4) by simp
qed

lemma candidate_match:
  assumes "candidate src base i cand = Some c" "i + min_match \<le> length src"
  shows "c < i" and "i + match_len src c i min_match \<le> length src"
    and "j < match_len src c i min_match \<Longrightarrow> src ! (c + j) = src ! (i + j)"
    and "min_match \<le> match_len src c i min_match"
proof -
  have c: "c < i" "word_at src c = word_at src i"
    using assms(1) by (auto simp: candidate_def split: if_splits)
  have "\<forall>j<min_match. src ! (c + j) = src ! (i + j)"
    using word_at_eqD [OF c(2)] c(1) assms(2) by (simp add: min_match_def)
  then show "i + match_len src c i min_match \<le> length src"
    "j < match_len src c i min_match \<Longrightarrow> src ! (c + j) = src ! (i + j)"
    using match_len_spec [OF assms(2)] by blast+
  show "c < i" by fact
  show "min_match \<le> match_len src c i min_match" by (rule match_len_ge)
qed

text \<open>
  The output so far decodes the first \<open>k\<close> bytes: whatever follows it, the decompressor reaches
  its end with \<open>k\<close> bytes written that agree with the source.
\<close>

definition decodes :: "bytes \<Rightarrow> bytes \<Rightarrow> nat \<Rightarrow> bool" where
  "decodes src out k \<longleftrightarrow> (\<forall>rest dst. length dst = length src \<longrightarrow>
    (\<exists>dst'. agree k dst' src \<and>
      lz_decompress_from (out @ rest) 0 0 dst = lz_decompress_from (out @ rest) (length out) k dst'))"

lemma decodes_step:
  assumes d: "decodes src out k"
    and step: "\<And>rest dst. agree k dst src \<Longrightarrow> \<exists>dst'. agree k' dst' src \<and>
      lz_decompress_from (out @ tok @ rest) (length out) k dst =
      lz_decompress_from (out @ tok @ rest) (length out + length tok) k' dst'"
  shows "decodes src (out @ tok) k'"
  unfolding decodes_def
proof (intro allI impI)
  fix rest dst :: bytes
  assume "length dst = length src"
  with d obtain d1 where d1: "agree k d1 src"
    "lz_decompress_from (out @ tok @ rest) 0 0 dst = lz_decompress_from (out @ tok @ rest) (length out) k d1"
    unfolding decodes_def by blast
  with step [OF d1(1), of rest] show "\<exists>dst'. agree k' dst' src \<and>
      lz_decompress_from ((out @ tok) @ rest) 0 0 dst =
      lz_decompress_from ((out @ tok) @ rest) (length (out @ tok)) k' dst'"
    by auto
qed

lemma decodes_literals:
  assumes "decodes src out k" "k \<le> i" "i \<le> length src" "length src < 2 ^ 62"
  shows "decodes src (out @ literals (take (i - k) (drop k src))) i"
proof (rule decodes_step [OF assms(1)])
  fix rest dst :: bytes
  assume a: "agree k dst src"
  let ?lit = "take (i - k) (drop k src)"
  have l: "length ?lit = i - k" using assms(2,3) by simp
  have "agree i (patch k ?lit dst) src"
    using agree_patch [OF a, of ?lit] l assms(2,3) by simp
  moreover have "length dst = length src" using a by (simp add: agree_def)
  ultimately show "\<exists>dst'. agree i dst' src \<and>
      lz_decompress_from (out @ literals ?lit @ rest) (length out) k dst =
      lz_decompress_from (out @ literals ?lit @ rest) (length out + length (literals ?lit)) i dst'"
    using decompress_literals [of k ?lit dst out rest] l assms(2-4) by auto
qed

lemma decodes_copy:
  assumes "decodes src out k" "candidate src base k cand = Some c" "k + min_match \<le> length src"
    "length src < 2 ^ 62"
  shows "decodes src (out @ put_varint (push_bit 1 (of_nat (match_len src c k min_match - min_match)) OR 1) @
      put_varint (of_nat (k - c))) (k + match_len src c k min_match)"
proof (rule decodes_step [OF assms(1)])
  fix rest dst :: bytes
  assume a: "agree k dst src"
  define d m where "d = k - c" and "m = match_len src c k min_match - min_match"
  note cm = candidate_match [OF assms(2,3)]
  have len: "match_len src c k min_match = m + min_match" and d: "1 \<le> d" "d \<le> k"
    using cm(1,4) by (simp_all add: d_def m_def)
  have "src ! (k + j - d) = src ! (k + j)" if "j < m + min_match" for j
    using cm(3) [of j] that cm(1) by (simp add: d_def len add.commute)
  then have "agree (k + (m + min_match)) (if m + min_match \<le> d
      then copy_within (k - d) (m + min_match) k dst else copy_bytes d k (m + min_match) dst) src"
    using agree_copy_bytes [OF a, of "m + min_match" d] agree_copy_within [OF a, of "m + min_match" d]
      cm(2) d by (simp add: len)
  moreover have "length dst = length src" using a by (simp add: agree_def)
  ultimately show "\<exists>dst'. agree (k + match_len src c k min_match) dst' src \<and>
      lz_decompress_from (out @ (put_varint (push_bit 1 (of_nat (match_len src c k min_match - min_match)) OR 1) @
        put_varint (of_nat (k - c))) @ rest) (length out) k dst =
      lz_decompress_from (out @ (put_varint (push_bit 1 (of_nat (match_len src c k min_match - min_match)) OR 1) @
        put_varint (of_nat (k - c))) @ rest) (length out + length (put_varint (push_bit 1
          (of_nat (match_len src c k min_match - min_match)) OR 1) @ put_varint (of_nat (k - c))))
        (k + match_len src c k min_match) dst'"
    using decompress_copy [of d k m dst out rest] d cm(2) assms(4)
    unfolding d_def [symmetric] m_def [symmetric] len by auto
qed

lemma lz_loop_decodes:
  assumes "lz_loop src base lit i out sl = (lit', out', sl')"
    "decodes src out lit" "lit \<le> i" "i \<le> length src" "length src < 2 ^ 62"
  shows "decodes src out' lit' \<and> lit' \<le> length src"
  using assms
proof (induction src base lit i out sl rule: lz_loop.induct)
  case (1 src base lit i out sl)
  let ?h = "lz_hash (word_at src i)"
  show ?case
  proof (cases "length src < i + min_match")
    case True
    then show ?thesis using "1.prems" lz_loop.simps [of src base lit i out sl] by simp
  next
    case False
    then have i: "i + min_match \<le> length src" by simp
    show ?thesis
    proof (cases "candidate src base i (sl ! ?h)")
      case None
      then have "lz_loop src base lit (i + 1) out (sl[?h := base + of_nat i]) = (lit', out', sl')"
        using "1.prems"(1) False by (subst (asm) lz_loop.simps) (simp add: Let_def)
      then show ?thesis
        using "1.IH"(1) [OF False refl refl refl None] "1.prems" i by (simp add: min_match_def)
    next
      case (Some c)
      define len where "len = match_len src c i min_match"
      define o1 where "o1 = out @ literals (take (i - lit) (drop lit src)) @
        put_varint (push_bit 1 (of_nat (len - min_match)) OR 1) @ put_varint (of_nat (i - c))"
      have "lz_loop src base (i + len) (i + len) o1 (sl[?h := base + of_nat i]) = (lit', out', sl')"
        using "1.prems"(1) False Some
        by (subst (asm) lz_loop.simps) (simp add: Let_def len_def o1_def)
      moreover have "decodes src o1 (i + len)"
        using decodes_copy [OF decodes_literals Some i, of out lit] "1.prems"(2-5)
        by (simp add: o1_def len_def)
      ultimately show ?thesis
        using "1.IH"(2) [OF False refl refl refl Some len_def] "1.prems"(5)
          candidate_match(2) [OF Some i] by (simp add: o1_def len_def)
    qed
  qed
qed

lemma lz_loop_append:
  "lz_loop src base lit i (a @ out) sl =
    (case lz_loop src base lit i out sl of (l, out', sl') \<Rightarrow> (l, a @ out', sl'))"
proof (induction src base lit i out sl rule: lz_loop.induct)
  case (1 src base lit i out sl)
  note IH = "1.IH" [OF _ refl refl refl]
  show ?case
    unfolding lz_loop.simps [of src base lit i "a @ out"] lz_loop.simps [of src base lit i out]
    using IH by (auto simp: Let_def split: option.split)
qed

subsection \<open>The table carries nothing from one block to the next\<close>

text \<open>
  Between blocks every entry is below the base; within a block two tables agree on the
  entries that are at least their base.
\<close>

definition wf_table :: "table \<Rightarrow> bool" where
  "wf_table t \<longleftrightarrow> length (slots t) = 2 ^ hash_bits \<and> 1 \<le> unat (tbase t) \<and>
    (\<forall>s \<in> set (slots t). s < tbase t)"

definition slots_agree :: "u32 \<Rightarrow> u32 list \<Rightarrow> u32 \<Rightarrow> u32 list \<Rightarrow> bool" where
  "slots_agree b1 s1 b2 s2 \<longleftrightarrow> length s1 = 2 ^ hash_bits \<and> length s2 = 2 ^ hash_bits \<and>
    (\<forall>h < 2 ^ hash_bits. (b1 \<le> s1 ! h \<longleftrightarrow> b2 \<le> s2 ! h) \<and>
      (b1 \<le> s1 ! h \<longrightarrow> s1 ! h - b1 = s2 ! h - b2))"

lemma lz_hash_less: "lz_hash v < 2 ^ hash_bits"
proof -
  have "unat (v * 0x9e3779b1) < 2 ^ 32" using unsigned_less [of "v * 0x9e3779b1", where 'a = nat] by simp
  then show ?thesis by (simp add: lz_hash_def hash_bits_def unsigned_drop_bit_eq drop_bit_eq_div unat_div)
qed

lemma slots_agree_candidate:
  "slots_agree b1 s1 b2 s2 \<Longrightarrow>
   candidate src b1 i (s1 ! lz_hash v) = candidate src b2 i (s2 ! lz_hash v)"
  using lz_hash_less [of v] by (auto simp: slots_agree_def candidate_def)

lemma word_add_no_wrap:
  fixes b :: u32
  shows "unat b + i < 2 ^ 32 \<Longrightarrow> unat (b + of_nat i) = unat b + i"
  by (simp add: unat_word_ariths unat_of_nat)

lemma slots_agree_update:
  assumes "slots_agree b1 s1 b2 s2" "unat b1 + i < 2 ^ 32" "unat b2 + i < 2 ^ 32"
  shows "slots_agree b1 (s1[h := b1 + of_nat i]) b2 (s2[h := b2 + of_nat i])"
proof -
  have b: "b1 \<le> b1 + of_nat i" "b2 \<le> b2 + of_nat i"
    using assms(2,3) by (simp_all add: word_le_nat_alt word_add_no_wrap)
  have "(b1 \<le> s1[h := b1 + of_nat i] ! g \<longleftrightarrow> b2 \<le> s2[h := b2 + of_nat i] ! g) \<and>
      (b1 \<le> s1[h := b1 + of_nat i] ! g \<longrightarrow>
        s1[h := b1 + of_nat i] ! g - b1 = s2[h := b2 + of_nat i] ! g - b2)" if "g < 2 ^ hash_bits" for g
    using assms(1) that b by (cases "g = h") (simp_all add: slots_agree_def)
  then show ?thesis using assms(1) by (simp add: slots_agree_def)
qed

lemma lz_loop_agree:
  assumes "slots_agree b1 s1 b2 s2" "unat b1 + length src < 2 ^ 32" "unat b2 + length src < 2 ^ 32"
  shows "fst (lz_loop src b1 lit i out s1) = fst (lz_loop src b2 lit i out s2) \<and>
    fst (snd (lz_loop src b1 lit i out s1)) = fst (snd (lz_loop src b2 lit i out s2))"
  using assms
proof (induction src b1 lit i out s1 arbitrary: s2 rule: lz_loop.induct)
  case (1 src b1 lit i out s1)
  note IH = "1.IH" [OF _ refl refl refl]
  show ?case
  proof (cases "length src < i + min_match")
    case True
    then show ?thesis
      by (simp add: lz_loop.simps [of src b1 lit i out s1] lz_loop.simps [of src b2 lit i out s2])
  next
    case False
    let ?h = "lz_hash (word_at src i)"
    have u: "slots_agree b1 (s1[?h := b1 + of_nat i]) b2 (s2[?h := b2 + of_nat i])"
      using "1.prems" False by (intro slots_agree_update) (auto simp: min_match_def)
    have c: "candidate src b1 i (s1 ! ?h) = candidate src b2 i (s2 ! ?h)"
      by (rule slots_agree_candidate) fact
    show ?thesis
      using IH(1) [OF False _ u "1.prems"(2,3)] IH(2) [OF False _ refl u "1.prems"(2,3)] False c
      by (simp add: lz_loop.simps [of src b1 lit i out s1] lz_loop.simps [of src b2 lit i out s2]
          Let_def split: option.split)
  qed
qed

lemma lz_loop_slots:
  assumes "unat base + length src < unat b'" "\<forall>s \<in> set sl. s < b'"
  shows "(\<forall>s \<in> set (snd (snd (lz_loop src base lit i out sl))). s < b') \<and>
    length (snd (snd (lz_loop src base lit i out sl))) = length sl"
  using assms
proof (induction src base lit i out sl rule: lz_loop.induct)
  case (1 src base lit i out sl)
  note IH = "1.IH" [OF _ refl refl refl]
  show ?case
  proof (cases "length src < i + min_match")
    case True
    then show ?thesis using "1.prems" by (simp add: lz_loop.simps [of src base lit i out sl])
  next
    case False
    let ?h = "lz_hash (word_at src i)"
    have "unat base + i < 2 ^ 32"
      using "1.prems"(1) False unsigned_less [of b', where 'a = nat] by (simp add: min_match_def)
    then have "base + of_nat i < b'"
      using "1.prems"(1) False by (simp add: word_less_nat_alt word_add_no_wrap min_match_def)
    then have u: "\<forall>s \<in> set (sl[?h := base + of_nat i]). s < b'"
      using "1.prems"(2) set_update_subset_insert [of sl ?h "base + of_nat i"] by blast
    show ?thesis
      using IH(1) [OF False _ "1.prems"(1) u] IH(2) [OF False _ refl "1.prems"(1) u] False
      by (simp add: lz_loop.simps [of src base lit i out sl] Let_def split: option.split)
  qed
qed

lemma table_start_wf:
  assumes "wf_table t" "n + 2 < 2 ^ 32 - 1" "table_start n t = (b, t1)"
  shows "unat (tbase t1) = unat b + n + 1" "length (slots t1) = 2 ^ hash_bits"
    "\<forall>s \<in> set (slots t1). s < b"
proof -
  define reset where "reset = (2 ^ 32 - 1 \<le> unat (tbase t) + n + 1)"
  have t1: "b = (if reset then 1 else tbase t)" "tbase t1 = b + of_nat n + 1"
    "slots t1 = (if reset then replicate (length (slots t)) 0 else slots t)"
    using assms(3) by (auto simp: table_start_def Let_def reset_def)
  have lt: "unat b + (n + 1) < 2 ^ 32"
    using assms(2) by (auto simp: t1(1) reset_def)
  have "tbase t1 = b + of_nat (n + 1)" by (simp add: t1(2))
  then show "unat (tbase t1) = unat b + n + 1" using word_add_no_wrap [OF lt] by simp
  show "length (slots t1) = 2 ^ hash_bits" "\<forall>s \<in> set (slots t1). s < b"
    using assms(1) by (auto simp: t1 wf_table_def)
qed

lemma slots_agree_start:
  assumes "length s1 = 2 ^ hash_bits" "\<forall>s \<in> set s1. s < b1"
    "length s2 = 2 ^ hash_bits" "\<forall>s \<in> set s2. s < b2"
  shows "slots_agree b1 s1 b2 s2"
  using assms by (auto simp: slots_agree_def dest!: nth_mem simp: not_le [symmetric])

lemma wf_table_new: "wf_table table_new"
  by (simp add: wf_table_def table_new_def)

subsection \<open>Properties\<close>

text \<open>
  C2. Lossless compression: \<^verbatim>\<open>compress\<close> only appends to its output, whatever table it is given,
  and \<^verbatim>\<open>decompress\<close> of what it appended, into any destination of the block's length, succeeds
  and gives back the block.
\<close>

theorem lz_roundtrip:
  assumes "length src < 2 ^ 62"
  shows "\<exists>z. fst (lz_compress src out t) = out @ z \<and>
    (\<forall>dst. length dst = length src \<longrightarrow> lz_decompress z dst = Inr src)"
proof -
  obtain base t1 where st: "table_start (length src) t = (base, t1)" by fastforce
  obtain lit o1 sl where lp: "lz_loop src base 0 0 [] (slots t1) = (lit, o1, sl)"
    by (metis prod_cases3)
  define z where "z = o1 @ literals (drop lit src)"
  have "fst (lz_compress src out t) = out @ z"
    using lz_loop_append [of src base 0 0 out "[]" "slots t1"] lp
    by (simp add: lz_compress_def st z_def)
  have "decodes src [] 0" by (auto simp: decodes_def agree_def)
  then have "decodes src o1 lit" "lit \<le> length src"
    using lz_loop_decodes [OF lp] assms by simp_all
  then have dz: "decodes src z (length src)"
    using decodes_literals [of src o1 lit "length src"] assms by (simp add: z_def)
  have "lz_decompress z dst = Inr src" if "length dst = length src" for dst
  proof -
    obtain d1 where "agree (length src) d1 src"
      "lz_decompress_from (z @ []) 0 0 dst = lz_decompress_from (z @ []) (length z) (length src) d1"
      using dz \<open>length dst = length src\<close> unfolding decodes_def by blast
    then show ?thesis
      by (auto simp: lz_decompress_def lz_decompress_from.simps [of z "length z"] agree_def)
  qed
  with \<open>fst (lz_compress src out t) = out @ z\<close> show ?thesis by blast
qed

theorem lz_roundtrip_witness:
  "length [7, 7, 7, 7, 7, 7 :: u8] < 2 ^ 62 \<and>
   (\<exists>z. fst (lz_compress [7, 7, 7, 7, 7, 7] [1] table_new) = [1] @ z \<and>
     (\<forall>dst. length dst = length [7, 7, 7, 7, 7, 7 :: u8] \<longrightarrow>
       lz_decompress z dst = Inr [7, 7, 7, 7, 7, 7]))"
  using lz_roundtrip [of "[7, 7, 7, 7, 7, 7]" "[1]" table_new] by simp

text \<open>
  C20. The table does not change the result: two tables whose entries are all below their base
  (as \<^verbatim>\<open>Table::new\<close> makes them) compress a block to the same bytes, and both are such tables
  again afterwards, also when \<^verbatim>\<open>start\<close> had to reset one of them.
\<close>

theorem lz_table_independent:
  assumes "wf_table t" "wf_table u" "length src + 2 < 2 ^ 32 - 1"
  shows "fst (lz_compress src out t) = fst (lz_compress src out u) \<and>
    wf_table (snd (lz_compress src out t))"
proof -
  obtain b t1 where st: "table_start (length src) t = (b, t1)" by fastforce
  obtain c u1 where su: "table_start (length src) u = (c, u1)" by fastforce
  note wt = table_start_wf [OF assms(1,3) st] and wu = table_start_wf [OF assms(2,3) su]
  have lt: "unat b + length src < unat (tbase t1)" "unat c + length src < unat (tbase u1)"
    using wt(1) wu(1) by simp_all
  then have lt32: "unat b + length src < 2 ^ 32" "unat c + length src < 2 ^ 32"
    using unsigned_less [of "tbase t1", where 'a = nat] unsigned_less [of "tbase u1", where 'a = nat]
    by simp_all
  have same: "fst (lz_loop src b 0 0 out (slots t1)) = fst (lz_loop src c 0 0 out (slots u1))"
    "fst (snd (lz_loop src b 0 0 out (slots t1))) = fst (snd (lz_loop src c 0 0 out (slots u1)))"
    using lz_loop_agree [OF slots_agree_start lt32] wt wu by simp_all
  have "\<forall>s \<in> set (slots t1). s < tbase t1"
    using wt by (auto simp: word_less_nat_alt)
  then have "wf_table (snd (lz_compress src out t))"
    using lz_loop_slots [OF lt(1), of "slots t1" 0 0 out] wt
    by (auto simp: lz_compress_def st wf_table_def split: prod.split)
  with same show ?thesis
    by (auto simp: lz_compress_def st su split: prod.splits)
qed

theorem lz_table_independent_witness:
  "wf_table table_new \<and> wf_table \<lparr>slots = replicate 4096 5, tbase = 0xfffffff0\<rparr> \<and>
   length (replicate 20 (7 :: u8)) + 2 < 2 ^ 32 - 1 \<and>
   fst (lz_compress (replicate 20 7) [] table_new) =
     fst (lz_compress (replicate 20 7) [] \<lparr>slots = replicate 4096 5, tbase = 0xfffffff0\<rparr>) \<and>
   wf_table (snd (lz_compress (replicate 20 7) [] table_new))"
proof -
  have "wf_table \<lparr>slots = replicate 4096 5, tbase = 0xfffffff0\<rparr>"
    by (simp add: wf_table_def hash_bits_def)
  then show ?thesis
    using lz_table_independent [OF wf_table_new, of _ "replicate 20 7" "[]"] wf_table_new by simp
qed

end
