(* ===== verification/Mmu_Walk.thy ===== *)
theory Mmu_Walk
  imports Prelude
begin

text \<open>
  The stage 1 table walk of \<^verbatim>\<open>crates/vetro-mmu/src\<close>: the translation registers (\<^verbatim>\<open>regs.rs\<close>), the
  faults and their encodings (\<^verbatim>\<open>fault.rs\<close>) and the walk with the permission check
  (\<^verbatim>\<open>walk.rs\<close>). Physical memory is the trait \<^verbatim>\<open>PhysMemory\<close>: its \<^verbatim>\<open>read\<close> is an argument of the
  definitions, takes the memory's state and returns it, since a read may change a device.
  Shift counts, bit positions and lookup levels are \<open>nat\<close>; the levels stored in faults and
  translations are bytes, as in the source.
\<close>

subsection \<open>Accesses and registers\<close>

datatype access = Read | Write | Fetch

record mem_fault =
  mf_addr :: u64
  mf_access :: access

definition page_size :: u64 where "page_size = 4096"

definition sctlr_M :: u64 where "sctlr_M = push_bit 0 1"
definition sctlr_I :: u64 where "sctlr_I = push_bit 12 1"
definition sctlr_WXN :: u64 where "sctlr_WXN = push_bit 19 1"
definition sctlr_EE :: u64 where "sctlr_EE = push_bit 25 1"

definition t0sz_shift :: nat where "t0sz_shift = 0"
definition tcr_EPD0 :: u64 where "tcr_EPD0 = push_bit 7 1"
definition tg0_shift :: nat where "tg0_shift = 14"
definition t1sz_shift :: nat where "t1sz_shift = 16"
definition tcr_A1 :: u64 where "tcr_A1 = push_bit 22 1"
definition tcr_EPD1 :: u64 where "tcr_EPD1 = push_bit 23 1"
definition tg1_shift :: nat where "tg1_shift = 30"
definition ips_shift :: nat where "ips_shift = 32"
definition tcr_AS :: u64 where "tcr_AS = push_bit 36 1"
definition tcr_TBI0 :: u64 where "tcr_TBI0 = push_bit 37 1"
definition tcr_TBI1 :: u64 where "tcr_TBI1 = push_bit 38 1"

record mmu_regs =
  sctlr :: u64
  tcr :: u64
  ttbr0 :: u64
  ttbr1 :: u64
  mair :: u64

definition regs_default :: mmu_regs where
  "regs_default = \<lparr>sctlr = 0, tcr = 0, ttbr0 = 0, ttbr1 = 0, mair = 0\<rparr>"

datatype granule = K4 | K64

definition same :: "mmu_regs \<Rightarrow> mmu_regs \<Rightarrow> bool" where
  "same r o' \<longleftrightarrow>
    (sctlr r XOR sctlr o') OR (tcr r XOR tcr o') OR (ttbr0 r XOR ttbr0 o') OR
    (ttbr1 r XOR ttbr1 o') OR (mair r XOR mair o') = 0"

definition enabled :: "mmu_regs \<Rightarrow> bool" where
  "enabled r \<longleftrightarrow> sctlr r AND sctlr_M \<noteq> 0"

definition wxn :: "mmu_regs \<Rightarrow> bool" where
  "wxn r \<longleftrightarrow> sctlr r AND sctlr_WXN \<noteq> 0"

definition asid_of :: "mmu_regs \<Rightarrow> u16" where
  "asid_of r =
    (let ttbr = (if tcr r AND tcr_A1 \<noteq> 0 then ttbr1 r else ttbr0 r);
         asid = ucast (drop_bit 48 ttbr)
     in if tcr r AND tcr_AS \<noteq> 0 then asid else asid AND 0xff)"

definition addr_top :: "mmu_regs \<Rightarrow> u64 \<Rightarrow> nat" where
  "addr_top r va =
    (let tbi = (if drop_bit 55 va AND 1 \<noteq> 0 then tcr_TBI1 else tcr_TBI0)
     in if tcr r AND tbi \<noteq> 0 then 55 else 63)"

definition input_size :: "mmu_regs \<Rightarrow> bool \<Rightarrow> nat" where
  "input_size r hi =
    (let sh = (if hi then t1sz_shift else t0sz_shift);
         txsz = unat (drop_bit sh (tcr r) AND 0x3f)
     in 64 - min (max txsz 16) 39)"

definition granule_of :: "mmu_regs \<Rightarrow> bool \<Rightarrow> granule" where
  "granule_of r hi =
    (let k64 = (if hi then drop_bit tg1_shift (tcr r) AND 3 = 3
                else drop_bit tg0_shift (tcr r) AND 3 = 1)
     in if k64 then K64 else K4)"

definition walk_disabled :: "mmu_regs \<Rightarrow> bool \<Rightarrow> bool" where
  "walk_disabled r hi \<longleftrightarrow> tcr r AND (if hi then tcr_EPD1 else tcr_EPD0) \<noteq> 0"

definition ttbr_of :: "mmu_regs \<Rightarrow> bool \<Rightarrow> u64" where
  "ttbr_of r hi = (if hi then ttbr1 r else ttbr0 r)"

definition output_size :: "mmu_regs \<Rightarrow> nat \<Rightarrow> nat" where
  "output_size r pa_bits =
    (let i = drop_bit ips_shift (tcr r) AND 7;
         ips = (if i = 0 then 32 else if i = 1 then 36 else if i = 2 then 40 else if i = 3 then 42
                else if i = 4 then 44 else 48)
     in min ips pa_bits)"

definition mair_attr_of :: "mmu_regs \<Rightarrow> u8 \<Rightarrow> u8" where
  "mair_attr_of r attr_index = ucast (drop_bit (8 * unat (attr_index AND 7)) (mair r))"

subsection \<open>Faults\<close>

datatype bus_error = Decode | Slave

datatype fault_kind =
    AddressSize u8
  | Translation u8
  | AccessFlag u8
  | Permission u8
  | Alignment
  | ExternalWalk u8 bus_error
  | External bus_error
  | Unimplemented string

fun fsc :: "fault_kind \<Rightarrow> u8 option" where
  "fsc (AddressSize l) = Some l"
| "fsc (Translation l) = Some (0b000100 OR l)"
| "fsc (AccessFlag l) = Some (0b001000 OR l)"
| "fsc (Permission l) = Some (0b001100 OR l)"
| "fsc Alignment = Some 0b100001"
| "fsc (External e) = Some 0b010000"
| "fsc (ExternalWalk l e) = Some (0b010100 OR l)"
| "fsc (Unimplemented w) = None"

fun fault_level :: "fault_kind \<Rightarrow> u8 option" where
  "fault_level (AddressSize l) = Some l"
| "fault_level (Translation l) = Some l"
| "fault_level (AccessFlag l) = Some l"
| "fault_level (Permission l) = Some l"
| "fault_level (ExternalWalk l e) = Some l"
| "fault_level k = None"

fun fault_ea :: "fault_kind \<Rightarrow> bool" where
  "fault_ea (External Slave) = True"
| "fault_ea (ExternalWalk l Slave) = True"
| "fault_ea k = False"

record fault =
  f_kind :: fault_kind
  f_va :: u64
  f_access :: access
  f_el :: u8

definition far :: "fault \<Rightarrow> u64" where "far f = f_va f"

definition insn_abort_lower :: u64 where "insn_abort_lower = 0x20"
definition insn_abort_same :: u64 where "insn_abort_same = 0x21"
definition data_abort_lower :: u64 where "data_abort_lower = 0x24"
definition data_abort_same :: u64 where "data_abort_same = 0x25"

definition esr :: "fault \<Rightarrow> u8 \<Rightarrow> u64 option" where
  "esr f from_el = (case fsc (f_kind f) of None \<Rightarrow> None | Some c \<Rightarrow>
    let lower = (from_el = 0);
        ea = push_bit 9 (of_bool (fault_ea (f_kind f)));
        (class, iss) = (case f_access f of
          Fetch \<Rightarrow> (if lower then insn_abort_lower else insn_abort_same, ea OR ucast c)
        | Read \<Rightarrow> (if lower then data_abort_lower else data_abort_same, ea OR ucast c)
        | Write \<Rightarrow> (if lower then data_abort_lower else data_abort_same,
            ea OR push_bit 6 1 OR ucast c))
    in Some (push_bit 26 class OR push_bit 25 1 OR iss))"

definition fault_par :: "fault \<Rightarrow> u64 option" where
  "fault_par f =
    map_option (\<lambda>c. push_bit 11 1 OR push_bit 1 (ucast c) OR 1) (fsc (f_kind f))"

definition mem_fault_of :: "fault \<Rightarrow> mem_fault" where
  "mem_fault_of f = \<lparr>mf_addr = f_va f, mf_access = f_access f\<rparr>"

subsection \<open>Physical memory\<close>

type_synonym 'p phys_read = "u64 \<Rightarrow> nat \<Rightarrow> 'p \<Rightarrow> (bus_error + bytes) \<times> 'p"
type_synonym 'p phys_write = "u64 \<Rightarrow> bytes \<Rightarrow> 'p \<Rightarrow> (bus_error + unit) \<times> 'p"

definition phys_read_u64 :: "'p phys_read \<Rightarrow> u64 \<Rightarrow> 'p \<Rightarrow> (bus_error + u64) \<times> 'p" where
  "phys_read_u64 rd pa p = (case rd pa 8 p of (r, p') \<Rightarrow> (rmap of_le r, p'))"

definition phys_cmpxchg ::
  "'p phys_read \<Rightarrow> 'p phys_write \<Rightarrow> u64 \<Rightarrow> bytes \<Rightarrow> bytes \<Rightarrow> 'p \<Rightarrow> (bus_error + bool) \<times> 'p" where
  "phys_cmpxchg rd wr pa old new p = (case rd pa (length old) p of
      (Inl e, p1) \<Rightarrow> (Inl e, p1)
    | (Inr cur, p1) \<Rightarrow>
        if cur \<noteq> old then (Inr False, p1)
        else (case wr pa new p1 of (Inl e, p2) \<Rightarrow> (Inl e, p2) | (Inr _, p2) \<Rightarrow> (Inr True, p2)))"

subsection \<open>Permissions and translations\<close>

record perms =
  ap :: u8
  uxn :: bool
  pxn :: bool

definition allows :: "perms \<Rightarrow> access \<Rightarrow> u8 \<Rightarrow> bool \<Rightarrow> bool" where
  "allows p acc el w =
    (let priv_w = (ap p AND 0b10 = 0); user_r = (ap p AND 0b01 \<noteq> 0); user_w = (ap p = 0b01)
     in if el = 0 then
          (case acc of Read \<Rightarrow> user_r | Write \<Rightarrow> user_w | Fetch \<Rightarrow> \<not> (uxn p \<or> user_w \<and> w))
        else
          (case acc of Read \<Rightarrow> True | Write \<Rightarrow> priv_w
           | Fetch \<Rightarrow> \<not> (pxn p \<or> priv_w \<and> w \<or> user_w)))"

record translation =
  t_pa :: u64
  t_level :: u8
  t_block_size :: u64
  t_perms :: "perms option"
  t_attr_index :: "u8 option"
  t_mair_attr :: u8
  t_sh :: u8
  t_ng :: bool
  t_asid :: u16

definition bits :: "nat \<Rightarrow> nat \<Rightarrow> u64" where
  "bits hi lo = drop_bit (63 - hi) (- 1) AND NOT (push_bit lo 1 - 1)"

definition low :: "nat \<Rightarrow> u64" where
  "low n = push_bit n 1 - 1"

definition translation_par :: "translation \<Rightarrow> u64" where
  "translation_par t =
    (let attr = ucast (t_mair_attr t);
         sh = (if attr AND 0xf0 = 0 \<or> attr = 0x44 \<or> attr = 0x40 then 0b10 else ucast (t_sh t))
     in push_bit 56 attr OR (t_pa t AND bits 47 12) OR push_bit 11 1 OR push_bit 9 1 OR push_bit 7 sh)"

definition mk_fault :: "fault_kind \<Rightarrow> u64 \<Rightarrow> access \<Rightarrow> u8 \<Rightarrow> fault" where
  "mk_fault k va acc el = \<lparr>f_kind = k, f_va = va, f_access = acc, f_el = el\<rparr>"

definition mmu_off :: "mmu_regs \<Rightarrow> nat \<Rightarrow> u64 \<Rightarrow> access \<Rightarrow> u8 \<Rightarrow> fault + translation" where
  "mmu_off r pa_bits va acc el =
    (let top = addr_top r va
     in if va AND bits top pa_bits \<noteq> 0 then Inl (mk_fault (AddressSize 0) va acc el)
        else Inr \<lparr>t_pa = va AND low pa_bits, t_level = 0, t_block_size = page_size, t_perms = None,
          t_attr_index = None,
          t_mair_attr = (case acc of Fetch \<Rightarrow> (if sctlr r AND sctlr_I \<noteq> 0 then 0xaa else 0x44)
            | Read \<Rightarrow> 0x00 | Write \<Rightarrow> 0x00),
          t_sh = 0b10, t_ng = False, t_asid = asid_of r\<rparr>)"

definition select :: "mmu_regs \<Rightarrow> u64 \<Rightarrow> fault_kind + bool" where
  "select r va =
    (let top = addr_top r va;
         hi = (drop_bit top va AND 1 \<noteq> 0);
         field = va AND bits top (input_size r hi);
         ok = (if hi then field = bits top (input_size r hi) else field = 0)
     in if ok then Inr hi else Inl (Translation 0))"

subsection \<open>The walk\<close>

definition stride :: nat where "stride = 9"
definition grain :: nat where "grain = 12"

definition bottom_of :: "nat \<Rightarrow> nat" where
  "bottom_of level = (3 - level) * stride + grain"

definition oversize :: "nat \<Rightarrow> u64 \<Rightarrow> bool" where
  "oversize outputsize addr \<longleftrightarrow> outputsize < 48 \<and> addr AND bits 47 outputsize \<noteq> 0"

text \<open>What the loop carries: level, table base, top input bit and the accumulated table attributes.\<close>

record walk_state =
  ws_level :: nat
  ws_base :: u64
  ws_addrtop :: nat
  ws_ap_table :: u8
  ws_xn_table :: bool
  ws_pxn_table :: bool

definition walk_index :: "u64 \<Rightarrow> walk_state \<Rightarrow> u64" where
  "walk_index va s =
    (let bottom = bottom_of (ws_level s)
     in push_bit 3 (drop_bit bottom (va AND bits (ws_addrtop s) bottom)))"

text \<open>A table descriptor: its address and attributes, and the next level.\<close>

definition walk_table :: "u64 \<Rightarrow> walk_state \<Rightarrow> walk_state" where
  "walk_table desc s =
    \<lparr>ws_level = ws_level s + 1, ws_base = desc AND bits 47 grain,
     ws_addrtop = bottom_of (ws_level s) - 1,
     ws_ap_table = ws_ap_table s OR ucast (drop_bit 61 desc AND 3),
     ws_xn_table = (ws_xn_table s \<or> drop_bit 60 desc AND 1 \<noteq> 0),
     ws_pxn_table = (ws_pxn_table s \<or> drop_bit 59 desc AND 1 \<noteq> 0)\<rparr>"

text \<open>The loop; its level starts below 3 and never passes it, so \<open>3 \<le> level\<close> is \<^verbatim>\<open>level == 3\<close>.\<close>

function walk_loop ::
  "'p phys_read \<Rightarrow> nat \<Rightarrow> u64 \<Rightarrow> walk_state \<Rightarrow> 'p \<Rightarrow> (fault_kind + u64 \<times> walk_state) \<times> 'p" where
  "walk_loop rd outputsize va s p =
    (let level = ws_level s
     in case phys_read_u64 rd (ws_base s OR walk_index va s) p of
          (Inl e, p') \<Rightarrow> (Inl (ExternalWalk (of_nat level) e), p')
        | (Inr desc, p') \<Rightarrow>
            if desc AND 1 = 0 \<or> desc AND 3 = 1 \<and> 3 \<le> level
            then (Inl (Translation (of_nat level)), p')
            else if desc AND 3 = 1 \<or> 3 \<le> level then (Inr (desc, s), p')
            else if oversize outputsize desc then (Inl (AddressSize (of_nat level)), p')
            else walk_loop rd outputsize va (walk_table desc s) p')"
  by pat_completeness auto
termination
  by (relation "measure (\<lambda>(rd, outputsize, va, s, p). 3 - ws_level s)") (auto simp: walk_table_def)

declare walk_loop.simps [simp del]

text \<open>The leaf: output address, access flag, permissions and attributes.\<close>

definition walk_leaf :: "mmu_regs \<Rightarrow> nat \<Rightarrow> u64 \<Rightarrow> u64 \<Rightarrow> walk_state \<Rightarrow> fault_kind + translation" where
  "walk_leaf r outputsize va desc s =
    (let level = ws_level s in
     if level < 1 then Inl (Translation (of_nat level))
     else let bottom = bottom_of level;
              pa = (desc AND bits 47 bottom) OR (va AND low bottom)
       in if oversize outputsize pa then Inl (AddressSize (of_nat level))
          else if drop_bit 10 desc AND 1 = 0 then Inl (AccessFlag (of_nat level))
          else let a = ucast (drop_bit 6 desc AND 3);
                   attr_index = ucast (drop_bit 2 desc AND 7)
            in Inr \<lparr>t_pa = pa, t_level = of_nat level, t_block_size = push_bit bottom 1,
                 t_perms = Some \<lparr>ap = (a OR (ws_ap_table s AND 0b10)) AND NOT (ws_ap_table s AND 0b01),
                   uxn = (drop_bit 54 desc AND 1 \<noteq> 0 \<or> ws_xn_table s),
                   pxn = (drop_bit 53 desc AND 1 \<noteq> 0 \<or> ws_pxn_table s)\<rparr>,
                 t_attr_index = Some attr_index, t_mair_attr = mair_attr_of r attr_index,
                 t_sh = ucast (drop_bit 8 desc AND 3), t_ng = (drop_bit 11 desc AND 1 \<noteq> 0),
                 t_asid = asid_of r\<rparr>)"

text \<open>The initial state: level and alignment of the first table.\<close>

definition walk_start :: "mmu_regs \<Rightarrow> bool \<Rightarrow> walk_state" where
  "walk_start r hi =
    (let inputsize = input_size r hi;
         level = 4 - (inputsize - grain + stride - 1) div stride;
         baselowerbound = 3 + inputsize - bottom_of level
     in \<lparr>ws_level = level, ws_base = ttbr_of r hi AND bits 47 baselowerbound,
         ws_addrtop = inputsize - 1, ws_ap_table = 0, ws_xn_table = False, ws_pxn_table = False\<rparr>)"

definition walk_tables ::
  "'p phys_read \<Rightarrow> mmu_regs \<Rightarrow> nat \<Rightarrow> 'p \<Rightarrow> u64 \<Rightarrow> bool \<Rightarrow> (fault_kind + translation) \<times> 'p" where
  "walk_tables rd r pa_bits p va hi =
    (if walk_disabled r hi then (Inl (Translation 0), p)
     else if granule_of r hi = K64 then (Inl (Unimplemented ''64 KiB translation granule''), p)
     else if sctlr r AND sctlr_EE \<noteq> 0
       then (Inl (Unimplemented ''big-endian descriptors (SCTLR_EL1.EE = 1)''), p)
     else let outputsize = output_size r pa_bits
       in if oversize outputsize (ttbr_of r hi) then (Inl (AddressSize 0), p)
          else case walk_loop rd outputsize va (walk_start r hi) p of
              (Inl k, p') \<Rightarrow> (Inl k, p')
            | (Inr (desc, s), p') \<Rightarrow> (walk_leaf r outputsize va desc s, p'))"

definition check_device_alignment :: "translation \<Rightarrow> access \<Rightarrow> bool \<Rightarrow> fault_kind + unit" where
  "check_device_alignment t acc aligned =
    (if \<not> aligned \<and> acc \<noteq> Fetch \<and> t_mair_attr t AND 0xf0 = 0 then Inl Alignment else Inr ())"

definition check :: "mmu_regs \<Rightarrow> translation \<Rightarrow> access \<Rightarrow> u8 \<Rightarrow> fault_kind + unit" where
  "check r t acc el = (case t_perms t of
      Some p \<Rightarrow> if \<not> allows p acc el (wxn r) then Inl (Permission (t_level t)) else Inr ()
    | None \<Rightarrow> Inr ())"

subsection \<open>Bit fields\<close>

lemma low_mask: "low n = mask n"
  by (simp add: low_def mask_eq_exp_minus_1)

lemma bit_low [bit_simps]: "bit (low n) k \<longleftrightarrow> k < n \<and> k < 64"
  by (auto simp: low_mask bit_simps)

lemma bits_alt: "bits hi lo = drop_bit (63 - hi) (- 1) AND NOT (mask lo)"
  by (simp add: bits_def mask_eq_exp_minus_1)

lemma bit_bits [bit_simps]: "hi \<le> 63 \<Longrightarrow> bit (bits hi lo) n \<longleftrightarrow> lo \<le> n \<and> n \<le> hi"
  by (auto simp: bits_alt bit_simps)

lemma shifted_bit_test: "(drop_bit k (w :: 'a::len word) AND 1 \<noteq> 0) = bit w k"
  using word_ne_zero_test [of "drop_bit k w" 0] by (simp add: bit_drop_bit_eq)

lemma and_bits_eq_0:
  "hi \<le> 63 \<Longrightarrow> (w AND bits hi lo = 0) \<longleftrightarrow> (\<forall>n. lo \<le> n \<and> n \<le> hi \<longrightarrow> \<not> bit w n)"
  using le_less_trans [of _ hi 64] by (fastforce simp: bit_eq_iff bit_simps)

lemma and_bits_eq_bits:
  "hi \<le> 63 \<Longrightarrow> (w AND bits hi lo = bits hi lo) \<longleftrightarrow> (\<forall>n. lo \<le> n \<and> n \<le> hi \<longrightarrow> bit w n)"
proof -
  assume hi: "hi \<le> 63"
  have "(w AND bits hi lo = bits hi lo) \<longleftrightarrow> (NOT w AND bits hi lo = 0)"
    by (auto simp: bit_eq_iff bit_simps)
  also have "\<dots> \<longleftrightarrow> (\<forall>n. lo \<le> n \<and> n \<le> hi \<longrightarrow> bit w n)"
    using hi by (auto simp: and_bits_eq_0 bit_simps)
  finally show ?thesis .
qed

lemma and_bits_cong:
  assumes "hi \<le> 63" "\<And>n. lo \<le> n \<Longrightarrow> n \<le> hi \<Longrightarrow> bit v n = bit w n"
  shows "v AND bits hi lo = w AND bits hi lo"
  using assms by (auto simp: bit_eq_iff bit_simps)

subsection \<open>Sizes\<close>

lemma input_size_bounds: "25 \<le> input_size r hi" "input_size r hi \<le> 48"
  by (auto simp: input_size_def Let_def)

lemma output_size_bounds: "32 \<le> pa_bits \<Longrightarrow> 32 \<le> output_size r pa_bits" "output_size r pa_bits \<le> pa_bits"
  by (auto simp: output_size_def Let_def)

lemma bottom_of_bounds: "12 \<le> bottom_of l" "bottom_of l \<le> 39" "1 \<le> l \<Longrightarrow> bottom_of l \<le> 30"
proof -
  show "12 \<le> bottom_of l" "bottom_of l \<le> 39"
    by (simp_all add: bottom_of_def stride_def grain_def)
  show "bottom_of l \<le> 30" if "1 \<le> l"
    using that by (simp add: bottom_of_def stride_def grain_def)
qed

lemma bottom_of_antimono: "l \<le> m \<Longrightarrow> bottom_of m \<le> bottom_of l"
  by (simp add: bottom_of_def diff_le_mono2)

lemma addr_top_cases: "addr_top r va = 55 \<or> addr_top r va = 63"
  by (simp add: addr_top_def Let_def)

lemma walk_start_fields: "ws_level (walk_start r hi) \<le> 2" "ws_addrtop (walk_start r hi) \<le> 47"
  using input_size_bounds [of r hi] by (auto simp: walk_start_def Let_def grain_def stride_def)

lemma select_hi: "select r va = Inr hi \<Longrightarrow> hi = bit va 55"
proof -
  assume a: "select r va = Inr hi"
  define top where "top = addr_top r va"
  have top: "top = 55 \<or> top = 63" unfolding top_def by (rule addr_top_cases)
  have hi: "hi = bit va top" and
    f: "if hi then va AND bits top (input_size r hi) = bits top (input_size r hi)
        else va AND bits top (input_size r hi) = 0"
    using a by (auto simp: select_def Let_def top_def [symmetric] shifted_bit_test split: if_splits)
  from f top have "bit va 55 = hi"
    using input_size_bounds(2) [of r hi]
    by (cases hi) (auto simp: and_bits_eq_0 and_bits_eq_bits)
  then show ?thesis by simp
qed

subsection \<open>A block translates as a whole\<close>

text \<open>Two addresses that agree on VA[55:k].\<close>

definition agree_from :: "nat \<Rightarrow> u64 \<Rightarrow> u64 \<Rightarrow> bool" where
  "agree_from k va va' \<longleftrightarrow> (\<forall>n. k \<le> n \<and> n < 56 \<longrightarrow> bit va n = bit va' n)"

lemma agree_from_mono: "agree_from k va va' \<Longrightarrow> k \<le> m \<Longrightarrow> agree_from m va va'"
  by (auto simp: agree_from_def)

lemma agree_from_bits:
  "agree_from k va va' \<Longrightarrow> k \<le> lo \<Longrightarrow> hi < 56 \<Longrightarrow> va AND bits hi lo = va' AND bits hi lo"
  by (intro and_bits_cong) (auto simp: agree_from_def)

lemma walk_table_fields [simp]:
  "ws_level (walk_table d s) = ws_level s + 1" "ws_addrtop (walk_table d s) = bottom_of (ws_level s) - 1"
  by (simp_all add: walk_table_def)

lemma walk_index_agree:
  "agree_from (bottom_of (ws_level s)) va va' \<Longrightarrow> ws_addrtop s < 56 \<Longrightarrow> walk_index va s = walk_index va' s"
  by (simp only: walk_index_def Let_def agree_from_bits [OF _ order_refl])

text \<open>The ways out of one round of the loop.\<close>

lemma walk_loop_round:
  assumes "walk_loop rd out va s p = (res, p')"
  obtains (fault) k where "res = Inl k" "k \<in> {ExternalWalk (of_nat (ws_level s)) Decode,
      ExternalWalk (of_nat (ws_level s)) Slave, Translation (of_nat (ws_level s)),
      AddressSize (of_nat (ws_level s))}"
  | (leaf) desc where "res = Inr (desc, s)"
      "phys_read_u64 rd (ws_base s OR walk_index va s) p = (Inr desc, p')"
      "desc AND 1 \<noteq> 0" "\<not> (desc AND 3 = 1 \<and> 3 \<le> ws_level s)" "desc AND 3 = 1 \<or> 3 \<le> ws_level s"
  | (table) desc p1 where "phys_read_u64 rd (ws_base s OR walk_index va s) p = (Inr desc, p1)"
      "desc AND 1 \<noteq> 0" "desc AND 3 \<noteq> 1" "ws_level s < 3" "\<not> oversize out desc"
      "walk_loop rd out va (walk_table desc s) p1 = (res, p')"
proof -
  obtain r1 p1 where rd: "phys_read_u64 rd (ws_base s OR walk_index va s) p = (r1, p1)" by fastforce
  show ?thesis
  proof (cases r1)
    case (Inl e)
    with rd assms have "res = Inl (ExternalWalk (of_nat (ws_level s)) e)"
      by (simp add: walk_loop.simps [of rd out va s])
    then show ?thesis by (cases e) (auto intro: fault)
  next
    case (Inr desc)
    let ?bad = "desc AND 1 = 0 \<or> desc AND 3 = 1 \<and> 3 \<le> ws_level s"
    let ?last = "desc AND 3 = 1 \<or> 3 \<le> ws_level s"
    have w: "(if ?bad then (Inl (Translation (of_nat (ws_level s))), p1)
        else if ?last then (Inr (desc, s), p1)
        else if oversize out desc then (Inl (AddressSize (of_nat (ws_level s))), p1)
        else walk_loop rd out va (walk_table desc s) p1) = (res, p')"
      using assms unfolding walk_loop.simps [of rd out va s] rd Inr
      by (simp only: Let_def prod.case sum.case)
    consider "?bad" | "\<not> ?bad" "?last" | "\<not> ?bad" "\<not> ?last" "oversize out desc"
      | "\<not> ?bad" "\<not> ?last" "\<not> oversize out desc" by blast
    then show ?thesis
    proof cases
      case 1
      with w show ?thesis by (intro fault) auto
    next
      case 2
      with w rd Inr show ?thesis by (intro leaf [of desc]) auto
    next
      case 3
      with w show ?thesis by (intro fault) auto
    next
      case 4
      with w rd Inr show ?thesis by (intro table [of desc p1]) auto
    qed
  qed
qed

lemma walk_loop_agree:
  assumes "walk_loop rd out va s p = (Inr (desc, s'), p')" "ws_level s \<le> 3" "ws_addrtop s < 56"
  shows "ws_level s' \<le> 3 \<and> ws_level s \<le> ws_level s' \<and>
    (agree_from (bottom_of (ws_level s')) va va' \<longrightarrow>
      walk_loop rd out va' s p = (Inr (desc, s'), p'))"
  using assms
proof (induction rd out va s p rule: walk_loop.induct)
  case (1 rd out va s p)
  from "1.prems"(1) show ?case
  proof (cases rule: walk_loop_round)
    case fault
    then show ?thesis by simp
  next
    case (leaf d)
    then show ?thesis
      using "1.prems"(2,3) walk_index_agree [of s va va']
      by (auto simp: walk_loop.simps [of rd out va' s])
  next
    case (table d p1)
    have "ws_level (walk_table d s) \<le> 3" "ws_addrtop (walk_table d s) < 56"
      using table(4) bottom_of_bounds(2) [of "ws_level s"] by simp_all
    with "1.IH" [OF refl table(1) [symmetric] refl] table
    have IH: "ws_level s' \<le> 3 \<and> ws_level s + 1 \<le> ws_level s' \<and>
        (agree_from (bottom_of (ws_level s')) va va' \<longrightarrow>
          walk_loop rd out va' (walk_table d s) p1 = (Inr (desc, s'), p'))"
      by auto
    then have "agree_from (bottom_of (ws_level s')) va va' \<Longrightarrow> walk_index va s = walk_index va' s"
      using bottom_of_antimono [of "ws_level s" "ws_level s'"] "1.prems"(3)
      by (auto elim: agree_from_mono intro: walk_index_agree)
    then show ?thesis using IH table by (auto simp: walk_loop.simps [of rd out va' s])
  qed
qed

text \<open>The block base and the offset of an address in a block of size \<open>sz\<close>.\<close>

definition in_block :: "u64 \<Rightarrow> u64 \<Rightarrow> u64 \<Rightarrow> u64" where
  "in_block sz base va = (base AND NOT (sz - 1)) OR (va AND (sz - 1))"

lemma leaf_pa_block:
  "in_block (2 ^ b) ((desc AND bits 47 b) OR (va AND low b)) va' =
    (desc AND bits 47 b) OR (va' AND low b)"
proof -
  have "2 ^ b - 1 = low b" by (simp add: low_def)
  then show ?thesis unfolding in_block_def by (auto simp: bit_eq_iff bit_simps)
qed

lemma oversize_leaf:
  assumes "b \<le> out"
  shows "oversize out ((desc AND bits 47 b) OR (va AND low b)) = oversize out (desc AND bits 47 b)"
proof -
  have "((desc AND bits 47 b) OR (va AND low b)) AND bits 47 out = (desc AND bits 47 b) AND bits 47 out"
    using assms by (intro and_bits_cong) (auto simp: bit_simps)
  then show ?thesis by (simp add: oversize_def)
qed

lemma walk_leaf_agree:
  assumes "walk_leaf r out va desc s = Inr t" "ws_level s \<le> 3" "32 \<le> out"
  shows "walk_leaf r out va' desc s = Inr (t\<lparr>t_pa := in_block (t_block_size t) (t_pa t) va'\<rparr>)"
proof -
  have lv: "1 \<le> ws_level s" using assms(1) by (auto simp: walk_leaf_def Let_def split: if_splits)
  then have "bottom_of (ws_level s) \<le> out" using bottom_of_bounds(3) [OF lv] assms(3) by simp
  then show ?thesis
    using assms(1) lv by (auto simp: walk_leaf_def Let_def oversize_leaf leaf_pa_block split: if_splits)
qed

lemma walk_leaf_fields:
  assumes "walk_leaf r out va desc s = Inr t"
  shows "t_level t = of_nat (ws_level s)" "t_block_size t = push_bit (bottom_of (ws_level s)) 1"
    "1 \<le> ws_level s"
    "t_pa t = (desc AND bits 47 (bottom_of (ws_level s))) OR (va AND low (bottom_of (ws_level s)))"
    "\<not> oversize out (t_pa t)" "t_asid t = asid_of r" "t_perms t \<noteq> None"
    "\<exists>a. t_attr_index t = Some (ucast (a AND 7 :: u64)) \<and> t_mair_attr t = mair_attr_of r (ucast (a AND 7))"
  using assms by (auto simp: walk_leaf_def Let_def split: if_splits)

lemma walk_tables_cases:
  assumes "walk_tables rd r pa_bits p va hi = (Inr t, p')"
  obtains desc s where
    "walk_loop rd (output_size r pa_bits) va (walk_start r hi) p = (Inr (desc, s), p')"
    "walk_leaf r (output_size r pa_bits) va desc s = Inr t" "ws_level s \<le> 3"
proof -
  from assms obtain desc s where w:
    "walk_loop rd (output_size r pa_bits) va (walk_start r hi) p = (Inr (desc, s), p')"
    "walk_leaf r (output_size r pa_bits) va desc s = Inr t"
    by (auto simp: walk_tables_def Let_def split: if_splits prod.splits sum.splits)
  moreover have "ws_level s \<le> 3"
    using walk_loop_agree [OF w(1)] walk_start_fields [of r hi] by simp
  ultimately show ?thesis using that by blast
qed

lemma walk_tables_block:
  assumes w: "walk_tables rd r pa_bits p va hi = (Inr t, p')" and "32 \<le> pa_bits"
    and a: "agree_from (bottom_of (unat (t_level t))) va va'"
  shows "walk_tables rd r pa_bits p va' hi =
    (Inr (t\<lparr>t_pa := in_block (t_block_size t) (t_pa t) va'\<rparr>), p')"
proof -
  from w obtain desc s where s:
    "walk_loop rd (output_size r pa_bits) va (walk_start r hi) p = (Inr (desc, s), p')"
    "walk_leaf r (output_size r pa_bits) va desc s = Inr t" "ws_level s \<le> 3"
    by (rule walk_tables_cases)
  have "unat (t_level t) = ws_level s"
    using walk_leaf_fields(1) [OF s(2)] s(3) by (simp add: unat_of_nat)
  with a have "walk_loop rd (output_size r pa_bits) va' (walk_start r hi) p = (Inr (desc, s), p')"
    using walk_loop_agree [OF s(1)] walk_start_fields [of r hi] by simp
  moreover have "walk_leaf r (output_size r pa_bits) va' desc s =
      Inr (t\<lparr>t_pa := in_block (t_block_size t) (t_pa t) va'\<rparr>)"
    using walk_leaf_agree [OF s(2,3)] output_size_bounds(1) [OF assms(2)] by simp
  ultimately show ?thesis
    using w by (auto simp: walk_tables_def Let_def split: if_splits)
qed

subsection \<open>Levels of faults\<close>

lemma walk_loop_fault_level:
  "walk_loop rd out va s p = (Inl k, p') \<Longrightarrow> ws_level s \<le> 3 \<Longrightarrow>
   \<exists>l. fault_level k = Some l \<and> l \<le> 3 \<and> fsc k \<noteq> None"
proof (induction rd out va s p rule: walk_loop.induct)
  case (1 rd out va s p)
  have l: "of_nat (ws_level s) \<le> (3 :: u8)"
    using "1.prems"(2) by (simp add: word_le_nat_alt unat_of_nat)
  from "1.prems"(1) show ?case
  proof (cases rule: walk_loop_round)
    case (table d p1)
    then show ?thesis using "1.IH" [OF refl table(1) [symmetric] refl] by simp
  qed (use l in auto)
qed

subsection \<open>Properties\<close>

lemma unat_less_exp_iff_bits: "unat (w :: u64) < 2 ^ n \<longleftrightarrow> (\<forall>k. n \<le> k \<longrightarrow> \<not> bit w k)"
proof -
  have "unat w < 2 ^ n \<longleftrightarrow> take_bit n w = w" by (simp add: take_bit_word_self_iff)
  also have "\<dots> \<longleftrightarrow> (\<forall>k. n \<le> k \<longrightarrow> \<not> bit w k)"
  proof
    assume t: "take_bit n w = w"
    show "\<forall>k. n \<le> k \<longrightarrow> \<not> bit w k"
      by (metis t bit_take_bit_iff not_le)
  next
    assume "\<forall>k. n \<le> k \<longrightarrow> \<not> bit w k"
    then show "take_bit n w = w" by (intro bit_eqI) (auto simp: bit_take_bit_iff not_le [symmetric])
  qed
  finally show ?thesis .
qed

lemma attr_index_le: "(ucast (a AND 7 :: u64) :: u8) \<le> 7"
proof -
  have "a AND 7 = take_bit 3 a" by (simp add: take_bit_eq_mask mask_eq_exp_minus_1)
  then have "unat (a AND 7 :: u64) < 2 ^ 3"
    by (simp only: unat_less_exp_iff_bits) (simp add: bit_simps)
  then show ?thesis
    by (simp add: word_le_nat_alt unsigned_ucast_eq take_bit_nat_eq_self)
qed

lemma walk_leaf_bounds:
  assumes "walk_leaf r out va desc s = Inr t" "out \<le> 48"
  shows "unat (t_pa t) < 2 ^ out" "t_pa t AND (t_block_size t - 1) = va AND (t_block_size t - 1)"
proof -
  define b where "b = bottom_of (ws_level s)"
  note f = walk_leaf_fields [OF assms(1), folded b_def]
  have b: "b \<le> 30" using bottom_of_bounds(3) [OF f(3)] by (simp add: b_def)
  have "\<not> bit (t_pa t) k" if "out \<le> k" for k
    using f(4,5) b assms(2) that
    by (cases "k \<le> 47") (auto simp: oversize_def and_bits_eq_0 bit_simps)
  then show "unat (t_pa t) < 2 ^ out" by (simp add: unat_less_exp_iff_bits)
  have "t_block_size t - 1 = low b" by (simp add: f(2) low_def)
  then show "t_pa t AND (t_block_size t - 1) = va AND (t_block_size t - 1)"
    using b by (auto simp: f(4) bit_eq_iff bit_simps)
qed

text \<open>
  C23. What a successful walk returns: a leaf of level 1, 2 or 3 with the block size of that
  level, an output address within the configured size (\<^verbatim>\<open>TCR.IPS\<close> limited by \<^verbatim>\<open>PARange\<close>) that has
  the offset of the virtual address in its block, the current ASID, permissions, and a MAIR
  byte chosen by the attribute index.
\<close>

theorem walk_tables_output:
  assumes "walk_tables rd r pa_bits p va hi = (Inr t, p')" "pa_bits \<le> 48"
  shows "t_level t \<in> {1, 2, 3} \<and> t_block_size t = 2 ^ (12 + 9 * (3 - unat (t_level t))) \<and>
    unat (t_pa t) < 2 ^ output_size r pa_bits \<and>
    t_pa t AND (t_block_size t - 1) = va AND (t_block_size t - 1) \<and>
    t_asid t = asid_of r \<and> t_perms t \<noteq> None \<and>
    (\<exists>a. t_attr_index t = Some a \<and> a \<le> 7 \<and> t_mair_attr t = mair_attr_of r a)"
proof -
  from assms(1) obtain desc s where s:
    "walk_leaf r (output_size r pa_bits) va desc s = Inr t" "ws_level s \<le> 3"
    by (rule walk_tables_cases)
  note f = walk_leaf_fields [OF s(1)]
  have l: "ws_level s = 1 \<or> ws_level s = 2 \<or> ws_level s = 3" using s(2) f(3) by auto
  then have "t_level t \<in> {1, 2, 3}" "unat (t_level t) = ws_level s"
    by (auto simp: f(1))
  moreover have "t_block_size t = 2 ^ (12 + 9 * (3 - ws_level s))"
    by (simp add: f(2) bottom_of_def grain_def stride_def mult.commute add.commute)
  moreover have "output_size r pa_bits \<le> 48" using output_size_bounds(2) assms(2) le_trans by blast
  ultimately show ?thesis using f walk_leaf_bounds [OF s(1)] attr_index_le by auto
qed

text \<open>A memory that answers every read with one descriptor, and registers with a 39-bit space.\<close>

definition const_read :: "u64 \<Rightarrow> unit phys_read" where
  "const_read desc pa n p = (Inr (le_bytes n desc), p)"

definition demo_regs :: mmu_regs where
  "demo_regs = \<lparr>sctlr = 1, tcr = 25, ttbr0 = 0, ttbr1 = 0, mair = 0xff\<rparr>"

definition demo_translation :: translation where
  "demo_translation = \<lparr>t_pa = 0x12345, t_level = 1, t_block_size = 0x40000000,
    t_perms = Some \<lparr>ap = 1, uxn = False, pxn = False\<rparr>, t_attr_index = Some 0, t_mair_attr = 0xff,
    t_sh = 0, t_ng = False, t_asid = 0\<rparr>"

lemma demo_walk:
  "walk_tables (const_read 0x441) demo_regs 40 () 0x12345 False = (Inr demo_translation, ())"
  by code_simp

theorem walk_tables_output_witness:
  "walk_tables (const_read 0x441) demo_regs 40 () 0x12345 False = (Inr demo_translation, ()) \<and>
   unat (t_pa demo_translation) < 2 ^ output_size demo_regs 40 \<and>
   t_block_size demo_translation = 2 ^ (12 + 9 * (3 - unat (t_level demo_translation)))"
  using walk_tables_output [OF demo_walk] demo_walk by simp

lemma fsc_bits:
  assumes "fsc k = Some c" "\<forall>l. fault_level k = Some l \<longrightarrow> l \<le> 3" "6 \<le> n"
  shows "\<not> bit c n"
proof -
  have "\<not> bit l n" if "l \<le> (3 :: u8)" for l
    using that assms(3) by (intro word_small_no_bit [of l 6]) (simp_all add: word_le_nat_alt)
  moreover have m: "\<not> bit (d :: u8) n" if "d < 64" for d
    using that assms(3) by (intro word_small_no_bit [of d 6]) (simp_all add: word_less_nat_alt)
  have "\<not> bit (4 :: u8) n" "\<not> bit (8 :: u8) n" "\<not> bit (12 :: u8) n" "\<not> bit (16 :: u8) n"
    "\<not> bit (20 :: u8) n" "\<not> bit (33 :: u8) n"
    by (intro m; simp)+
  ultimately show ?thesis using assms by (cases k) (auto simp: bit_or_iff)
qed

definition abort_class :: "access \<Rightarrow> u8 \<Rightarrow> u64" where
  "abort_class acc from_el =
    (if acc = Fetch then if from_el = 0 then insn_abort_lower else insn_abort_same
     else if from_el = 0 then data_abort_lower else data_abort_same)"

lemma abort_class_bits: "bit (abort_class acc from_el) n \<Longrightarrow> n < 6"
  by (rule ccontr) (use word_small_no_bit [of "abort_class acc from_el" 6 n] in
    \<open>simp add: abort_class_def insn_abort_lower_def insn_abort_same_def data_abort_lower_def
      data_abort_same_def split: if_splits\<close>)

lemma esr_alt:
  "fsc (f_kind f) = Some c \<Longrightarrow> esr f from_el = Some (push_bit 26 (abort_class (f_access f) from_el) OR
     push_bit 25 1 OR (push_bit 9 (of_bool (fault_ea (f_kind f))) OR
       push_bit 6 (of_bool (f_access f = Write)) OR ucast c))"
  by (cases "f_access f") (simp_all add: esr_def abort_class_def Let_def)

lemma esr_word:
  fixes cls :: u64 and c :: u8 and ea wr :: bool
  assumes "\<And>n. bit cls n \<Longrightarrow> n < 6" "\<And>n. bit c n \<Longrightarrow> n < 6"
  defines "e \<equiv> push_bit 26 cls OR push_bit 25 1 OR
    (push_bit 9 (of_bool ea) OR push_bit 6 (of_bool wr) OR ucast c)"
  shows "drop_bit 26 e = cls" "bit e 25" "take_bit 6 e = ucast c" "bit e 6 = wr" "bit e 9 = ea"
proof -
  have e: "bit e n \<longleftrightarrow> (26 \<le> n \<and> bit cls (n - 26)) \<or> n = 25 \<or> (n = 9 \<and> ea) \<or> (n = 6 \<and> wr) \<or> bit c n"
    for n
  proof -
    have "bit (push_bit 26 cls) n = (26 \<le> n \<and> bit cls (n - 26))" for n
      using assms(1) [of "n - 26"] by (auto simp: bit_push_bit_iff)
    moreover have "bit (push_bit k (of_bool b) :: u64) n = (n = k \<and> b)" if "k < 64" for k b n
      using that by (cases b) (auto simp: bit_simps)
    moreover have "bit (ucast c :: u64) n = bit c n"
      using assms(2) [of n] by (auto simp: bit_simps)
    moreover have "bit (push_bit 25 1 :: u64) n = (n = 25)"
      by (simp only: bit_push_bit_iff bit_1_iff) auto
    ultimately show ?thesis unfolding e_def bit_or_iff by auto
  qed
  show "bit e 25" "bit e 6 = wr" "bit e 9 = ea" using e assms(2) [of 6] assms(2) [of 9] by auto
  show "drop_bit 26 e = cls"
    by (intro bit_word_eqI) (auto simp: bit_drop_bit_eq e dest: assms(2))
  show "take_bit 6 e = ucast c"
    using assms(2) by (intro bit_word_eqI) (auto simp: bit_take_bit_iff e bit_ucast_iff)
qed



text \<open>
  C25. Write-xor-execute: under WXN no access level can execute what it can write, and a page
  writable from EL0 is never executable at EL1, with or without WXN.
\<close>

theorem allows_write_xor_execute:
  "(allows p Write el True \<longrightarrow> \<not> allows p Fetch el True) \<and>
   (allows p Write 0 w \<and> el \<noteq> 0 \<longrightarrow> \<not> allows p Fetch el w)"
  by (auto simp: allows_def Let_def)

theorem allows_write_xor_execute_witness:
  "allows \<lparr>ap = 1, uxn = False, pxn = False\<rparr> Write 0 False \<and>
   \<not> allows \<lparr>ap = 1, uxn = False, pxn = False\<rparr> Fetch 1 False"
  using allows_write_xor_execute [of "\<lparr>ap = 1, uxn = False, pxn = False\<rparr>" 1 False]
  by (auto simp: allows_def)

end
