(* ===== verification/Tlb.thy ===== *)
theory Tlb
  imports Mmu_Walk Snapshot
begin

text \<open>
  The software TLB of \<^verbatim>\<open>crates/vetro-mmu/src/tlb.rs\<close> and the TLBI operations
  (\<^verbatim>\<open>TlbiOp\<close> of \<^verbatim>\<open>crates/vetro-cpu/src/sys/mod.rs\<close>). The slot generations and the invalidation
  counter are \<open>nat\<close>: they are 64-bit counters of events. \<^verbatim>\<open>Option::expect\<close> of a field that every
  walk fills is \<open>the\<close>. The state a failed restore leaves behind is not modelled, nor the
  \<^verbatim>\<open>Debug\<close> rendering of an entry in its message.
\<close>

subsection \<open>Model\<close>

datatype tlbi_op =
    Vmalle1 | Vae1 | Aside1 | Vaae1 | Vale1 | Vaale1
  | Vmalle1is | Vae1is | Aside1is | Vaae1is | Vale1is | Vaale1is

definition from_sys :: "u32 \<Rightarrow> u32 \<Rightarrow> u32 \<Rightarrow> u32 \<Rightarrow> tlbi_op option" where
  "from_sys op1 crn crm op2 =
    (if op1 \<noteq> 0 \<or> crn \<noteq> 8 then None
     else if crm = 3 then
       if op2 = 0 then Some Vmalle1is else if op2 = 1 then Some Vae1is
       else if op2 = 2 then Some Aside1is else if op2 = 3 then Some Vaae1is
       else if op2 = 5 then Some Vale1is else if op2 = 7 then Some Vaale1is else None
     else if crm = 7 then
       if op2 = 0 then Some Vmalle1 else if op2 = 1 then Some Vae1
       else if op2 = 2 then Some Aside1 else if op2 = 3 then Some Vaae1
       else if op2 = 5 then Some Vale1 else if op2 = 7 then Some Vaale1 else None
     else None)"

definition is_broadcast :: "tlbi_op \<Rightarrow> bool" where
  "is_broadcast op \<longleftrightarrow> op \<in> {Vmalle1is, Vae1is, Aside1is, Vaae1is, Vale1is, Vaale1is}"

definition va_mask :: u64 where "va_mask = push_bit 56 1 - 1"

definition tlb_entries :: nat where "tlb_entries = 512"

record tlb_entry =
  e_va_base :: u64
  e_size :: u64
  e_pa_base :: u64
  e_asid :: u16
  e_global :: bool
  e_level :: u8
  e_perms :: perms
  e_attr_index :: u8
  e_sh :: u8

definition entry_new :: "u64 \<Rightarrow> translation \<Rightarrow> tlb_entry" where
  "entry_new key t =
    (let m = NOT (t_block_size t - 1)
     in \<lparr>e_va_base = key AND m, e_size = t_block_size t, e_pa_base = t_pa t AND m, e_asid = t_asid t,
         e_global = (\<not> t_ng t), e_level = t_level t, e_perms = the (t_perms t),
         e_attr_index = the (t_attr_index t), e_sh = t_sh t\<rparr>)"

definition entry_contains :: "u64 \<Rightarrow> tlb_entry \<Rightarrow> bool" where
  "entry_contains key e \<longleftrightarrow> key - e_va_base e < e_size e"

definition entry_translation :: "u64 \<Rightarrow> mmu_regs \<Rightarrow> tlb_entry \<Rightarrow> translation" where
  "entry_translation key r e =
    \<lparr>t_pa = e_pa_base e + (key - e_va_base e), t_level = e_level e, t_block_size = e_size e,
     t_perms = Some (e_perms e), t_attr_index = Some (e_attr_index e),
     t_mair_attr = mair_attr_of r (e_attr_index e), t_sh = e_sh e, t_ng = (\<not> e_global e),
     t_asid = e_asid e\<rparr>"

definition tlbi_va :: "u64 \<Rightarrow> u64" where
  "tlbi_va xt = push_bit 12 (xt AND (push_bit 44 1 - 1))"

definition tlbi_asid :: "u64 \<Rightarrow> u16" where
  "tlbi_asid xt = ucast (drop_bit 48 xt)"

datatype inval = InvalAll | InvalVa u64

definition log_len :: nat where "log_len = 64"

record tlb =
  entries :: "tlb_entry option list"
  gens :: "nat list"
  flushes :: nat
  inval_log :: "inval list"

definition tlb_new :: tlb where
  "tlb_new = \<lparr>entries = replicate tlb_entries None, gens = replicate tlb_entries 0, flushes = 0,
    inval_log = replicate log_len InvalAll\<rparr>"

definition slot :: "u64 \<Rightarrow> nat" where
  "slot key = unat (drop_bit 12 key AND (of_nat tlb_entries - 1))"

definition generation :: "nat \<Rightarrow> tlb \<Rightarrow> nat" where
  "generation i t = gens t ! i"

definition lookup :: "u64 \<Rightarrow> u16 \<Rightarrow> tlb \<Rightarrow> tlb_entry option" where
  "lookup key asid t = (case entries t ! slot key of
      Some e \<Rightarrow> if entry_contains key e \<and> (e_global e \<or> e_asid e = asid) then Some e else None
    | None \<Rightarrow> None)"

definition tlb_insert :: "u64 \<Rightarrow> tlb_entry \<Rightarrow> tlb \<Rightarrow> tlb" where
  "tlb_insert key e t =
    (let s = slot key in t\<lparr>entries := (entries t)[s := Some e], gens := (gens t)[s := gens t ! s + 1]\<rparr>)"

definition invalidations_since :: "nat \<Rightarrow> tlb \<Rightarrow> inval list option" where
  "invalidations_since start t =
    (if flushes t < start then None
     else if flushes t - start \<le> log_len
     then Some (map (\<lambda>i. inval_log t ! (i mod log_len)) [start..<flushes t]) else None)"

definition note_inval :: "inval \<Rightarrow> tlb \<Rightarrow> tlb" where
  "note_inval i t =
    t\<lparr>inval_log := (inval_log t)[flushes t mod log_len := i], flushes := flushes t + 1\<rparr>"

definition tlb_len :: "tlb \<Rightarrow> nat" where
  "tlb_len t = length (filter (\<lambda>e. e \<noteq> None) (entries t))"

definition is_hit :: "(tlb_entry \<Rightarrow> bool) \<Rightarrow> tlb_entry option \<Rightarrow> bool" where
  "is_hit pred o' = (case o' of Some e \<Rightarrow> pred e | None \<Rightarrow> False)"

definition remove_if :: "(tlb_entry \<Rightarrow> bool) \<Rightarrow> tlb \<Rightarrow> tlb" where
  "remove_if pred t =
    t\<lparr>entries := map (\<lambda>o'. if is_hit pred o' then None else o') (entries t),
      gens := map2 (\<lambda>o' g. if is_hit pred o' then g + 1 else g) (entries t) (gens t)\<rparr>"

definition flush_all :: "tlb \<Rightarrow> tlb" where
  "flush_all t =
    (let t1 = note_inval InvalAll t
     in t1\<lparr>entries := replicate (length (entries t1)) None, gens := map (\<lambda>g. g + 1) (gens t1)\<rparr>)"

definition flush_va :: "u64 \<Rightarrow> u16 \<Rightarrow> tlb \<Rightarrow> tlb" where
  "flush_va va asid t =
    (let key = va AND va_mask
     in remove_if (\<lambda>e. entry_contains key e \<and> (e_global e \<or> e_asid e = asid)) t)"

definition flush_asid :: "u16 \<Rightarrow> tlb \<Rightarrow> tlb" where
  "flush_asid asid t = remove_if (\<lambda>e. \<not> e_global e \<and> e_asid e = asid) t"

definition flush_va_all_asids :: "u64 \<Rightarrow> tlb \<Rightarrow> tlb" where
  "flush_va_all_asids va t = (let key = va AND va_mask in remove_if (entry_contains key) t)"

definition tlbi :: "tlbi_op \<Rightarrow> u64 \<Rightarrow> tlb \<Rightarrow> tlb" where
  "tlbi op xt t =
    (let t1 = note_inval
           (if op \<in> {Vae1, Vae1is, Vale1, Vale1is, Vaae1, Vaae1is, Vaale1, Vaale1is}
            then InvalVa (tlbi_va xt) else InvalAll) t
     in if op \<in> {Vmalle1, Vmalle1is} then flush_all t1
        else if op \<in> {Vae1, Vae1is, Vale1, Vale1is} then flush_va (tlbi_va xt) (tlbi_asid xt) t1
        else if op \<in> {Aside1, Aside1is} then flush_asid (tlbi_asid xt) t1
        else flush_va_all_asids (tlbi_va xt) t1)"

text \<open>Snapshot: the valid entries with their slots.\<close>

definition w_entry :: "nat \<times> tlb_entry \<Rightarrow> writer \<Rightarrow> writer" where
  "w_entry se w = (case se of (s, e) \<Rightarrow>
    w_u8 (e_sh e) (w_u8 (e_attr_index e) (w_bool (pxn (e_perms e)) (w_bool (uxn (e_perms e))
      (w_u8 (ap (e_perms e)) (w_u8 (e_level e) (w_bool (e_global e) (w_u16 (e_asid e)
        (w_u64 (e_pa_base e) (w_u64 (e_size e) (w_u64 (e_va_base e) (w_u32 (of_nat s) w))))))))))))"

fun valid_from :: "nat \<Rightarrow> tlb_entry option list \<Rightarrow> (nat \<times> tlb_entry) list" where
  "valid_from i [] = []"
| "valid_from i (None # es) = valid_from (i + 1) es"
| "valid_from i (Some e # es) = (i, e) # valid_from (i + 1) es"

definition tlb_save :: "tlb \<Rightarrow> writer \<Rightarrow> writer" where
  "tlb_save t w = fold w_entry (valid_from 0 (entries t)) (w_u32 (of_nat (tlb_len t)) w)"

definition r_entry :: "tlb_entry read" where
  "r_entry r =
    rbind (r_u64 r) (\<lambda>(va_base, r). rbind (r_u64 r) (\<lambda>(size, r). rbind (r_u64 r) (\<lambda>(pa_base, r).
    rbind (r_u16 r) (\<lambda>(asid, r). rbind (r_bool r) (\<lambda>(global, r). rbind (r_u8 r) (\<lambda>(level, r).
    rbind (r_u8 r) (\<lambda>(a, r). rbind (r_bool r) (\<lambda>(u, r). rbind (r_bool r) (\<lambda>(x, r).
    rbind (r_u8 r) (\<lambda>(attr_index, r). rbind (r_u8 r) (\<lambda>(sh, r).
      Inr (\<lparr>e_va_base = va_base, e_size = size, e_pa_base = pa_base, e_asid = asid, e_global = global,
            e_level = level, e_perms = \<lparr>ap = a, uxn = u, pxn = x\<rparr>, e_attr_index = attr_index,
            e_sh = sh\<rparr>, r))))))))))))"

definition is_power_of_two :: "u64 \<Rightarrow> bool" where
  "is_power_of_two w \<longleftrightarrow> w \<noteq> 0 \<and> w AND (w - 1) = 0"

definition entry_accepted :: "tlb_entry \<Rightarrow> bool" where
  "entry_accepted e \<longleftrightarrow> is_power_of_two (e_size e) \<and> e_va_base e AND (e_size e - 1) = 0 \<and>
    e_attr_index e \<le> 7"

fun restore_entries ::
  "nat \<Rightarrow> nat option \<Rightarrow> tlb_entry option list \<Rightarrow> reader \<Rightarrow> snap_error + tlb_entry option list \<times> reader" where
  "restore_entries 0 prev es r = Inr (es, r)"
| "restore_entries (Suc n) prev es r =
    rbind (r_u32 r) (\<lambda>(s32, r). let s = unat s32 in
      if tlb_entries \<le> s \<or> (case prev of Some l \<Rightarrow> s \<le> l | None \<Rightarrow> False)
      then Inl (Invalid (''TLB slot '' @ dec s))
      else rbind (r_entry r) (\<lambda>(e, r).
        if \<not> entry_accepted e then Inl (Invalid ''TLB entry '')
        else restore_entries n (Some s) (es[s := Some e]) r))"

definition tlb_restore :: "tlb \<Rightarrow> reader \<Rightarrow> snap_error + tlb \<times> reader" where
  "tlb_restore t r =
    rbind (r_u32 r) (\<lambda>(n32, r). let n = unat n32 in
      if tlb_entries < n then Inl (Invalid (dec n @ '' entries in the TLB''))
      else rbind (restore_entries n None (replicate (length (entries t)) None) r) (\<lambda>(es, r).
        Inr (note_inval InvalAll (t\<lparr>entries := es, gens := map (\<lambda>g. g + 1) (gens t)\<rparr>), r)))"

subsection \<open>Entries and blocks\<close>

definition block_bits :: "nat \<Rightarrow> tlb_entry \<Rightarrow> bool" where
  "block_bits b e \<longleftrightarrow> b \<in> {12, 21, 30} \<and> e_size e = 2 ^ b \<and> e_va_base e AND mask b = 0 \<and>
    e_pa_base e AND mask b = 0"

definition wf_entry :: "tlb_entry \<Rightarrow> bool" where
  "wf_entry e \<longleftrightarrow> (\<exists>b. block_bits b e) \<and> e_attr_index e \<le> 7"

lemma va_mask_mask: "va_mask = mask 56"
  by (simp add: va_mask_def mask_eq_exp_minus_1)

lemma slot_less: "slot key < tlb_entries"
proof -
  have "drop_bit 12 key AND 511 \<le> 511" by (rule word_and_le1)
  then show ?thesis by (simp add: slot_def tlb_entries_def word_le_nat_alt)
qed

lemma slot_page: "drop_bit 12 key = drop_bit 12 key' \<Longrightarrow> slot key = slot key'"
  by (simp add: slot_def)

lemma block_bitsD:
  assumes "block_bits b e"
  shows "12 \<le> b" "b \<le> 30" "e_size e = 2 ^ b" "e_va_base e AND mask b = 0" "e_pa_base e AND mask b = 0"
  using assms by (auto simp: block_bits_def)

lemma and_mask_zeroD: "(w :: u64) AND mask b = 0 \<Longrightarrow> n < b \<Longrightarrow> \<not> bit w n"
  using bit_imp_le_length [of w n] by (auto simp: bit_eq_iff bit_simps)

lemma entry_contains_block:
  assumes "block_bits b e"
  shows "entry_contains key e \<longleftrightarrow> key AND NOT (mask b) = e_va_base e"
  using block_bitsD [OF assms] sub_block(1) [of "e_va_base e" b key] by (simp add: entry_contains_def)

lemma entry_pa_block:
  assumes "block_bits b e" "entry_contains key e"
  shows "t_pa (entry_translation key r e) = e_pa_base e OR (key AND mask b)"
proof -
  note b = block_bitsD [OF assms(1)]
  have "key - e_va_base e = key AND mask b"
    using assms sub_block(2) [OF b(4)] b(2) entry_contains_block [OF assms(1)] by simp
  moreover have "e_pa_base e + (key AND mask b) = e_pa_base e OR (key AND mask b)"
    using b(5) by (rule base_plus_offset) (simp add: and.assoc)
  ultimately show ?thesis by (simp add: entry_translation_def)
qed

lemma same_page_bits:
  fixes key key' :: u64
  assumes "drop_bit 12 key = drop_bit 12 key'" "12 \<le> n"
  shows "bit key n = bit key' n"
proof -
  have "bit (drop_bit 12 k) (n - 12) = bit k n" for k :: u64
    using assms(2) by (simp add: bit_drop_bit_eq)
  then show ?thesis using assms(1) by metis
qed

lemma entry_contains_page:
  assumes "wf_entry e" "drop_bit 12 key = drop_bit 12 key'"
  shows "entry_contains key e = entry_contains key' e"
proof -
  obtain b where b: "block_bits b e" using assms(1) by (auto simp: wf_entry_def)
  have "bit key n = bit key' n" if "b \<le> n" for n
    using same_page_bits [OF assms(2), of n] block_bitsD(1) [OF b] that by simp
  then have "key AND NOT (mask b) = key' AND NOT (mask b)"
    by (intro bit_word_eqI) (auto simp: bit_simps not_less)
  then show ?thesis by (simp add: entry_contains_block [OF b])
qed

lemma entry_pa_page:
  assumes "wf_entry e" "entry_contains key e" "drop_bit 12 key = drop_bit 12 key'"
  shows "(t_pa (entry_translation key r e) AND NOT (mask 12)) OR (key' AND mask 12) =
    t_pa (entry_translation key' r e)"
proof -
  obtain b where b: "block_bits b e" using assms(1) by (auto simp: wf_entry_def)
  have c': "entry_contains key' e" using assms entry_contains_page by blast
  have b12: "12 \<le> b" by (rule block_bitsD(1) [OF b])
  have low: "\<not> bit (e_pa_base e) n" if "n < 12" for n
    using and_mask_zeroD [OF block_bitsD(5) [OF b], of n] b12 that by simp
  have "bit (((e_pa_base e OR (key AND mask b)) AND NOT (mask 12)) OR (key' AND mask 12)) n =
      bit (e_pa_base e OR (key' AND mask b)) n" if "n < 64" for n
  proof (cases "n < 12")
    case True
    then show ?thesis using low [OF True] b12 by (simp add: bit_simps)
  next
    case False
    then show ?thesis using same_page_bits [OF assms(3), of n] that by (simp add: bit_simps)
  qed
  then show ?thesis
    unfolding entry_pa_block [OF b assms(2)] entry_pa_block [OF b c'] by (intro bit_word_eqI) simp
qed

lemma entry_new_block:
  assumes "t_block_size t = 2 ^ b" "b \<in> {12, 21, 30}"
  shows "block_bits b (entry_new key t)"
proof -
  have "(w AND NOT (2 ^ b - 1)) AND mask b = 0" for w :: u64
    by (simp add: mask_eq_exp_minus_1 [symmetric] and.assoc)
  then show ?thesis using assms by (simp add: block_bits_def entry_new_def Let_def)
qed

lemma entry_new_translation:
  assumes "t_block_size t = 2 ^ b" "b \<in> {12, 21, 30}" "t_perms t \<noteq> None"
    "t_attr_index t = Some a" "t_mair_attr t = mair_attr_of r a"
    "entry_contains (va' AND va_mask) (entry_new key t)"
  shows "entry_translation (va' AND va_mask) r (entry_new key t) =
    t\<lparr>t_pa := in_block (t_block_size t) (t_pa t) va'\<rparr>"
proof -
  have "b \<le> 30" using assms(2) by auto
  then have "mask 56 AND mask b = (mask b :: u64)"
    by (intro bit_word_eqI) (auto simp: bit_simps)
  then have "(va' AND va_mask) AND mask b = va' AND mask b"
    by (simp only: va_mask_mask and.assoc)
  with entry_pa_block [OF entry_new_block [OF assms(1,2)] assms(6), of r]
  have "t_pa (entry_translation (va' AND va_mask) r (entry_new key t)) =
      in_block (t_block_size t) (t_pa t) va'"
    by (simp add: entry_new_def in_block_def assms(1) mask_eq_exp_minus_1 Let_def)
  then show ?thesis
    using assms(3-5) by (cases t) (auto simp: entry_translation_def entry_new_def Let_def)
qed

lemma entry_new_contains:
  assumes "t_block_size t = 2 ^ b" "b \<in> {12, 21, 30}"
  shows "entry_contains key' (entry_new key t) \<longleftrightarrow> key' AND NOT (mask b) = key AND NOT (mask b)"
  using entry_contains_block [OF entry_new_block [OF assms], of key' key] assms(1)
  by (simp add: entry_new_def Let_def mask_eq_exp_minus_1)

subsection \<open>The TLB's invariant\<close>

definition wf_tlb :: "tlb \<Rightarrow> bool" where
  "wf_tlb t \<longleftrightarrow> length (entries t) = tlb_entries \<and> length (gens t) = tlb_entries \<and>
    length (inval_log t) = log_len \<and> (\<forall>e. Some e \<in> set (entries t) \<longrightarrow> wf_entry e)"

lemma wf_tlb_new: "wf_tlb tlb_new"
  by (auto simp: wf_tlb_def tlb_new_def)

lemma wf_tlb_note: "wf_tlb t \<Longrightarrow> wf_tlb (note_inval i t)"
  by (simp add: wf_tlb_def note_inval_def)

lemma wf_tlb_insert: "wf_tlb t \<Longrightarrow> wf_entry e \<Longrightarrow> wf_tlb (tlb_insert key e t)"
  by (auto simp: wf_tlb_def tlb_insert_def Let_def dest: set_update_subset_insert [THEN subsetD])

lemma wf_tlb_remove: "wf_tlb t \<Longrightarrow> wf_tlb (remove_if P t)"
  by (auto simp: wf_tlb_def remove_if_def split: if_splits)

lemma wf_tlb_flush_all: "wf_tlb t \<Longrightarrow> wf_tlb (flush_all t)"
  by (auto simp: wf_tlb_def flush_all_def note_inval_def Let_def)

lemma wf_tlb_tlbi: "wf_tlb t \<Longrightarrow> wf_tlb (tlbi op xt t)"
  by (auto simp: tlbi_def flush_va_def flush_asid_def flush_va_all_asids_def Let_def
      intro!: wf_tlb_remove wf_tlb_flush_all wf_tlb_note)

lemmas wf_tlb_ops = wf_tlb_new wf_tlb_note wf_tlb_insert wf_tlb_remove wf_tlb_flush_all wf_tlb_tlbi

lemma wf_tlb_entry: "wf_tlb t \<Longrightarrow> entries t ! i = Some e \<Longrightarrow> i < tlb_entries \<Longrightarrow> wf_entry e"
  unfolding wf_tlb_def by (metis nth_mem)

lemma lookup_SomeD:
  "lookup key asid t = Some e \<Longrightarrow> entries t ! slot key = Some e \<and> entry_contains key e \<and>
    (e_global e \<or> e_asid e = asid)"
  by (auto simp: lookup_def split: option.splits if_splits)

text \<open>What a TLBI is meant to remove.\<close>

fun tlbi_covers :: "tlbi_op \<Rightarrow> u64 \<Rightarrow> tlb_entry \<Rightarrow> bool" where
  "tlbi_covers op xt e = (if op \<in> {Vmalle1, Vmalle1is} then True
    else if op \<in> {Aside1, Aside1is} then \<not> e_global e \<and> e_asid e = tlbi_asid xt
    else entry_contains (tlbi_va xt) e \<and>
      (op \<in> {Vaae1, Vaae1is, Vaale1, Vaale1is} \<or> e_global e \<or> e_asid e = tlbi_asid xt))"

declare tlbi_covers.simps [simp del]

lemma tlbi_va_key: "tlbi_va xt AND va_mask = tlbi_va xt"
  unfolding tlbi_va_def low_def [symmetric] va_mask_mask
  by (rule bit_word_eqI) (auto simp: bit_simps)

lemma tlbi_entries:
  "entries (tlbi op xt t) = map (\<lambda>o'. if is_hit (tlbi_covers op xt) o' then None else o') (entries t)"
proof -
  have "map (\<lambda>o'. if is_hit (\<lambda>e. True) o' then None else o') es = replicate (length es) None" for es
    by (induction es) (auto simp: is_hit_def split: option.splits)
  moreover have "tlbi_covers op xt = (\<lambda>e. tlbi_covers op xt e)" by simp
  ultimately show ?thesis
    by (cases op) (simp_all add: tlbi_def tlbi_covers.simps flush_va_def flush_asid_def flush_all_def
        flush_va_all_asids_def remove_if_def note_inval_def tlbi_va_key Let_def)
qed

lemma lookup_map_filter:
  assumes "entries t' = map (\<lambda>o'. if is_hit P o' then None else o') (entries t)"
    "length (entries t) = tlb_entries"
  shows "lookup key asid t' = (case lookup key asid t of
      Some e \<Rightarrow> if P e then None else Some e | None \<Rightarrow> None)"
  using assms slot_less [of key]
  by (auto simp: lookup_def is_hit_def split: option.splits)

subsection \<open>The log of invalidations\<close>

lemma note_inval_fields [simp]:
  "flushes (note_inval i t) = flushes t + 1" "length (inval_log (note_inval i t)) = length (inval_log t)"
  by (simp_all add: note_inval_def)

lemma fold_note_fields:
  "flushes (fold note_inval is t) = flushes t + length is"
  "length (inval_log (fold note_inval is t)) = length (inval_log t)"
  by (induction "is" arbitrary: t) simp_all

lemma fold_note_log:
  assumes "length (inval_log t) = log_len" "length is \<le> log_len" "j < length is"
  shows "inval_log (fold note_inval is t) ! ((flushes t + j) mod log_len) = is ! j"
  using assms
proof (induction "is" arbitrary: j rule: rev_induct)
  case Nil
  then show ?case by simp
next
  case (snoc i xs)
  let ?t = "fold note_inval xs t"
  have l: "length (inval_log ?t) = log_len" and f: "flushes ?t = flushes t + length xs"
    using snoc.prems(1) by (simp_all add: fold_note_fields)
  have upd: "inval_log (fold note_inval (xs @ [i]) t) =
      (inval_log ?t)[(flushes t + length xs) mod log_len := i]"
    by (simp add: note_inval_def f)
  show ?case
  proof (cases "j = length xs")
    case True
    have "(flushes t + length xs) mod log_len < log_len" by (simp add: log_len_def)
    then show ?thesis using True upd l by simp
  next
    case False
    then have j: "j < length xs" using snoc.prems(3) by simp
    have "(flushes t + length xs) mod log_len \<noteq> (flushes t + j) mod log_len"
    proof
      assume "(flushes t + length xs) mod log_len = (flushes t + j) mod log_len"
      then have "length xs mod log_len = j mod log_len"
        by (simp add: mod_add_eq nat_mod_eq_iff log_len_def)
      then show False using j snoc.prems(2) by (simp add: log_len_def)
    qed
    then show ?thesis
      using snoc.IH [OF snoc.prems(1) _ j] snoc.prems(2) j upd by (simp add: nth_append)
  qed
qed

subsection \<open>Snapshot of the TLB\<close>

definition entry_body :: "tlb_entry \<Rightarrow> bytes" where
  "entry_body e =
    le_bytes 8 (e_va_base e) @ le_bytes 8 (e_size e) @ le_bytes 8 (e_pa_base e) @
    le_bytes 2 (e_asid e) @ [if e_global e then 1 else 0] @ [e_level e] @ [ap (e_perms e)] @
    [if uxn (e_perms e) then 1 else 0] @ [if pxn (e_perms e) then 1 else 0] @
    [e_attr_index e] @ [e_sh e]"

definition entry_img :: "nat \<times> tlb_entry \<Rightarrow> bytes" where
  "entry_img se = le_bytes 4 (of_nat (fst se) :: u32) @ entry_body (snd se)"

definition tlb_img :: "tlb \<Rightarrow> bytes" where
  "tlb_img t = le_bytes 4 (of_nat (tlb_len t) :: u32) @ concat (map entry_img (valid_from 0 (entries t)))"

definition tlb_fits :: "tlb \<Rightarrow> tlb \<Rightarrow> bool" where
  "tlb_fits t0 t \<longleftrightarrow> length (entries t0) = tlb_entries \<and> length (entries t) = tlb_entries \<and>
    (\<forall>e. Some e \<in> set (entries t) \<longrightarrow> entry_accepted e)"

definition tlb_restored :: "tlb \<Rightarrow> tlb \<Rightarrow> tlb" where
  "tlb_restored t0 t =
    note_inval InvalAll (t0\<lparr>entries := entries t, gens := map (\<lambda>g. g + 1) (gens t0)\<rparr>)"

lemma w_entry_raw: "w_entry se w = w_raw (entry_img se) w"
  by (simp add: w_entry_def entry_img_def entry_body_def codec_simps split: prod.split)

lemma r_entry_at: "r_entry (reader_at tg pre (entry_body e @ xs)) = Inr (e, reader_at tg (pre @ entry_body e) xs)"
  by (cases e, cases "e_perms e") (simp add: entry_body_def codec_simps r_entry_def)

lemma length_valid_from: "length (valid_from i es) = length (filter (\<lambda>e. e \<noteq> None) es)"
  by (induction i es rule: valid_from.induct) simp_all

lemma restore_entries_at:
  assumes "i = length done" "i + length es \<le> tlb_entries"
    "\<forall>e. Some e \<in> set es \<longrightarrow> entry_accepted e" "case prev of Some l \<Rightarrow> l < i | None \<Rightarrow> True"
  shows "restore_entries (length (valid_from i es)) prev (done @ replicate (length es) None)
      (reader_at tg pre (concat (map entry_img (valid_from i es)) @ xs)) =
    Inr (done @ es, reader_at tg (pre @ concat (map entry_img (valid_from i es))) xs)"
  using assms
proof (induction i es arbitrary: "done" prev pre rule: valid_from.induct)
  case (1 i)
  then show ?case by simp
next
  case (2 i es)
  from "2.IH" [of "done @ [None]" prev pre] "2.prems" show ?case
    by (auto split: option.splits)
next
  case (3 i e es)
  have u: "unat (of_nat i :: u32) = i" "i < tlb_entries"
    using "3.prems"(2) by (simp_all add: tlb_entries_def unat_of_nat)
  moreover have "(done @ None # replicate (length es) None)[i := Some e] =
      (done @ [Some e]) @ replicate (length es) None"
    using "3.prems"(1) by simp
  ultimately show ?case
    using "3.IH" [of "done @ [Some e]" "Some i" "pre @ entry_img (i, e)"] "3.prems"
    by (cases prev) (simp_all add: entry_img_def r_entry_at codec_simps Let_def)
qed

lemma tlb_save_raw: "tlb_save t w = w_raw (tlb_img t) w"
  using fold_w_raw [of "valid_from 0 (entries t)" w_entry entry_img]
  by (simp add: tlb_save_def tlb_img_def w_entry_raw codec_simps)

lemma tlb_len_less: "length (entries t) = tlb_entries \<Longrightarrow> tlb_len t \<le> tlb_entries"
  unfolding tlb_len_def by (metis length_filter_le)

interpretation tlbs: snapshot tlb_save tlb_restore tlb_img tlb_fits tlb_restored
proof
  show "tlb_save s w = w_raw (tlb_img s) w" for s w by (rule tlb_save_raw)
next
  fix t0 t :: tlb and tg pre xs
  assume f: "tlb_fits t0 t"
  then have n: "tlb_len t \<le> tlb_entries" by (simp add: tlb_fits_def tlb_len_less)
  then have "unat (of_nat (tlb_len t) :: u32) = tlb_len t"
    by (simp add: tlb_entries_def unat_of_nat)
  moreover have "restore_entries (tlb_len t) None (replicate (length (entries t0)) None)
      (reader_at tg q (concat (map entry_img (valid_from 0 (entries t))) @ xs)) =
    Inr (entries t, reader_at tg (q @ concat (map entry_img (valid_from 0 (entries t)))) xs)" for q
    using restore_entries_at [of 0 "[]" "entries t" None tg q xs] f
    by (simp add: tlb_fits_def tlb_len_def length_valid_from)
  ultimately show "tlb_restore t0 (reader_at tg pre (tlb_img t @ xs)) =
      Inr (tlb_restored t0 t, reader_at tg (pre @ tlb_img t) xs)"
    using n by (simp add: tlb_restore_def tlb_img_def codec_simps tlb_restored_def)
next
  show "tlb_img (tlb_restored t0 t) = tlb_img t" if "tlb_fits t0 t" for t0 t
    by (simp add: tlb_img_def tlb_restored_def tlb_len_def note_inval_def)
qed

lemma entry_accepted_wf: "wf_entry e \<Longrightarrow> entry_accepted e"
  by (auto simp: wf_entry_def block_bits_def entry_accepted_def is_power_of_two_def mask_eq_exp_minus_1)

lemma wf_tlb_fits: "wf_tlb t0 \<Longrightarrow> wf_tlb t \<Longrightarrow> tlb_fits t0 t"
  by (auto simp: tlb_fits_def wf_tlb_def entry_accepted_wf)

lemma tlbi_gens:
  assumes "length (entries t) = tlb_entries" "length (gens t) = tlb_entries" "i < tlb_entries"
  shows "generation i (tlbi op xt t) =
    (if op \<in> {Vmalle1, Vmalle1is} \<or> is_hit (tlbi_covers op xt) (entries t ! i)
     then generation i t + 1 else generation i t)"
proof -
  show ?thesis using assms
    by (cases op) (simp_all add: tlbi_def tlbi_covers.simps flush_va_def flush_asid_def flush_all_def
        flush_va_all_asids_def remove_if_def note_inval_def tlbi_va_key Let_def generation_def
        is_hit_def split: option.splits)
qed

text \<open>
  The entries an operation is meant for, by the architecture: all of them; those of an ASID
  that are not global; those whose page or block contains the address, of any ASID or global
  or of the given one.
\<close>

definition tlbi_target :: "tlbi_op \<Rightarrow> u64 \<Rightarrow> tlb_entry \<Rightarrow> bool" where
  "tlbi_target op xt e =
    (let in_block = (tlbi_va xt AND NOT (e_size e - 1) = e_va_base e);
         its_asid = (e_asid e = tlbi_asid xt)
     in case op of
          Vmalle1 \<Rightarrow> True | Vmalle1is \<Rightarrow> True
        | Aside1 \<Rightarrow> \<not> e_global e \<and> its_asid | Aside1is \<Rightarrow> \<not> e_global e \<and> its_asid
        | Vae1 \<Rightarrow> in_block \<and> (e_global e \<or> its_asid) | Vae1is \<Rightarrow> in_block \<and> (e_global e \<or> its_asid)
        | Vale1 \<Rightarrow> in_block \<and> (e_global e \<or> its_asid) | Vale1is \<Rightarrow> in_block \<and> (e_global e \<or> its_asid)
        | Vaae1 \<Rightarrow> in_block | Vaae1is \<Rightarrow> in_block | Vaale1 \<Rightarrow> in_block | Vaale1is \<Rightarrow> in_block)"

lemma tlbi_target_covers: "wf_entry e \<Longrightarrow> tlbi_target op xt e = tlbi_covers op xt e"
proof -
  assume "wf_entry e"
  then obtain b where b: "block_bits b e" by (auto simp: wf_entry_def)
  have "entry_contains (tlbi_va xt) e \<longleftrightarrow> tlbi_va xt AND NOT (e_size e - 1) = e_va_base e"
    using entry_contains_block [OF b] block_bitsD(3) [OF b] by (simp add: mask_eq_exp_minus_1)
  then show ?thesis by (cases op) (simp_all add: tlbi_target_def tlbi_covers.simps Let_def)
qed

subsection \<open>Properties\<close>

text \<open>
  C21. A TLBI forgets exactly the entries it is meant for: afterwards a lookup finds what it
  found before unless that entry is a target of the operation, and the generation of every
  slot whose content changed has grown (so copies of its translation are no longer used).
\<close>

theorem tlbi_exact:
  assumes "wf_tlb t"
  shows "lookup key asid (tlbi op xt t) = (case lookup key asid t of
      Some e \<Rightarrow> if tlbi_target op xt e then None else Some e | None \<Rightarrow> None) \<and>
    (\<forall>i < tlb_entries. entries (tlbi op xt t) ! i \<noteq> entries t ! i \<longrightarrow>
      generation i (tlbi op xt t) = generation i t + 1) \<and> wf_tlb (tlbi op xt t)"
proof (intro conjI allI impI)
  have len: "length (entries t) = tlb_entries" "length (gens t) = tlb_entries"
    using assms by (simp_all add: wf_tlb_def)
  have "wf_entry e" if "lookup key asid t = Some e" for e
    using lookup_SomeD [OF that] wf_tlb_entry [OF assms] slot_less by blast
  then show "lookup key asid (tlbi op xt t) = (case lookup key asid t of
      Some e \<Rightarrow> if tlbi_target op xt e then None else Some e | None \<Rightarrow> None)"
    using lookup_map_filter [OF tlbi_entries len(1)] by (simp add: tlbi_target_covers split: option.split)
  show "generation i (tlbi op xt t) = generation i t + 1"
    if "i < tlb_entries" "entries (tlbi op xt t) ! i \<noteq> entries t ! i" for i
    using that len by (simp add: tlbi_gens tlbi_entries split: if_splits)
  show "wf_tlb (tlbi op xt t)" using assms by (rule wf_tlb_tlbi)
qed

definition demo_tlb :: tlb where
  "demo_tlb = tlb_insert 0x12345 (entry_new 0x12345 demo_translation) tlb_new"

lemma wf_demo_tlb: "wf_tlb demo_tlb"
proof -
  have "block_bits 30 (entry_new 0x12345 demo_translation)"
    by (rule entry_new_block) (simp_all add: demo_translation_def)
  then show ?thesis
    unfolding demo_tlb_def
    by (intro wf_tlb_insert wf_tlb_new) (auto simp: wf_entry_def entry_new_def demo_translation_def)
qed

lemma demo_tlb_lookup: "lookup 0x12345 0 demo_tlb = Some (entry_new 0x12345 demo_translation)"
  by (simp add: demo_tlb_def tlb_insert_def Let_def lookup_def slot_def tlb_entries_def tlb_new_def
      entry_contains_def entry_new_def demo_translation_def)

theorem tlbi_exact_witness:
  "wf_tlb demo_tlb \<and> lookup 0x12345 0 demo_tlb = Some (entry_new 0x12345 demo_translation) \<and>
   lookup 0x12345 0 (tlbi Vaae1 0x34 demo_tlb) = None"
proof -
  have "tlbi_target Vaae1 0x34 (entry_new 0x12345 demo_translation)"
    by (simp add: tlbi_target_def tlbi_va_def entry_new_def demo_translation_def Let_def)
  then show ?thesis
    using tlbi_exact [OF wf_demo_tlb, of "0x12345" 0 Vaae1 "0x34"] wf_demo_tlb demo_tlb_lookup by simp
qed

text \<open>
  C26. The log of invalidations: whoever saw the counter at some point gets, as long as at
  most 64 invalidations happened since, exactly those invalidations in order, and otherwise
  is told that they are no longer all remembered.
\<close>

theorem invalidations_since_exact:
  assumes "length (inval_log t) = log_len"
  shows "invalidations_since (flushes t) (fold note_inval is t) =
    (if length is \<le> 64 then Some is else None)"
proof (cases "length is \<le> 64")
  case True
  then have "map (\<lambda>i. inval_log (fold note_inval is t) ! (i mod log_len)) [flushes t..<flushes t + length is] = is"
    using fold_note_log [OF assms] by (intro nth_equalityI) (auto simp: log_len_def)
  with True show ?thesis by (simp add: invalidations_since_def fold_note_fields log_len_def)
next
  case False
  then show ?thesis by (simp add: invalidations_since_def fold_note_fields log_len_def)
qed

theorem invalidations_since_exact_witness:
  "invalidations_since 0 (fold note_inval [InvalVa 4096, InvalAll] tlb_new) =
    Some [InvalVa 4096, InvalAll]"
  using invalidations_since_exact [of tlb_new "[InvalVa 4096, InvalAll]"]
  by (simp add: tlb_new_def)

end
