(* ===== verification/Mmu.thy ===== *)
theory Mmu
  imports Tlb
begin

text \<open>
  The MMU of a core, \<^verbatim>\<open>crates/vetro-mmu/src/mmu.rs\<close>: translation through the TLB, the cache of
  recent translations, the walk without the TLB and the snapshot; and its two clients, the
  system bus \<^verbatim>\<open>bus.rs\<close> and the virtual memory \<^verbatim>\<open>adapter.rs\<close>. The epoch of the recent cache is a
  \<open>nat\<close>, like the TLB's generations. Every operation takes the state of the MMU and of
  physical memory and returns both.
\<close>

subsection \<open>The MMU\<close>

definition recent_len :: nat where "recent_len = 512"

record recent =
  rc_vpage :: u64
  rc_pa_page :: u64
  rc_perms :: perms
  rc_device :: bool
  rc_epoch :: nat
  rc_tlb_gen :: nat

definition recent_empty :: recent where
  "recent_empty = \<lparr>rc_vpage = - 1, rc_pa_page = 0, rc_perms = \<lparr>ap = 0, uxn = True, pxn = True\<rparr>,
    rc_device = True, rc_epoch = 0, rc_tlb_gen = 0\<rparr>"

record mmu =
  regs :: mmu_regs
  pa_bits :: nat
  m_tlb :: tlb
  last_fault :: "fault option"
  recents :: "recent list"
  recent_regs :: mmu_regs
  recent_epoch :: nat

definition mmu_new :: "nat \<Rightarrow> mmu option" where
  "mmu_new bits' =
    (if 32 \<le> bits' \<and> bits' \<le> 48 then
       Some \<lparr>regs = regs_default, pa_bits = bits', m_tlb = tlb_new, last_fault = None,
         recents = replicate recent_len recent_empty, recent_regs = regs_default, recent_epoch = 1\<rparr>
     else None)"

text \<open>The checks after the translation: device alignment, then permissions.\<close>

definition checked ::
  "mmu_regs \<Rightarrow> translation \<Rightarrow> u64 \<Rightarrow> access \<Rightarrow> u8 \<Rightarrow> bool \<Rightarrow> fault + translation" where
  "checked r t va acc el aligned =
    rbind (map_err (\<lambda>k. mk_fault k va acc el) (check_device_alignment t acc aligned)) (\<lambda>_.
    rbind (map_err (\<lambda>k. mk_fault k va acc el) (check r t acc el)) (\<lambda>_. Inr t))"

definition translate_checked ::
  "'p phys_read \<Rightarrow> u64 \<Rightarrow> access \<Rightarrow> u8 \<Rightarrow> bool \<Rightarrow> mmu \<Rightarrow> 'p \<Rightarrow> (fault + translation) \<times> mmu \<times> 'p" where
  "translate_checked rd va acc el aligned m p =
    (let r = regs m
     in if \<not> enabled r then
          (rbind (mmu_off r (pa_bits m) va acc el) (\<lambda>t.
           rbind (map_err (\<lambda>k. mk_fault k va acc el) (check_device_alignment t acc aligned)) (\<lambda>_. Inr t)),
           m, p)
        else case select r va of
            Inl k \<Rightarrow> (Inl (mk_fault k va acc el), m, p)
          | Inr hi \<Rightarrow>
              let key = va AND va_mask
              in case lookup key (asid_of r) (m_tlb m) of
                  Some e \<Rightarrow> (checked r (entry_translation key r e) va acc el aligned, m, p)
                | None \<Rightarrow> (case walk_tables rd r (pa_bits m) p va hi of
                      (Inl k, p') \<Rightarrow> (Inl (mk_fault k va acc el), m, p')
                    | (Inr t, p') \<Rightarrow>
                        (checked r t va acc el aligned,
                         m\<lparr>m_tlb := tlb_insert key (entry_new key t) (m_tlb m)\<rparr>, p')))"

definition translate ::
  "'p phys_read \<Rightarrow> u64 \<Rightarrow> access \<Rightarrow> u8 \<Rightarrow> mmu \<Rightarrow> 'p \<Rightarrow> (fault + translation) \<times> mmu \<times> 'p" where
  "translate rd va acc el m p = translate_checked rd va acc el True m p"

definition sync_recent :: "mmu_regs \<Rightarrow> mmu \<Rightarrow> mmu" where
  "sync_recent r m =
    (if \<not> same r (recent_regs m) then m\<lparr>recent_regs := r, recent_epoch := recent_epoch m + 1\<rparr> else m)"

definition translate_fill ::
  "'p phys_read \<Rightarrow> u64 \<Rightarrow> access \<Rightarrow> u8 \<Rightarrow> bool \<Rightarrow> nat \<Rightarrow> mmu \<Rightarrow> 'p \<Rightarrow> (fault + u64) \<times> mmu \<times> 'p" where
  "translate_fill rd va acc el aligned sl m p =
    (case translate_checked rd va acc el aligned m p of
       (Inl f, m1, p1) \<Rightarrow> (Inl f, m1, p1)
     | (Inr t, m1, p1) \<Rightarrow>
         (Inr (t_pa t),
          (if enabled (regs m1) then (case t_perms t of
             Some pm \<Rightarrow> m1\<lparr>recents := (recents m1)[sl :=
               \<lparr>rc_vpage = va div page_size, rc_pa_page = t_pa t AND NOT (page_size - 1), rc_perms = pm,
                rc_device = (t_mair_attr t AND 0xf0 = 0), rc_epoch = recent_epoch m1,
                rc_tlb_gen = generation sl (m_tlb m1)\<rparr>]\<rparr>
           | None \<Rightarrow> m1) else m1), p1))"

definition translate_recent ::
  "'p phys_read \<Rightarrow> u64 \<Rightarrow> access \<Rightarrow> u8 \<Rightarrow> bool \<Rightarrow> mmu \<Rightarrow> 'p \<Rightarrow> (fault + u64) \<times> mmu \<times> 'p" where
  "translate_recent rd va acc el aligned m p =
    (let vpage = va div page_size;
         sl = slot (va AND va_mask);
         r = recents m ! sl
     in if enabled (recent_regs m) \<and> rc_vpage r = vpage \<and> rc_epoch r = recent_epoch m \<and>
           rc_tlb_gen r = generation sl (m_tlb m) \<and> (aligned \<or> acc = Fetch \<or> \<not> rc_device r) \<and>
           allows (rc_perms r) acc el (wxn (recent_regs m))
        then (Inr (rc_pa_page r OR (va AND (page_size - 1))), m, p)
        else translate_fill rd va acc el aligned sl m p)"

definition translate_pa_with ::
  "'p phys_read \<Rightarrow> mmu_regs \<Rightarrow> u64 \<Rightarrow> access \<Rightarrow> u8 \<Rightarrow> bool \<Rightarrow> mmu \<Rightarrow> 'p \<Rightarrow> (fault + u64) \<times> mmu \<times> 'p" where
  "translate_pa_with rd r va acc el aligned m p =
    translate_recent rd va acc el aligned (sync_recent r (m\<lparr>regs := r\<rparr>)) p"

definition mmu_walk ::
  "'p phys_read \<Rightarrow> u64 \<Rightarrow> access \<Rightarrow> u8 \<Rightarrow> mmu \<Rightarrow> 'p \<Rightarrow> (fault + translation) \<times> 'p" where
  "mmu_walk rd va acc el m p =
    (let r = regs m
     in if \<not> enabled r then (mmu_off r (pa_bits m) va acc el, p)
        else case select r va of
            Inl k \<Rightarrow> (Inl (mk_fault k va acc el), p)
          | Inr hi \<Rightarrow> (case walk_tables rd r (pa_bits m) p va hi of
              (Inl k, p') \<Rightarrow> (Inl (mk_fault k va acc el), p')
            | (Inr t, p') \<Rightarrow>
                (rbind (map_err (\<lambda>k. mk_fault k va acc el) (check r t acc el)) (\<lambda>_. Inr t), p')))"

definition mmu_tlbi :: "tlbi_op \<Rightarrow> u64 \<Rightarrow> mmu \<Rightarrow> mmu" where
  "mmu_tlbi op xt m = m\<lparr>m_tlb := tlbi op xt (m_tlb m)\<rparr>"

definition set_last_fault :: "fault \<Rightarrow> mmu \<Rightarrow> mmu" where
  "set_last_fault f m = m\<lparr>last_fault := Some f\<rparr>"

text \<open>Snapshot.\<close>

definition mmu_save :: "mmu \<Rightarrow> writer \<Rightarrow> writer" where
  "mmu_save m w =
    (let r = regs m
     in tlb_save (m_tlb m) (w_u64 (mair r) (w_u64 (ttbr1 r) (w_u64 (ttbr0 r) (w_u64 (tcr r)
          (w_u64 (sctlr r) (w_u64 (of_nat (pa_bits m)) w)))))))"

definition mmu_restore :: "mmu \<Rightarrow> reader \<Rightarrow> snap_error + mmu \<times> reader" where
  "mmu_restore m rd =
    rbind (expect_u64 ''MMU PARange'' (of_nat (pa_bits m)) rd) (\<lambda>(_, rd).
    rbind (r_u64 rd) (\<lambda>(v1, rd). rbind (r_u64 rd) (\<lambda>(v2, rd). rbind (r_u64 rd) (\<lambda>(v3, rd).
    rbind (r_u64 rd) (\<lambda>(v4, rd). rbind (r_u64 rd) (\<lambda>(v5, rd).
    rbind (tlb_restore (m_tlb m) rd) (\<lambda>(t, rd).
      Inr (m\<lparr>regs := \<lparr>sctlr = v1, tcr = v2, ttbr0 = v3, ttbr1 = v4, mair = v5\<rparr>, m_tlb := t,
             last_fault := None, recents := replicate (length (recents m)) recent_empty,
             recent_regs := regs_default, recent_epoch := recent_epoch m + 1\<rparr>, rd))))))))"

subsection \<open>The system bus\<close>

text \<open>The operations of a physical memory: the trait's methods.\<close>

record 'p phys_ops =
  ph_read :: "'p phys_read"
  ph_write :: "'p phys_write"
  ph_cmpxchg :: "u64 \<Rightarrow> bytes \<Rightarrow> bytes \<Rightarrow> 'p \<Rightarrow> (bus_error + bool) \<times> 'p"
  ph_broadcast :: "tlbi_op \<Rightarrow> u64 \<Rightarrow> 'p \<Rightarrow> 'p"

datatype bus_fault = BusAbort (bf_fsc: u8) (bf_ea: bool) | BusUnimplemented string

datatype at_result = AtPar u64 | AtAbort u8 bool | AtUnimplemented string

record access_req =
  rq_access :: access
  rq_el :: u8
  rq_aligned :: bool

definition bus_fault_of :: "fault_kind \<Rightarrow> bus_fault" where
  "bus_fault_of k = (case fsc k of
      Some c \<Rightarrow> BusAbort c (fault_ea k)
    | None \<Rightarrow> (case k of Unimplemented what \<Rightarrow> BusUnimplemented what | _ \<Rightarrow> BusUnimplemented []))"

definition bus_translate ::
  "'p phys_ops \<Rightarrow> mmu_regs \<Rightarrow> u64 \<Rightarrow> access_req \<Rightarrow> mmu \<Rightarrow> 'p \<Rightarrow> (bus_fault + u64) \<times> mmu \<times> 'p" where
  "bus_translate ph r va req m p =
    (case translate_pa_with (ph_read ph) r va (rq_access req) (rq_el req) (rq_aligned req) m p of
       (Inr pa, m1, p1) \<Rightarrow> (Inr pa, m1, p1)
     | (Inl f, m1, p1) \<Rightarrow> (Inl (bus_fault_of (f_kind f)), set_last_fault f m1, p1))"

definition bus_read_phys :: "'p phys_ops \<Rightarrow> u64 \<Rightarrow> nat \<Rightarrow> 'p \<Rightarrow> (bus_fault + bytes) \<times> 'p" where
  "bus_read_phys ph pa n p =
    (case ph_read ph pa n p of (r, p1) \<Rightarrow> (map_err (\<lambda>e. bus_fault_of (External e)) r, p1))"

definition bus_write_phys :: "'p phys_ops \<Rightarrow> u64 \<Rightarrow> bytes \<Rightarrow> 'p \<Rightarrow> (bus_fault + unit) \<times> 'p" where
  "bus_write_phys ph pa data p =
    (case ph_write ph pa data p of (r, p1) \<Rightarrow> (map_err (\<lambda>e. bus_fault_of (External e)) r, p1))"

definition bus_cmpxchg_phys ::
  "'p phys_ops \<Rightarrow> u64 \<Rightarrow> bytes \<Rightarrow> bytes \<Rightarrow> 'p \<Rightarrow> (bus_fault + bool) \<times> 'p" where
  "bus_cmpxchg_phys ph pa old new p =
    (case ph_cmpxchg ph pa old new p of (r, p1) \<Rightarrow> (map_err (\<lambda>e. bus_fault_of (External e)) r, p1))"

definition bus_at ::
  "'p phys_ops \<Rightarrow> mmu_regs \<Rightarrow> u64 \<Rightarrow> access \<Rightarrow> u8 \<Rightarrow> mmu \<Rightarrow> 'p \<Rightarrow> at_result \<times> mmu \<times> 'p" where
  "bus_at ph r va acc el m p =
    (let m1 = m\<lparr>regs := r\<rparr>
     in case mmu_walk (ph_read ph) va acc el m1 p of
          (Inr t, p1) \<Rightarrow> (AtPar (translation_par t), m1, p1)
        | (Inl f, p1) \<Rightarrow>
            ((case f_kind f of
                ExternalWalk l e \<Rightarrow> (case bus_fault_of (f_kind f) of
                    BusAbort c ea \<Rightarrow> AtAbort c ea | BusUnimplemented w \<Rightarrow> AtUnimplemented w)
              | Unimplemented what \<Rightarrow> AtUnimplemented what
              | _ \<Rightarrow> AtPar (the (fault_par f))), m1, p1))"

definition bus_tlbi :: "'p phys_ops \<Rightarrow> tlbi_op \<Rightarrow> u64 \<Rightarrow> mmu \<Rightarrow> 'p \<Rightarrow> mmu \<times> 'p" where
  "bus_tlbi ph op xt m p =
    (mmu_tlbi op xt m, if is_broadcast op then ph_broadcast ph op xt p else p)"

definition bus_tlb_flush_all :: "mmu \<Rightarrow> mmu" where
  "bus_tlb_flush_all m = m\<lparr>m_tlb := flush_all (m_tlb m)\<rparr>"

subsection \<open>Pages\<close>

lemma xor_zero_iff: "(a :: u64) XOR b = 0 \<longleftrightarrow> a = b"
  by (auto simp: bit_eq_iff bit_simps)

lemma same_iff: "same r o' \<longleftrightarrow> r = o'"
  by (cases r, cases o') (auto simp: same_def or_eq_0_iff xor_zero_iff)

lemma fsc_None_iff: "fsc k = None \<longleftrightarrow> (\<exists>w. k = Unimplemented w)"
  by (cases k) auto

lemma page_size_mask: "page_size - 1 = mask 12" "NOT (page_size - 1) = NOT (mask 12)"
  by (simp_all add: page_size_def mask_eq_exp_minus_1)

lemma div_page: "va div page_size = drop_bit 12 va"
  by (simp add: page_size_def drop_bit_eq_div)

lemma select_page:
  assumes "drop_bit 12 va = drop_bit 12 va'"
  shows "select r va = select r va'"
proof -
  have b: "bit va n = bit va' n" if "12 \<le> n" for n
    using same_page_bits [OF assms that] .
  then have top: "addr_top r va = addr_top r va'"
    by (simp add: addr_top_def shifted_bit_test Let_def)
  have "va AND bits (addr_top r va) (input_size r hi) = va' AND bits (addr_top r va) (input_size r hi)" for hi
    using input_size_bounds(1) [of r hi] addr_top_cases [of r va] by (intro and_bits_cong b) auto
  then show ?thesis
    using b [of "addr_top r va"] addr_top_cases [of r va]
    by (auto simp: select_def Let_def shifted_bit_test top)
qed

lemma key_page:
  assumes "drop_bit 12 va = drop_bit 12 va'"
  shows "drop_bit 12 (va AND va_mask) = drop_bit 12 (va' AND va_mask)"
  using assms by (simp add: drop_bit_and)

lemma slot_va_page:
  "drop_bit 12 va = drop_bit 12 va' \<Longrightarrow> slot (va AND va_mask) = slot (va' AND va_mask)"
  by (intro slot_page key_page)

lemma lookup_page:
  assumes "wf_tlb t" "drop_bit 12 va = drop_bit 12 va'"
  shows "lookup (va AND va_mask) asid t = lookup (va' AND va_mask) asid t"
proof -
  have "entry_contains (va AND va_mask) e = entry_contains (va' AND va_mask) e"
    if "entries t ! slot (va' AND va_mask) = Some e" for e
    using wf_tlb_entry [OF assms(1) that slot_less] key_page [OF assms(2)] by (rule entry_contains_page)
  then show ?thesis
    using slot_va_page [OF assms(2)] by (simp add: lookup_def split: option.split)
qed

lemma low12_key: "(va AND va_mask) AND mask 12 = va AND mask 12"
  by (auto simp: va_mask_mask bit_eq_iff bit_simps)

subsection \<open>The recent cache\<close>

text \<open>A recent entry whose epoch and slot generation are current.\<close>

definition live :: "mmu \<Rightarrow> nat \<Rightarrow> bool" where
  "live m i \<longleftrightarrow> rc_epoch (recents m ! i) = recent_epoch m \<and>
    rc_tlb_gen (recents m ! i) = generation i (m_tlb m)"

text \<open>The full path finds in the TLB what the recent entry remembers.\<close>

definition backed :: "mmu \<Rightarrow> nat \<Rightarrow> u64 \<Rightarrow> bool" where
  "backed m i va \<longleftrightarrow> (\<exists>hi e. select (recent_regs m) va = Inr hi \<and>
    lookup (va AND va_mask) (asid_of (recent_regs m)) (m_tlb m) = Some e \<and>
    e_perms e = rc_perms (recents m ! i) \<and>
    (mair_attr_of (recent_regs m) (e_attr_index e) AND 0xf0 = 0) = rc_device (recents m ! i) \<and>
    t_pa (entry_translation (va AND va_mask) (recent_regs m) e) =
      rc_pa_page (recents m ! i) OR (va AND mask 12))"

definition mmu_inv :: "mmu \<Rightarrow> bool" where
  "mmu_inv m \<longleftrightarrow> wf_tlb (m_tlb m) \<and> 32 \<le> pa_bits m \<and> pa_bits m \<le> 48 \<and>
    length (recents m) = recent_len \<and>
    (\<forall>i < recent_len. rc_epoch (recents m ! i) \<le> recent_epoch m \<and>
      rc_tlb_gen (recents m ! i) \<le> generation i (m_tlb m)) \<and>
    (\<forall>i < recent_len. \<forall>va. live m i \<and> enabled (recent_regs m) \<and> slot (va AND va_mask) = i \<and>
      drop_bit 12 va = rc_vpage (recents m ! i) \<longrightarrow> backed m i va)"

lemma mmu_inv_new: "mmu_new n = Some m \<Longrightarrow> mmu_inv m"
  by (auto simp: mmu_new_def mmu_inv_def live_def wf_tlb_new recent_empty_def split: if_splits)

lemma recent_tlb_len: "recent_len = tlb_entries"
  by (simp add: recent_len_def tlb_entries_def)

text \<open>
  A change of the TLB that leaves the generation of a slot alone only if it leaves the slot
  alone keeps the invariant.
\<close>

lemma mmu_inv_tlb:
  assumes "mmu_inv m" "wf_tlb t"
    and "\<And>i. i < recent_len \<Longrightarrow> generation i (m_tlb m) \<le> generation i t"
    and "\<And>i. i < recent_len \<Longrightarrow> generation i (m_tlb m) = generation i t \<Longrightarrow> entries t ! i = entries (m_tlb m) ! i"
  shows "mmu_inv (m\<lparr>m_tlb := t\<rparr>)"
proof -
  have lk: "lookup key asid t = lookup key asid (m_tlb m)"
    if "slot key < recent_len" "generation (slot key) (m_tlb m) = generation (slot key) t" for key asid
    using assms(4) [OF that] by (simp add: lookup_def)
  have "live m i \<and> generation i (m_tlb m) = generation i t"
    if "live (m\<lparr>m_tlb := t\<rparr>) i" "i < recent_len" for i
    using assms(1,3) that by (force simp: live_def mmu_inv_def)
  then have "backed (m\<lparr>m_tlb := t\<rparr>) i va"
    if "live (m\<lparr>m_tlb := t\<rparr>) i" "i < recent_len" "enabled (recent_regs m)" "slot (va AND va_mask) = i"
      "drop_bit 12 va = rc_vpage (recents m ! i)" for i va
    using assms(1) that lk [of "va AND va_mask"] by (simp add: mmu_inv_def backed_def)
  then show ?thesis
    using assms(1-3) unfolding mmu_inv_def by (auto intro: le_trans)
qed

lemma mmu_inv_sync: "mmu_inv m \<Longrightarrow> mmu_inv (sync_recent r m)"
proof -
  assume inv: "mmu_inv m"
  show ?thesis
  proof (cases "r = recent_regs m")
    case True
    then show ?thesis using inv by (simp add: sync_recent_def same_iff)
  next
    case False
    have "\<not> live (m\<lparr>recent_regs := r, recent_epoch := recent_epoch m + 1\<rparr>) i" if "i < recent_len" for i
      using inv that by (force simp: mmu_inv_def live_def)
    then show ?thesis
      using inv False by (auto simp: sync_recent_def same_iff mmu_inv_def)
  qed
qed

lemma mmu_inv_regs: "mmu_inv m \<Longrightarrow> mmu_inv (m\<lparr>regs := r\<rparr>)"
  by (simp add: mmu_inv_def live_def backed_def)

lemma mmu_inv_last_fault: "mmu_inv m \<Longrightarrow> mmu_inv (set_last_fault f m)"
  by (simp add: mmu_inv_def live_def backed_def set_last_fault_def)

lemma sync_recent_fields [simp]:
  "recent_regs (sync_recent r m) = r" "regs (sync_recent r m) = regs m"
  "m_tlb (sync_recent r m) = m_tlb m" "pa_bits (sync_recent r m) = pa_bits m"
  by (auto simp: sync_recent_def same_iff)

lemma walk_tables_entry:
  assumes "walk_tables rd r n p va hi = (Inr t, p')" "n \<le> 48"
  obtains b a where "t_block_size t = 2 ^ b" "b = bottom_of (unat (t_level t))" "b \<in> {12, 21, 30}"
    "t_perms t \<noteq> None" "t_attr_index t = Some a" "t_mair_attr t = mair_attr_of r a"
    "t_pa t = in_block (t_block_size t) (t_pa t) va" "a \<le> 7"
proof -
  from assms(1) obtain desc s where s:
    "walk_leaf r (output_size r n) va desc s = Inr t" "ws_level s \<le> 3"
    by (rule walk_tables_cases)
  note f = walk_leaf_fields [OF s(1)]
  have "unat (t_level t) = ws_level s" using s(2) by (simp add: f(1) unat_of_nat)
  moreover have "output_size r n \<le> 48" using output_size_bounds(2) assms(2) le_trans by blast
  then have "in_block (t_block_size t) (t_pa t) va =
      (t_pa t AND NOT (t_block_size t - 1)) OR (t_pa t AND (t_block_size t - 1))"
    using walk_leaf_bounds(2) [OF s(1)] unfolding in_block_def by simp
  then have "t_pa t = in_block (t_block_size t) (t_pa t) va"
    by (auto simp: bit_eq_iff bit_simps)
  moreover obtain a where "t_attr_index t = Some a" "t_mair_attr t = mair_attr_of r a" "a \<le> 7"
    using f(8) attr_index_le by blast
  moreover have "bottom_of (ws_level s) \<in> {12, 21, 30}"
  proof -
    have "ws_level s = 1 \<or> ws_level s = 2 \<or> ws_level s = 3" using s(2) f(3) by auto
    then show ?thesis by (auto simp: bottom_of_def grain_def stride_def)
  qed
  ultimately show ?thesis using f(2,7) by (intro that [of "bottom_of (ws_level s)" a]) simp_all
qed

lemma insert_generation:
  assumes "wf_tlb t" "i < tlb_entries"
  shows "generation i (tlb_insert key e t) = (if i = slot key then generation i t + 1 else generation i t)"
    and "entries (tlb_insert key e t) ! i = (if i = slot key then Some e else entries t ! i)"
  using assms by (auto simp: tlb_insert_def generation_def wf_tlb_def Let_def nth_list_update)

lemma mmu_inv_insert:
  assumes "mmu_inv m" "walk_tables rd r n p va hi = (Inr t, p')" "n \<le> 48"
  shows "mmu_inv (m\<lparr>m_tlb := tlb_insert key (entry_new key t) (m_tlb m)\<rparr>)"
proof -
  have wf: "wf_tlb (m_tlb m)" using assms(1) by (simp add: mmu_inv_def)
  from assms(2,3) obtain b a where "t_block_size t = 2 ^ b" "b \<in> {12, 21, 30}"
    "t_attr_index t = Some a" "a \<le> 7" by (rule walk_tables_entry)
  then have "wf_entry (entry_new key t)"
    using entry_new_block [of t b key] by (auto simp: wf_entry_def entry_new_def Let_def)
  then show ?thesis
    using wf by (intro mmu_inv_tlb assms(1) wf_tlb_insert)
      (auto simp: insert_generation [OF wf] recent_tlb_len split: if_splits)
qed

text \<open>What the full path does, when the MMU is on.\<close>

lemma translate_checked_inv:
  assumes "mmu_inv m" "translate_checked rd va acc el al m p = (res, m', p')"
  shows "mmu_inv m' \<and> regs m' = regs m \<and> recent_regs m' = recent_regs m \<and> recents m' = recents m \<and>
    recent_epoch m' = recent_epoch m \<and> pa_bits m' = pa_bits m"
proof -
  have "mmu_inv (m\<lparr>m_tlb := tlb_insert key (entry_new key t) (m_tlb m)\<rparr>)"
    if "walk_tables rd (regs m) (pa_bits m) p va hi = (Inr t, p1)" for hi t p1 key
    using mmu_inv_insert [OF assms(1) that] assms(1) by (simp add: mmu_inv_def)
  then show ?thesis
    using assms
    by (auto simp: translate_checked_def Let_def split: if_splits sum.splits option.splits prod.splits)
qed

lemma translate_checked_hit:
  assumes "mmu_inv m" "translate_checked rd va acc el al m p = (Inr t, m', p')" "enabled (regs m)"
  shows "\<exists>hi e. select (regs m) va = Inr hi \<and>
    lookup (va AND va_mask) (asid_of (regs m)) (m_tlb m') = Some e \<and>
    t = entry_translation (va AND va_mask) (regs m) e"
proof -
  let ?key = "va AND va_mask"
  obtain hi where hi: "select (regs m) va = Inr hi"
    using assms(2,3) by (auto simp: translate_checked_def Let_def split: sum.splits)
  show ?thesis
  proof (cases "lookup ?key (asid_of (regs m)) (m_tlb m)")
    case (Some e)
    then have "t = entry_translation ?key (regs m) e" "m' = m"
      using assms(2,3) hi
      by (auto simp: translate_checked_def Let_def checked_def rbind_Inr_iff)
    then show ?thesis using hi Some by blast
  next
    case None
    obtain w p1 where w: "walk_tables rd (regs m) (pa_bits m) p va hi = (w, p1)" by fastforce
    with None assms(2,3) hi have "w = Inr t"
      and m': "m' = m\<lparr>m_tlb := tlb_insert ?key (entry_new ?key t) (m_tlb m)\<rparr>"
      by (auto simp: translate_checked_def Let_def checked_def rbind_Inr_iff split: sum.splits)
    with w have w: "walk_tables rd (regs m) (pa_bits m) p va hi = (Inr t, p1)" by simp
    have le: "pa_bits m \<le> 48" and wf: "wf_tlb (m_tlb m)" using assms(1) by (auto simp: mmu_inv_def)
    from w le obtain b a where t: "t_block_size t = 2 ^ b" "b \<in> {12, 21, 30}" "t_perms t \<noteq> None"
      "t_attr_index t = Some a" "t_mair_attr t = mair_attr_of (regs m) a"
      "t_pa t = in_block (t_block_size t) (t_pa t) va" by (rule walk_tables_entry)
    have c: "entry_contains ?key (entry_new ?key t)" by (simp add: entry_new_contains [OF t(1,2)])
    have "t_asid t = asid_of (regs m)"
      using w by (rule walk_tables_cases) (simp add: walk_leaf_fields(6))
    then have "lookup ?key (asid_of (regs m)) (m_tlb m') = Some (entry_new ?key t)"
      using c slot_less [of ?key] wf
      by (simp add: m' lookup_def insert_generation) (simp add: entry_new_def Let_def)
    moreover have "entry_translation ?key (regs m) (entry_new ?key t) = t"
      using entry_new_translation [OF t(1-5) c] t(6) by simp
    ultimately show ?thesis using hi by auto
  qed
qed

definition recent_of :: "u64 \<Rightarrow> translation \<Rightarrow> mmu \<Rightarrow> recent" where
  "recent_of va t m =
    \<lparr>rc_vpage = va div page_size, rc_pa_page = t_pa t AND NOT (page_size - 1), rc_perms = the (t_perms t),
     rc_device = (t_mair_attr t AND 0xf0 = 0), rc_epoch = recent_epoch m,
     rc_tlb_gen = generation (slot (va AND va_mask)) (m_tlb m)\<rparr>"

lemma mmu_inv_fill:
  assumes inv: "mmu_inv m" and "select (recent_regs m) va = Inr hi"
    and lk: "lookup (va AND va_mask) (asid_of (recent_regs m)) (m_tlb m) = Some e"
    and t: "t = entry_translation (va AND va_mask) (recent_regs m) e"
  shows "mmu_inv (m\<lparr>recents := (recents m)[slot (va AND va_mask) := recent_of va t m]\<rparr>)"
proof -
  let ?s = "slot (va AND va_mask)" and ?rs = "(recents m)[slot (va AND va_mask) := recent_of va t m]"
  let ?m = "m\<lparr>recents := ?rs\<rparr>"
  have len: "length (recents m) = recent_len" and wf: "wf_tlb (m_tlb m)"
    using inv by (auto simp: mmu_inv_def)
  have s: "?s < recent_len" using slot_less by (simp add: recent_tlb_len)
  have wfe: "wf_entry e"
    using lookup_SomeD [OF lk] wf_tlb_entry [OF wf] slot_less by blast
  have new: "backed ?m ?s va'" if "drop_bit 12 va' = drop_bit 12 va" for va'
  proof -
    have "t_pa (entry_translation (va' AND va_mask) (recent_regs m) e) =
        (t_pa t AND NOT (mask 12)) OR (va' AND mask 12)"
      using entry_pa_page [OF wfe _ key_page [OF that [symmetric]], of "recent_regs m"] lookup_SomeD [OF lk]
      by (simp add: t low12_key)
    moreover have "e_perms e = the (t_perms t)" "t_mair_attr t = mair_attr_of (recent_regs m) (e_attr_index e)"
      by (simp_all add: t entry_translation_def)
    ultimately show ?thesis
      using assms(2) lk select_page [OF that, of "recent_regs m"] lookup_page [OF wf that] s len
      by (auto simp: backed_def recent_of_def page_size_mask)
  qed
  have old: "backed ?m i va'" if "i \<noteq> ?s" "backed m i va'" for i va'
    using that by (simp add: backed_def)
  have "rc_epoch (?rs ! i) \<le> recent_epoch m \<and> rc_tlb_gen (?rs ! i) \<le> generation i (m_tlb m)"
    if "i < recent_len" for i
    using inv that len by (cases "i = ?s") (simp_all add: mmu_inv_def recent_of_def)
  moreover have "backed ?m i va'"
    if "i < recent_len" "live ?m i" "enabled (recent_regs m)" "slot (va' AND va_mask) = i"
      "drop_bit 12 va' = rc_vpage (?rs ! i)" for i va'
  proof (cases "i = ?s")
    case True
    then show ?thesis using new [of va'] that(5) s len by (simp add: recent_of_def div_page)
  next
    case False
    then have "live m i" "drop_bit 12 va' = rc_vpage (recents m ! i)"
      using that(2,5) by (simp_all add: live_def)
    then show ?thesis using old [OF False] inv that(1,3,4) by (simp add: mmu_inv_def)
  qed
  ultimately show ?thesis using inv by (simp add: mmu_inv_def)
qed

lemma translate_fill_full:
  assumes inv: "mmu_inv m" and rr: "recent_regs m = regs m"
    and tc: "translate_checked rd va acc el al m p = (res, m1, p1)"
  obtains m' where "translate_fill rd va acc el al (slot (va AND va_mask)) m p = (rmap t_pa res, m', p1)"
    "mmu_inv m'" "m_tlb m' = m_tlb m1" "regs m' = regs m1" "last_fault m' = last_fault m1"
proof -
  note i1 = translate_checked_inv [OF inv tc]
  show ?thesis
  proof (cases res)
    case (Inl f)
    then show ?thesis using that [of m1] tc i1 by (simp add: translate_fill_def)
  next
    case (Inr t)
    show ?thesis
    proof (cases "enabled (regs m)")
      case False
      then show ?thesis using that [of m1] tc Inr i1 by (simp add: translate_fill_def)
    next
      case True
      from translate_checked_hit [OF inv tc [unfolded Inr] True] obtain hi e where
        h: "select (recent_regs m1) va = Inr hi"
        "lookup (va AND va_mask) (asid_of (recent_regs m1)) (m_tlb m1) = Some e"
        "t = entry_translation (va AND va_mask) (recent_regs m1) e"
        using i1 rr by auto
      let ?m = "m1\<lparr>recents := (recents m1)[slot (va AND va_mask) := recent_of va t m1]\<rparr>"
      have "t_perms t = Some (e_perms e)" by (simp add: h(3) entry_translation_def)
      then have "translate_fill rd va acc el al (slot (va AND va_mask)) m p = (rmap t_pa res, ?m, p1)"
        using tc Inr True i1 by (simp add: translate_fill_def recent_of_def)
      then show ?thesis using that [of ?m] mmu_inv_fill [OF _ h] i1 by simp
    qed
  qed
qed

lemma translate_recent_full:
  assumes inv: "mmu_inv m" and rr: "recent_regs m = regs m"
    and tc: "translate_checked rd va acc el al m p = (res, m1, p1)"
  obtains m' where "translate_recent rd va acc el al m p = (rmap t_pa res, m', p1)"
    "mmu_inv m'" "m_tlb m' = m_tlb m1" "regs m' = regs m1" "last_fault m' = last_fault m1"
proof -
  let ?i = "slot (va AND va_mask)"
  let ?rc = "recents m ! ?i"
  define hit where "hit \<longleftrightarrow> enabled (recent_regs m) \<and> rc_vpage ?rc = va div page_size \<and>
    rc_epoch ?rc = recent_epoch m \<and> rc_tlb_gen ?rc = generation ?i (m_tlb m) \<and>
    (al \<or> acc = Fetch \<or> \<not> rc_device ?rc) \<and> allows (rc_perms ?rc) acc el (wxn (recent_regs m))"
  show ?thesis
  proof (cases hit)
    case False
    then have eq: "translate_recent rd va acc el al m p = translate_fill rd va acc el al ?i m p"
      by (simp only: translate_recent_def Let_def hit_def [symmetric] if_False)
    show ?thesis
    proof (rule translate_fill_full [OF inv rr tc])
      fix m'
      assume "translate_fill rd va acc el al ?i m p = (rmap t_pa res, m', p1)" "mmu_inv m'"
        "m_tlb m' = m_tlb m1" "regs m' = regs m1" "last_fault m' = last_fault m1"
      then show ?thesis using eq by (intro that [of m']) simp_all
    qed
  next
    case True
    have "?i < recent_len" using slot_less by (simp add: recent_tlb_len)
    then have "backed m ?i va"
      using inv True by (auto simp: mmu_inv_def hit_def live_def div_page)
    then obtain hi e where e: "select (regs m) va = Inr hi"
      "lookup (va AND va_mask) (asid_of (regs m)) (m_tlb m) = Some e" "e_perms e = rc_perms ?rc"
      "(mair_attr_of (regs m) (e_attr_index e) AND 0xf0 = 0) = rc_device ?rc"
      "t_pa (entry_translation (va AND va_mask) (regs m) e) = rc_pa_page ?rc OR (va AND mask 12)"
      unfolding backed_def rr by blast
    let ?t = "entry_translation (va AND va_mask) (regs m) e"
    have "checked (regs m) ?t va acc el al = Inr ?t"
      using True e(3,4) rr
      by (auto simp: checked_def check_device_alignment_def check_def hit_def entry_translation_def)
    then have full: "res = Inr ?t" "m1 = m" "p1 = p"
      using tc e(1,2) True rr by (auto simp: translate_checked_def hit_def Let_def)
    have "translate_recent rd va acc el al m p = (Inr (rc_pa_page ?rc OR (va AND mask 12)), m, p)"
      using True by (simp only: translate_recent_def Let_def hit_def [symmetric] if_True page_size_mask)
    then show ?thesis using full inv e(5) by (intro that [of m]) simp_all
  qed
qed

lemma translate_checked_sync:
  "translate_checked rd va acc el al (sync_recent r m) p =
    (case translate_checked rd va acc el al m p of (res, m1, p1) \<Rightarrow> (res, sync_recent r m1, p1))"
  by (auto simp: translate_checked_def Let_def sync_recent_def split: sum.split option.split prod.split)

lemma translate_pa_with_cached:
  assumes inv: "mmu_inv m"
    and tc: "translate_checked rd va acc el al (m\<lparr>regs := r\<rparr>) p = (res, m1, p1)"
  obtains m' where "translate_pa_with rd r va acc el al m p = (rmap t_pa res, m', p1)"
    "mmu_inv m'" "m_tlb m' = m_tlb m1" "regs m' = r" "last_fault m' = last_fault m1"
proof -
  let ?m = "sync_recent r (m\<lparr>regs := r\<rparr>)"
  have inv': "mmu_inv ?m" using inv by (intro mmu_inv_sync mmu_inv_regs)
  have "translate_checked rd va acc el al ?m p = (res, sync_recent r m1, p1)"
    by (simp add: translate_checked_sync tc)
  moreover have "regs m1 = r" using translate_checked_inv [OF mmu_inv_regs [OF inv] tc] by simp
  moreover have "last_fault (sync_recent r m1) = last_fault m1" by (simp add: sync_recent_def)
  ultimately show ?thesis
    using translate_recent_full [OF inv', of rd va acc el al p res "sync_recent r m1" p1] that
    by (auto simp: translate_pa_with_def)
qed

subsection \<open>Reachable states\<close>

lemma mmu_inv_tlbi: "mmu_inv m \<Longrightarrow> mmu_inv (mmu_tlbi op xt m)"
proof -
  assume inv: "mmu_inv m"
  then have wf: "wf_tlb (m_tlb m)" by (simp add: mmu_inv_def)
  then have len: "length (entries (m_tlb m)) = tlb_entries" "length (gens (m_tlb m)) = tlb_entries"
    by (simp_all add: wf_tlb_def)
  show ?thesis
    unfolding mmu_tlbi_def
    by (intro mmu_inv_tlb [OF inv] wf_tlb_tlbi [OF wf])
      (auto simp: recent_tlb_len tlbi_gens [OF len] tlbi_entries len split: if_splits)
qed

lemma mmu_inv_flush_all: "mmu_inv m \<Longrightarrow> mmu_inv (bus_tlb_flush_all m)"
proof -
  assume inv: "mmu_inv m"
  then have wf: "wf_tlb (m_tlb m)" by (simp add: mmu_inv_def)
  show ?thesis
    unfolding bus_tlb_flush_all_def
    by (intro mmu_inv_tlb [OF inv] wf_tlb_flush_all [OF wf])
      (use wf in \<open>auto simp: recent_tlb_len flush_all_def note_inval_def generation_def wf_tlb_def Let_def\<close>)
qed

text \<open>What its clients do to an MMU, from its construction on.\<close>

inductive mmu_reach :: "'p phys_ops \<Rightarrow> mmu \<Rightarrow> bool" for ph where
  reach_new: "mmu_new n = Some m \<Longrightarrow> mmu_reach ph m"
| reach_regs: "mmu_reach ph m \<Longrightarrow> mmu_reach ph (m\<lparr>regs := r\<rparr>)"
| reach_translate: "mmu_reach ph m \<Longrightarrow> translate (ph_read ph) va acc el m p = (res, m', p') \<Longrightarrow>
    mmu_reach ph m'"
| reach_bus: "mmu_reach ph m \<Longrightarrow> bus_translate ph r va req m p = (bres, m', p') \<Longrightarrow> mmu_reach ph m'"
| reach_at: "mmu_reach ph m \<Longrightarrow> bus_at ph r va acc el m p = (ares, m', p') \<Longrightarrow> mmu_reach ph m'"
| reach_tlbi: "mmu_reach ph m \<Longrightarrow> bus_tlbi ph op xt m p = (m', p') \<Longrightarrow> mmu_reach ph m'"
| reach_flush: "mmu_reach ph m \<Longrightarrow> mmu_reach ph (bus_tlb_flush_all m)"
| reach_fault: "mmu_reach ph m \<Longrightarrow> mmu_reach ph (set_last_fault f m)"

lemma mmu_inv_bus_translate:
  assumes "mmu_inv m" "bus_translate ph r va req m p = (res, m', p')"
  shows "mmu_inv m'"
proof -
  obtain q m1 p1 where tc: "translate_checked (ph_read ph) va (rq_access req) (rq_el req) (rq_aligned req)
      (m\<lparr>regs := r\<rparr>) p = (q, m1, p1)" by (metis prod_cases3)
  obtain m2 where m2: "translate_pa_with (ph_read ph) r va (rq_access req) (rq_el req) (rq_aligned req) m p =
      (rmap t_pa q, m2, p1)" "mmu_inv m2"
    using translate_pa_with_cached [OF assms(1) tc] by blast
  then show ?thesis
    using assms(2) by (cases q) (auto simp: bus_translate_def intro: mmu_inv_last_fault)
qed

lemma mmu_reach_inv: "mmu_reach ph m \<Longrightarrow> mmu_inv m"
proof (induction rule: mmu_reach.induct)
  case (reach_translate m va acc el p res m' p')
  then show ?case
    using translate_checked_inv [OF reach_translate.IH reach_translate.hyps(2) [unfolded translate_def]]
    by simp
next
  case (reach_bus m r va req p bres m' p')
  show ?case by (rule mmu_inv_bus_translate [OF reach_bus.IH reach_bus.hyps(2)])
next
  case (reach_at m r va acc el p ares m' p')
  then show ?case by (auto simp: bus_at_def Let_def intro: mmu_inv_regs split: prod.splits sum.splits)
next
  case (reach_tlbi m op xt p m' p')
  then show ?case by (auto simp: bus_tlbi_def intro: mmu_inv_tlbi)
qed (auto intro: mmu_inv_new mmu_inv_regs mmu_inv_flush_all mmu_inv_last_fault)

subsection \<open>Coherence of the TLB with the tables\<close>

text \<open>Reads of the tables do not change memory (page tables are in RAM).\<close>

definition pure_read :: "'p phys_read \<Rightarrow> bool" where
  "pure_read rd \<longleftrightarrow> (\<forall>pa n p. snd (rd pa n p) = p)"

text \<open>
  Every translation the TLB would give is the one the tables give (up to the ASID field,
  which of a global entry is the one it was inserted under).
\<close>

definition coherent :: "'p phys_read \<Rightarrow> mmu_regs \<Rightarrow> nat \<Rightarrow> 'p \<Rightarrow> tlb \<Rightarrow> bool" where
  "coherent rd r n p t \<longleftrightarrow> (\<forall>va hi e. select r va = Inr hi \<longrightarrow>
    lookup (va AND va_mask) (asid_of r) t = Some e \<longrightarrow>
    fst (walk_tables rd r n p va hi) =
      Inr ((entry_translation (va AND va_mask) r e)\<lparr>t_asid := asid_of r\<rparr>))"

lemma coherentD:
  "coherent rd r n p t \<Longrightarrow> select r va = Inr hi \<Longrightarrow> lookup (va AND va_mask) (asid_of r) t = Some e \<Longrightarrow>
   fst (walk_tables rd r n p va hi) = Inr ((entry_translation (va AND va_mask) r e)\<lparr>t_asid := asid_of r\<rparr>)"
  by (simp add: coherent_def)

lemma coherent_empty: "coherent rd r n p tlb_new"
  using slot_less by (simp add: coherent_def lookup_def tlb_new_def)

lemma pure_read_u64: "pure_read rd \<Longrightarrow> snd (phys_read_u64 rd pa p) = p"
  by (simp add: pure_read_def phys_read_u64_def case_prod_beta)

lemma walk_loop_pure: "pure_read rd \<Longrightarrow> snd (walk_loop rd out va s p) = p"
proof (induction rd out va s p rule: walk_loop.induct)
  case (1 rd out va s p)
  obtain res p' where w: "walk_loop rd out va s p = (res, p')" by fastforce
  obtain d q where q: "phys_read_u64 rd (ws_base s OR walk_index va s) p = (d, q)" by fastforce
  have "q = p" using pure_read_u64 [OF "1.prems", of "ws_base s OR walk_index va s" p] q by simp
  show ?case
  proof (cases d)
    case (Inl e)
    then show ?thesis using q \<open>q = p\<close> by (simp add: walk_loop.simps [of rd out va s])
  next
    case (Inr desc)
    show ?thesis
      using "1.IH" [OF refl q [symmetric] Inr _ _ _ "1.prems"] q Inr \<open>q = p\<close>
      by (auto simp: walk_loop.simps [of rd out va s] Let_def)
  qed
qed

lemma walk_tables_pure: "pure_read rd \<Longrightarrow> snd (walk_tables rd r n p va hi) = p"
  using walk_loop_pure [of rd "output_size r n" va "walk_start r hi" p]
  by (auto simp: walk_tables_def Let_def split: prod.split sum.split)

lemma same_block_agree:
  assumes "(va' AND va_mask) AND NOT (mask b) = (va AND va_mask) AND NOT (mask b)"
  shows "agree_from b va va'"
proof -
  have "bit va n = bit va' n" if "b \<le> n" "n < 56" for n
    using arg_cong [OF assms, of "\<lambda>w. bit w n"] that by (auto simp: va_mask_mask bit_simps)
  then show ?thesis by (simp add: agree_from_def)
qed

lemma coherent_insert:
  assumes co: "coherent rd r n p t" and wf: "wf_tlb t" and n: "32 \<le> n" "n \<le> 48"
    and sel: "select r va = Inr hi" and w: "walk_tables rd r n p va hi = (Inr x, p)"
  shows "coherent rd r n p (tlb_insert (va AND va_mask) (entry_new (va AND va_mask) x) t)"
    (is "coherent rd r n p ?t")
  unfolding coherent_def
proof (intro allI impI)
  fix va' hi' e
  assume sel': "select r va' = Inr hi'" and lk: "lookup (va' AND va_mask) (asid_of r) ?t = Some e"
  let ?key = "va AND va_mask" and ?key' = "va' AND va_mask"
  show "fst (walk_tables rd r n p va' hi') = Inr ((entry_translation ?key' r e)\<lparr>t_asid := asid_of r\<rparr>)"
  proof (cases "slot ?key' = slot ?key")
    case False
    then have "lookup ?key' (asid_of r) t = Some e"
      using lk slot_less [of ?key'] by (simp add: lookup_def insert_generation [OF wf])
    with co sel' show ?thesis by (rule coherentD)
  next
    case True
    then have e: "e = entry_new ?key x" "entry_contains ?key' (entry_new ?key x)"
      using lookup_SomeD [OF lk] slot_less [of ?key'] by (auto simp: insert_generation [OF wf])
    from w n(2) obtain b a where x: "t_block_size x = 2 ^ b" "b = bottom_of (unat (t_level x))"
      "b \<in> {12, 21, 30}" "t_perms x \<noteq> None" "t_attr_index x = Some a" "t_mair_attr x = mair_attr_of r a"
      by (rule walk_tables_entry)
    have ag: "agree_from b va va'"
      using e(2) by (intro same_block_agree) (simp add: entry_new_contains [OF x(1,3)])
    moreover have "hi' = hi"
      using select_hi [OF sel] select_hi [OF sel'] ag x(3) by (auto simp: agree_from_def)
    ultimately have "walk_tables rd r n p va' hi' =
        (Inr (x\<lparr>t_pa := in_block (t_block_size x) (t_pa x) va'\<rparr>), p)"
      using walk_tables_block [OF w n(1), of va'] x(2) by simp
    moreover have "entry_translation ?key' r e = x\<lparr>t_pa := in_block (t_block_size x) (t_pa x) va'\<rparr>"
      using entry_new_translation [OF x(1,3-6) e(2)] e(1) by simp
    moreover have "t_asid x = asid_of r"
      using w by (rule walk_tables_cases) (simp add: walk_leaf_fields(6))
    ultimately show ?thesis by simp
  qed
qed

lemma asid_update_self: "t_asid t = a \<Longrightarrow> t\<lparr>t_asid := a\<rparr> = t"
  by (cases t) simp

lemma checked_aligned:
  "checked r t va acc el True = rbind (map_err (\<lambda>k. mk_fault k va acc el) (check r t acc el)) (\<lambda>_. Inr t)"
  by (simp add: checked_def check_device_alignment_def)

lemma check_asid: "check r (t\<lparr>t_asid := a\<rparr>) acc el = check r t acc el"
  by (simp add: check_def split: option.split)

lemma translate_coherent:
  assumes inv: "mmu_inv m" and pure: "pure_read rd"
    and co: "coherent rd (regs m) (pa_bits m) p (m_tlb m)"
    and tr: "translate rd va acc el m p = (res, m', p')"
  shows "rmap (t_asid_update (\<lambda>_. asid_of (regs m))) res = fst (mmu_walk rd va acc el m p)"
    and "p' = p" and "coherent rd (regs m) (pa_bits m) p (m_tlb m')"
proof -
  let ?r = "regs m" and ?key = "va AND va_mask"
  have n: "32 \<le> pa_bits m" "pa_bits m \<le> 48" and wf: "wf_tlb (m_tlb m)" using inv by (auto simp: mmu_inv_def)
  have "rmap (t_asid_update (\<lambda>_. asid_of ?r)) res = fst (mmu_walk rd va acc el m p) \<and> p' = p \<and>
    coherent rd ?r (pa_bits m) p (m_tlb m')"
  proof (cases "enabled ?r")
    case False
    then have "res = mmu_off ?r (pa_bits m) va acc el" "m' = m" "p' = p"
      using tr by (auto simp: translate_def translate_checked_def check_device_alignment_def Let_def
          split: sum.splits) (cases "mmu_off ?r (pa_bits m) va acc el"; simp)+
    then show ?thesis
      using False co by (auto simp: mmu_walk_def mmu_off_def Let_def)
  next
    case True
    show ?thesis
    proof (cases "select ?r va")
      case (Inl k)
      then show ?thesis using tr True co
        by (auto simp: translate_def translate_checked_def mmu_walk_def Let_def)
    next
      case (Inr hi)
      obtain w where w: "walk_tables rd ?r (pa_bits m) p va hi = (w, p)"
        using walk_tables_pure [OF pure, of ?r "pa_bits m" p va hi] by (metis prod.collapse)
      show ?thesis
      proof (cases "lookup ?key (asid_of ?r) (m_tlb m)")
        case (Some e)
        let ?t = "entry_translation ?key ?r e"
        have "w = Inr (?t\<lparr>t_asid := asid_of ?r\<rparr>)" using coherentD [OF co Inr Some] w by simp
        moreover have "res = checked ?r ?t va acc el True" "m' = m" "p' = p"
          using tr True Inr Some by (auto simp: translate_def translate_checked_def Let_def)
        ultimately show ?thesis
          using True Inr w co
          by (cases "check ?r ?t acc el") (simp_all add: mmu_walk_def checked_aligned check_asid Let_def)
      next
        case None
        show ?thesis
        proof (cases w)
          case (Inl k)
          then show ?thesis using tr True Inr None w co
            by (auto simp: translate_def translate_checked_def mmu_walk_def Let_def)
        next
          case (Inr x)
          with \<open>select ?r va = Inr hi\<close> None True tr w have
            "res = checked ?r x va acc el True" "p' = p"
            "m' = m\<lparr>m_tlb := tlb_insert ?key (entry_new ?key x) (m_tlb m)\<rparr>"
            by (auto simp: translate_def translate_checked_def Let_def)
          moreover have "coherent rd ?r (pa_bits m) p (tlb_insert ?key (entry_new ?key x) (m_tlb m))"
            using coherent_insert [OF co wf n \<open>select ?r va = Inr hi\<close>] w Inr by simp
          moreover have "t_asid x = asid_of ?r"
            using w [unfolded Inr] by (rule walk_tables_cases) (simp add: walk_leaf_fields(6))
          ultimately show ?thesis
            using True \<open>select ?r va = Inr hi\<close> w Inr
            by (cases "check ?r x acc el")
              (simp_all add: mmu_walk_def checked_aligned asid_update_self Let_def)
        qed
      qed
    qed
  qed
  then show "rmap (t_asid_update (\<lambda>_. asid_of ?r)) res = fst (mmu_walk rd va acc el m p)" "p' = p"
    "coherent rd ?r (pa_bits m) p (m_tlb m')" by auto
qed

lemma tlbi_target_entry_new:
  assumes "wf_entry e" "entry_contains key e" "e_global e \<or> e_asid e = asid_of r"
  shows "tlbi_target op xt (entry_new key ((entry_translation key r e)\<lparr>t_asid := asid_of r\<rparr>)) =
    tlbi_target op xt e"
proof -
  obtain b where b: "block_bits b e" using assms(1) by (auto simp: wf_entry_def)
  have "key AND NOT (e_size e - 1) = e_va_base e"
    using entry_contains_block [OF b, of key] assms(2) block_bitsD(3) [OF b] by (simp add: mask_eq_exp_minus_1)
  then show ?thesis
    using assms(3)
    by (cases op) (auto simp: tlbi_target_def entry_new_def entry_translation_def Let_def)
qed

subsection \<open>Snapshot\<close>

definition mmu_img :: "mmu \<Rightarrow> bytes" where
  "mmu_img m = le_bytes 8 (of_nat (pa_bits m) :: u64) @ le_bytes 8 (sctlr (regs m)) @
    le_bytes 8 (tcr (regs m)) @ le_bytes 8 (ttbr0 (regs m)) @ le_bytes 8 (ttbr1 (regs m)) @
    le_bytes 8 (mair (regs m)) @ tlb_img (m_tlb m)"

definition mmu_fits :: "mmu \<Rightarrow> mmu \<Rightarrow> bool" where
  "mmu_fits m0 m \<longleftrightarrow> pa_bits m0 = pa_bits m \<and> tlb_fits (m_tlb m0) (m_tlb m)"

definition mmu_restored :: "mmu \<Rightarrow> mmu \<Rightarrow> mmu" where
  "mmu_restored m0 m =
    m0\<lparr>regs := regs m, m_tlb := tlb_restored (m_tlb m0) (m_tlb m), last_fault := None,
       recents := replicate (length (recents m0)) recent_empty, recent_regs := regs_default,
       recent_epoch := recent_epoch m0 + 1\<rparr>"

interpretation mmus: snapshot mmu_save mmu_restore mmu_img mmu_fits mmu_restored
proof
  show "mmu_save m w = w_raw (mmu_img m) w" for m w
    by (simp add: mmu_save_def mmu_img_def codec_simps tlb_save_raw Let_def)
  show "mmu_restore m0 (reader_at tg pre (mmu_img m @ xs)) =
      Inr (mmu_restored m0 m, reader_at tg (pre @ mmu_img m) xs)" if "mmu_fits m0 m" for m0 m tg pre xs
    using that tlbs.restore_img [of "m_tlb m0" "m_tlb m" tg]
    by (cases "regs m") (simp add: mmu_restore_def mmu_img_def codec_simps mmu_fits_def mmu_restored_def)
  show "mmu_img (mmu_restored m0 m) = mmu_img m" if "mmu_fits m0 m" for m0 m
    using that tlbs.img_restored [of "m_tlb m0" "m_tlb m"]
    by (simp add: mmu_img_def mmu_restored_def mmu_fits_def)
qed

text \<open>The full path only depends on the registers, the address size and the TLB's entries.\<close>

lemma translate_checked_entries:
  assumes "regs m' = regs m" "pa_bits m' = pa_bits m" "entries (m_tlb m') = entries (m_tlb m)"
  shows "fst (translate_checked rd va acc el al m' p) = fst (translate_checked rd va acc el al m p) \<and>
    snd (snd (translate_checked rd va acc el al m' p)) = snd (snd (translate_checked rd va acc el al m p))"
proof -
  have "lookup key asid (m_tlb m') = lookup key asid (m_tlb m)" for key asid
    using assms(3) by (simp add: lookup_def)
  then show ?thesis
    using assms(1,2) by (auto simp: translate_checked_def Let_def split: sum.split option.split prod.split)
qed

lemma mmu_inv_restored:
  assumes "mmu_inv m0" "mmu_inv m" "pa_bits m0 = pa_bits m"
  shows "mmu_inv (mmu_restored m0 m)"
proof -
  have "wf_tlb (tlb_restored (m_tlb m0) (m_tlb m))"
    using assms(1,2) by (simp add: mmu_inv_def tlb_restored_def wf_tlb_def note_inval_def)
  moreover have "rc_epoch (replicate recent_len recent_empty ! i) = 0"
    "rc_tlb_gen (replicate recent_len recent_empty ! i) = 0" if "i < recent_len" for i
    using that by (simp_all add: recent_empty_def)
  ultimately show ?thesis
    using assms by (auto simp: mmu_inv_def mmu_restored_def live_def)
qed

subsection \<open>Properties\<close>

text \<open>
  C3. The cache of recent translations changes nothing observable: in every state its
  clients can bring an MMU to, translating through it gives the physical address or the fault
  of the full path with the same registers, leaves the same TLB and the same physical memory,
  and ends in a state of the same kind.
\<close>

theorem recent_cache_transparent:
  assumes "mmu_reach ph m"
    and "translate_checked rd va acc el aligned (m\<lparr>regs := r\<rparr>) p = (res, m1, p1)"
  shows "\<exists>m'. translate_pa_with rd r va acc el aligned m p = (rmap t_pa res, m', p1) \<and>
    m_tlb m' = m_tlb m1 \<and> regs m' = r \<and> mmu_inv m'"
  using translate_pa_with_cached [OF mmu_reach_inv [OF assms(1)] assms(2)] by blast

text \<open>A physical memory that holds one descriptor everywhere, and an MMU on it.\<close>

definition desc_read :: "u64 phys_read" where
  "desc_read pa n d = (Inr (le_bytes n d), d)"

definition desc_phys :: "u64 phys_ops" where
  "desc_phys = \<lparr>ph_read = desc_read, ph_write = (\<lambda>pa b d. (Inr (), d)),
    ph_cmpxchg = phys_cmpxchg desc_read (\<lambda>pa b d. (Inr (), d)), ph_broadcast = (\<lambda>op xt d. d)\<rparr>"

definition demo_mmu :: mmu where
  "demo_mmu = (the (mmu_new 40))\<lparr>regs := demo_regs\<rparr>"

lemma demo_mmu_reach: "mmu_reach desc_phys demo_mmu"
  unfolding demo_mmu_def by (intro reach_regs, rule reach_new [of 40]) (simp add: mmu_new_def)

lemma demo_mmu_fields:
  "regs demo_mmu = demo_regs" "pa_bits demo_mmu = 40" "m_tlb demo_mmu = tlb_new"
  by (simp_all add: demo_mmu_def mmu_new_def)

lemma desc_read_pure: "pure_read desc_read"
  by (simp add: pure_read_def desc_read_def)

lemma demo_select: "select demo_regs 0x12345 = Inr False"
  by code_simp

lemma demo_desc_walk:
  "walk_tables desc_read demo_regs 40 0x441 0x12345 False = (Inr demo_translation, 0x441)"
  by code_simp

lemma demo_translate:
  "translate_checked desc_read 0x12345 Read 1 True (demo_mmu\<lparr>regs := demo_regs\<rparr>) 0x441 =
    (Inr demo_translation, demo_mmu\<lparr>m_tlb := demo_tlb\<rparr>, 0x441)"
proof -
  have "lookup (0x12345 AND va_mask) (asid_of demo_regs) (m_tlb demo_mmu) = None"
    using slot_less by (simp add: demo_mmu_fields lookup_def tlb_new_def)
  moreover have "0x12345 AND va_mask = 0x12345" by (simp add: va_mask_def)
  moreover have "enabled demo_regs" by (simp add: enabled_def demo_regs_def sctlr_M_def)
  moreover have "checked demo_regs demo_translation 0x12345 Read 1 True = Inr demo_translation"
    by code_simp
  moreover have "demo_mmu\<lparr>regs := demo_regs\<rparr> = demo_mmu" by (simp add: demo_mmu_def)
  ultimately show ?thesis
    by (simp add: translate_checked_def demo_mmu_fields demo_select demo_desc_walk demo_tlb_def)
qed

theorem recent_cache_transparent_witness:
  "\<exists>m'. translate_pa_with desc_read demo_regs 0x12345 Read 1 True demo_mmu 0x441 = (Inr 0x12345, m', 0x441) \<and>
    m_tlb m' = demo_tlb \<and> mmu_inv m'"
  using recent_cache_transparent [OF demo_mmu_reach demo_translate]
  by (auto simp: demo_translation_def)

text \<open>
  C5. The TLB is transparent while the tables do not change: if every translation it holds for
  the current registers is the one the tables give, a translation through it gives the result
  or the fault of the walk of the tables without it (of a global entry only the ASID field may
  differ), and the entry it inserts, which stands for its whole page or block, keeps that so.
\<close>

theorem tlb_transparent:
  assumes "mmu_reach ph m" "pure_read rd" "coherent rd (regs m) (pa_bits m) p (m_tlb m)"
    and "translate rd va acc el m p = (res, m', p')"
  shows "rmap (t_asid_update (\<lambda>_. asid_of (regs m))) res = fst (mmu_walk rd va acc el m p) \<and> p' = p \<and>
    coherent rd (regs m) (pa_bits m) p (m_tlb m')"
  using translate_coherent [OF mmu_reach_inv [OF assms(1)] assms(2-4)] by blast

theorem tlb_transparent_witness:
  "coherent desc_read demo_regs 40 0x441 tlb_new \<and>
   fst (mmu_walk desc_read 0x12345 Read 1 demo_mmu 0x441) = Inr demo_translation \<and>
   coherent desc_read demo_regs 40 0x441 demo_tlb"
proof -
  have m: "demo_mmu\<lparr>regs := demo_regs\<rparr> = demo_mmu" by (simp add: demo_mmu_def)
  have t: "translate desc_read 0x12345 Read 1 demo_mmu 0x441 =
      (Inr demo_translation, demo_mmu\<lparr>m_tlb := demo_tlb\<rparr>, 0x441)"
    using demo_translate by (simp add: translate_def m)
  have a: "demo_translation\<lparr>t_asid := asid_of demo_regs\<rparr> = demo_translation" by code_simp
  show ?thesis
    using tlb_transparent [OF demo_mmu_reach desc_read_pure _ t] a
      coherent_empty [of desc_read demo_regs 40 "0x441"] by (simp add: demo_mmu_fields)
qed

text \<open>
  C15. Invalidation restores coherence: when the tables change from one content of memory to
  another, a TLBI that is meant for the old translation of every address whose translation
  changed leaves a TLB that agrees with the new tables.
\<close>

theorem tlbi_restores_coherence:
  assumes wf: "wf_tlb t" and co: "coherent rd r n p t"
    and changed: "\<And>va hi w. select r va = Inr hi \<Longrightarrow> fst (walk_tables rd r n p va hi) = Inr w \<Longrightarrow>
      fst (walk_tables rd r n p2 va hi) \<noteq> Inr w \<Longrightarrow> tlbi_target op xt (entry_new (va AND va_mask) w)"
  shows "coherent rd r n p2 (tlbi op xt t)"
  unfolding coherent_def
proof (intro allI impI)
  fix va hi e
  assume sel: "select r va = Inr hi" and lk: "lookup (va AND va_mask) (asid_of r) (tlbi op xt t) = Some e"
  let ?key = "va AND va_mask"
  let ?w = "(entry_translation ?key r e)\<lparr>t_asid := asid_of r\<rparr>"
  have lk': "lookup ?key (asid_of r) t = Some e" "\<not> tlbi_covers op xt e"
    using lk lookup_map_filter [OF tlbi_entries, of t ?key "asid_of r" op xt] wf
    by (auto simp: wf_tlb_def split: option.splits if_splits)
  have e: "wf_entry e" "entry_contains ?key e" "e_global e \<or> e_asid e = asid_of r"
    using lookup_SomeD [OF lk'(1)] wf_tlb_entry [OF wf _ slot_less] by blast+
  have "\<not> tlbi_target op xt (entry_new ?key ?w)"
    using lk'(2) by (simp add: tlbi_target_entry_new [OF e] tlbi_target_covers [OF e(1)])
  then show "fst (walk_tables rd r n p2 va hi) = Inr ?w"
    using changed [OF sel coherentD [OF co sel lk'(1)]] by blast
qed

theorem tlbi_restores_coherence_witness:
  "wf_tlb demo_tlb \<and> coherent desc_read demo_regs 40 0 (tlbi Vmalle1 0 demo_tlb)"
proof -
  have "coherent desc_read demo_regs 40 0x441 demo_tlb"
    using coherent_insert [OF coherent_empty wf_tlb_new _ _ demo_select demo_desc_walk]
    by (simp add: demo_tlb_def va_mask_def)
  then have "coherent desc_read demo_regs 40 0 (tlbi Vmalle1 0 demo_tlb)"
    by (rule tlbi_restores_coherence [OF wf_demo_tlb]) (simp add: tlbi_target_def)
  then show ?thesis using wf_demo_tlb by simp
qed

text \<open>
  C22. Snapshot of the MMU: restoring, in any MMU with the same address size, what was saved of a
  reachable one succeeds and reads exactly those bytes; the restored MMU translates every
  access as the saved one (same results, faults and effect on memory), its own cache restarts
  in a state that keeps it transparent, and saving it again gives the same bytes.
\<close>

theorem mmu_snapshot:
  assumes "mmu_reach ph m" "mmu_reach ph' m0" "pa_bits m0 = pa_bits m"
  shows "\<exists>m' rest. mmu_restore m0 (r_new (wbuf (mmu_save m w_new))) = Inr (m', rest) \<and>
    remaining rest = 0 \<and> mmu_inv m' \<and> (\<forall>w. mmu_save m' w = mmu_save m w) \<and>
    (\<forall>va acc el al p. fst (translate_checked rd va acc el al m' p) =
        fst (translate_checked rd va acc el al m p) \<and>
      snd (snd (translate_checked rd va acc el al m' p)) = snd (snd (translate_checked rd va acc el al m p)))"
proof -
  have inv: "mmu_inv m" "mmu_inv m0" using assms(1,2) by (auto intro: mmu_reach_inv)
  then have f: "mmu_fits m0 m"
    using assms(3) wf_tlb_fits by (simp add: mmu_fits_def mmu_inv_def)
  have e: "regs (mmu_restored m0 m) = regs m" "pa_bits (mmu_restored m0 m) = pa_bits m"
    "entries (m_tlb (mmu_restored m0 m)) = entries (m_tlb m)"
    using assms(3) by (simp_all add: mmu_restored_def tlb_restored_def note_inval_def)
  show ?thesis
    using mmus.save_restore [OF f] mmus.save_again [OF f] mmu_inv_restored [OF inv(2,1) assms(3)]
      translate_checked_entries [OF e, of rd] by auto
qed

theorem mmu_snapshot_witness:
  "\<exists>m' rest. mmu_restore demo_mmu (r_new (wbuf (mmu_save (demo_mmu\<lparr>m_tlb := demo_tlb\<rparr>) w_new))) = Inr (m', rest) \<and>
    remaining rest = 0 \<and> fst (translate_checked desc_read 0x12345 Read 1 True m' 0) =
      fst (translate_checked desc_read 0x12345 Read 1 True (demo_mmu\<lparr>m_tlb := demo_tlb\<rparr>) 0)"
proof -
  have m: "demo_mmu\<lparr>regs := demo_regs\<rparr> = demo_mmu" by (simp add: demo_mmu_def)
  have "mmu_reach desc_phys (demo_mmu\<lparr>m_tlb := demo_tlb\<rparr>)"
    using demo_translate by (intro reach_translate [OF demo_mmu_reach])
      (simp add: translate_def m desc_phys_def)
  from mmu_snapshot [OF this demo_mmu_reach, of desc_read] show ?thesis by auto
qed

subsection \<open>Entries smaller than a page\<close>

text \<open>
  \<^verbatim>\<open>Tlb::restore\<close> accepts any power-of-two size, also below a page. With such an entry the
  recent cache, which remembers whole pages, is no longer transparent: after an access inside
  the entry, an access to the rest of its page is translated although the full path faults.
\<close>

definition small_entry :: tlb_entry where
  "small_entry = \<lparr>e_va_base = 0x1000, e_size = 16, e_pa_base = 0x5000, e_asid = 0, e_global = True,
    e_level = 3, e_perms = \<lparr>ap = 1, uxn = False, pxn = False\<rparr>, e_attr_index = 0, e_sh = 0\<rparr>"

definition small_saved :: mmu where
  "small_saved = demo_mmu\<lparr>m_tlb := tlb_insert 0x1000 small_entry tlb_new\<rparr>"

lemma small_fits: "mmu_fits demo_mmu small_saved"
proof -
  have "entry_accepted small_entry"
    by (simp add: entry_accepted_def small_entry_def is_power_of_two_def)
  then show ?thesis
    by (auto simp: mmu_fits_def tlb_fits_def small_saved_def demo_mmu_fields tlb_insert_def tlb_new_def Let_def
        dest!: set_update_subset_insert [THEN subsetD])
qed


end
