(* ===== verification/Timer.thy ===== *)
theory Timer
  imports Snapshot
begin

text \<open>
  The ARM generic timer, \<^verbatim>\<open>crates/vetro-platform/src/timer.rs\<close>: one channel (CTL, CVAL) and the
  two channels of a CPU. The physical counter is an argument of every operation, as in the
  source. The interrupt numbers are those of \<^verbatim>\<open>map.rs\<close>.
\<close>

subsection \<open>Model\<close>

definition ctl_enable :: u64 where "ctl_enable = push_bit 0 1"
definition ctl_imask :: u64 where "ctl_imask = push_bit 1 1"
definition ctl_istatus :: u64 where "ctl_istatus = push_bit 2 1"

definition ppi_vtimer :: u32 where "ppi_vtimer = 27"
definition ppi_ptimer :: u32 where "ppi_ptimer = 30"
definition cntfrq_hz :: u32 where "cntfrq_hz = 62500000"

record channel =
  ctl :: u64
  cval :: u64

definition channel_default :: channel where
  "channel_default = \<lparr>ctl = 0, cval = 0\<rparr>"

definition istatus :: "u64 \<Rightarrow> channel \<Rightarrow> bool" where
  "istatus count c \<longleftrightarrow> ctl c AND ctl_enable \<noteq> 0 \<and> cval c \<le> count"

definition ch_irq_level :: "u64 \<Rightarrow> channel \<Rightarrow> bool" where
  "ch_irq_level count c \<longleftrightarrow> istatus count c \<and> ctl c AND ctl_imask = 0"

definition read_ctl :: "u64 \<Rightarrow> channel \<Rightarrow> u64" where
  "read_ctl count c = ctl c OR (if istatus count c then ctl_istatus else 0)"

definition write_ctl :: "u64 \<Rightarrow> channel \<Rightarrow> channel" where
  "write_ctl v c = c\<lparr>ctl := v AND (ctl_enable OR ctl_imask)\<rparr>"

definition read_cval :: "channel \<Rightarrow> u64" where
  "read_cval c = cval c"

definition write_cval :: "u64 \<Rightarrow> channel \<Rightarrow> channel" where
  "write_cval v c = c\<lparr>cval := v\<rparr>"

definition read_tval :: "u64 \<Rightarrow> channel \<Rightarrow> u64" where
  "read_tval count c = ucast (ucast (cval c - count) :: u32)"

definition write_tval :: "u64 \<Rightarrow> u64 \<Rightarrow> channel \<Rightarrow> channel" where
  "write_tval count v c = c\<lparr>cval := count + scast (ucast v :: u32)\<rparr>"

definition deadline :: "u64 \<Rightarrow> channel \<Rightarrow> u64 option" where
  "deadline count c =
    (if ctl c AND (ctl_enable OR ctl_imask) = ctl_enable \<and> count < cval c then Some (cval c) else None)"

record timer =
  cntfrq :: u32
  cntvoff :: u64
  phys :: channel
  virt :: channel

definition timer_new :: "u32 \<Rightarrow> timer" where
  "timer_new f = \<lparr>cntfrq = f, cntvoff = 0, phys = channel_default, virt = channel_default\<rparr>"

definition timer_default :: timer where
  "timer_default = timer_new cntfrq_hz"

definition cntvct :: "u64 \<Rightarrow> timer \<Rightarrow> u64" where
  "cntvct cntpct t = cntpct - cntvoff t"

definition cntp_ctl :: "u64 \<Rightarrow> timer \<Rightarrow> u64" where
  "cntp_ctl cntpct t = read_ctl cntpct (phys t)"
definition set_cntp_ctl :: "u64 \<Rightarrow> timer \<Rightarrow> timer" where
  "set_cntp_ctl v t = t\<lparr>phys := write_ctl v (phys t)\<rparr>"
definition cntp_cval :: "timer \<Rightarrow> u64" where
  "cntp_cval t = read_cval (phys t)"
definition set_cntp_cval :: "u64 \<Rightarrow> timer \<Rightarrow> timer" where
  "set_cntp_cval v t = t\<lparr>phys := write_cval v (phys t)\<rparr>"
definition cntp_tval :: "u64 \<Rightarrow> timer \<Rightarrow> u64" where
  "cntp_tval cntpct t = read_tval cntpct (phys t)"
definition set_cntp_tval :: "u64 \<Rightarrow> u64 \<Rightarrow> timer \<Rightarrow> timer" where
  "set_cntp_tval cntpct v t = t\<lparr>phys := write_tval cntpct v (phys t)\<rparr>"

definition cntv_ctl :: "u64 \<Rightarrow> timer \<Rightarrow> u64" where
  "cntv_ctl cntpct t = read_ctl (cntvct cntpct t) (virt t)"
definition set_cntv_ctl :: "u64 \<Rightarrow> timer \<Rightarrow> timer" where
  "set_cntv_ctl v t = t\<lparr>virt := write_ctl v (virt t)\<rparr>"
definition cntv_cval :: "timer \<Rightarrow> u64" where
  "cntv_cval t = read_cval (virt t)"
definition set_cntv_cval :: "u64 \<Rightarrow> timer \<Rightarrow> timer" where
  "set_cntv_cval v t = t\<lparr>virt := write_cval v (virt t)\<rparr>"
definition cntv_tval :: "u64 \<Rightarrow> timer \<Rightarrow> u64" where
  "cntv_tval cntpct t = read_tval (cntvct cntpct t) (virt t)"
definition set_cntv_tval :: "u64 \<Rightarrow> u64 \<Rightarrow> timer \<Rightarrow> timer" where
  "set_cntv_tval cntpct v t = t\<lparr>virt := write_tval (cntvct cntpct t) v (virt t)\<rparr>"

definition irq_lines :: "u64 \<Rightarrow> timer \<Rightarrow> (u32 \<times> bool) list" where
  "irq_lines cntpct t =
    [(ppi_vtimer, ch_irq_level (cntvct cntpct t) (virt t)), (ppi_ptimer, ch_irq_level cntpct (phys t))]"

definition next_deadline :: "u64 \<Rightarrow> timer \<Rightarrow> u64 option" where
  "next_deadline cntpct t =
    (let v = map_option (\<lambda>c. c + cntvoff t) (deadline (cntvct cntpct t) (virt t));
         p = deadline cntpct (phys t)
     in case (v, p) of
          (Some a, Some b) \<Rightarrow> Some (min a b)
        | (Some a, None) \<Rightarrow> Some a
        | (None, b) \<Rightarrow> b)"

definition timer_save :: "timer \<Rightarrow> writer \<Rightarrow> writer" where
  "timer_save t w =
    w_u64 (cval (virt t)) (w_u64 (ctl (virt t)) (w_u64 (cval (phys t)) (w_u64 (ctl (phys t))
      (w_u64 (cntvoff t) (w_u32 (cntfrq t) w)))))"

definition timer_restore :: "timer \<Rightarrow> reader \<Rightarrow> snap_error + timer \<times> reader" where
  "timer_restore t r =
    rbind (r_u32 r) (\<lambda>(f, r). rbind (r_u64 r) (\<lambda>(off, r).
    rbind (r_u64 r) (\<lambda>(pctl, r). rbind (r_u64 r) (\<lambda>(pcval, r).
    rbind (r_u64 r) (\<lambda>(vctl, r). rbind (r_u64 r) (\<lambda>(vcval, r).
      Inr (t\<lparr>cntfrq := f, cntvoff := off, phys := (write_ctl pctl (phys t))\<lparr>cval := pcval\<rparr>,
             virt := (write_ctl vctl (virt t))\<lparr>cval := vcval\<rparr>\<rparr>, r)))))))"

subsection \<open>Channels\<close>

text \<open>The control bits a channel can hold.\<close>

definition wf_channel :: "channel \<Rightarrow> bool" where
  "wf_channel c \<longleftrightarrow> ctl c AND (ctl_enable OR ctl_imask) = ctl c"

definition wf_timer :: "timer \<Rightarrow> bool" where
  "wf_timer t \<longleftrightarrow> wf_channel (phys t) \<and> wf_channel (virt t)"

lemma ctl_bits:
  "(ctl c AND ctl_enable \<noteq> 0) = bit (ctl c) 0" "(ctl c AND ctl_imask \<noteq> 0) = bit (ctl c) 1"
  by (simp_all only: ctl_enable_def ctl_imask_def word_ne_zero_test)

lemma and_mask_2: "(w :: u64) AND mask 2 = 1 \<longleftrightarrow> bit w 0 \<and> \<not> bit w 1"
proof
  assume e: "w AND mask 2 = 1"
  show "bit w 0 \<and> \<not> bit w 1"
    using arg_cong [OF e, of "\<lambda>v. bit v 0"] arg_cong [OF e, of "\<lambda>v. bit v 1"]
    by (simp add: bit_and_iff bit_mask_iff bit_1_iff)
next
  assume b: "bit w 0 \<and> \<not> bit w 1"
  show "w AND mask 2 = 1"
  proof (rule bit_word_eqI)
    fix n assume "n < LENGTH(64)"
    then consider "n = 0" | "n = 1" | "2 \<le> n" by linarith
    then show "bit (w AND mask 2) n = bit 1 n"
      using b by cases (simp_all add: bit_and_iff bit_mask_iff bit_1_iff)
  qed
qed

lemma ctl_armed:
  "ctl c AND (ctl_enable OR ctl_imask) = ctl_enable \<longleftrightarrow> bit (ctl c) 0 \<and> \<not> bit (ctl c) 1"
proof -
  have m: "ctl_enable OR ctl_imask = mask 2" "ctl_enable = 1"
    by (simp_all add: ctl_enable_def ctl_imask_def mask_eq_exp_minus_1)
  show ?thesis unfolding m(1) using and_mask_2 [of "ctl c"] m(2) by simp
qed

lemma ch_irq_level_alt:
  "ch_irq_level count c \<longleftrightarrow> bit (ctl c) 0 \<and> \<not> bit (ctl c) 1 \<and> cval c \<le> count"
  using ctl_bits [of c] by (auto simp: ch_irq_level_def istatus_def)

lemma wf_write_ctl: "wf_channel (write_ctl v c)"
  by (simp add: wf_channel_def write_ctl_def and.assoc)

lemma ch_irq_level_deadline:
  assumes "now \<le> c"
  shows "(ch_irq_level c ch \<noteq> ch_irq_level now ch) \<longleftrightarrow> (\<exists>d. deadline now ch = Some d \<and> d \<le> c)"
  using assms by (auto simp: ch_irq_level_alt deadline_def ctl_armed)

lemma ucast_minus_u32: "(ucast ((a :: u64) - b) :: u32) = ucast a - ucast b"
proof transfer
  fix a b :: int
  have "take_bit 32 (take_bit 64 a - take_bit 64 b) =
      take_bit 32 (take_bit 32 (take_bit 64 a) - take_bit 32 (take_bit 64 b))"
    by (rule take_bit_diff [symmetric])
  also have "\<dots> = take_bit 32 (take_bit 32 a - take_bit 32 b)" by simp
  finally show "take_bit LENGTH(32) (take_bit LENGTH(64) (a - b)) =
      take_bit LENGTH(32) (take_bit LENGTH(64) a - take_bit LENGTH(64) b)"
    by (simp add: take_bit_diff)
qed

lemma ucast_scast_u32: "(ucast (scast (x :: u32) :: u64) :: u32) = x"
  by transfer (simp add: take_bit_signed_take_bit)

subsection \<open>Snapshot\<close>

definition timer_img :: "timer \<Rightarrow> bytes" where
  "timer_img t = le_bytes 4 (cntfrq t) @ le_bytes 8 (cntvoff t) @ le_bytes 8 (ctl (phys t)) @
    le_bytes 8 (cval (phys t)) @ le_bytes 8 (ctl (virt t)) @ le_bytes 8 (cval (virt t))"

interpretation timers: snapshot timer_save timer_restore timer_img "\<lambda>t0 t. wf_timer t" "\<lambda>t0 t. t"
proof
  show "timer_save t w = w_raw (timer_img t) w" for t w
    by (simp add: timer_save_def timer_img_def codec_simps)
  show "timer_restore t0 (reader_at tg pre (timer_img t @ xs)) = Inr (t, reader_at tg (pre @ timer_img t) xs)"
    if "wf_timer t" for t0 t tg pre xs
    using that
    by (cases t; cases "phys t"; cases "virt t")
      (simp add: timer_restore_def timer_img_def codec_simps wf_timer_def wf_channel_def write_ctl_def)
qed simp_all

subsection \<open>Properties\<close>

text \<open>
  C17. The deadline the engine schedules by is exact: from a moment \<open>now\<close> on, the lines to the
  interrupt controller change at a moment \<open>c\<close> if and only if the deadline computed at \<open>now\<close>
  exists and has been reached. (The virtual counter must not wrap: CNTVOFF at most \<open>now\<close>, and
  the compare value plus CNTVOFF within 64 bits; without EL2 CNTVOFF is zero.)
\<close>

theorem next_deadline_exact:
  assumes "cntvoff t \<le> now" "unat (cval (virt t)) + unat (cntvoff t) < 2 ^ 64" "now \<le> c"
  shows "irq_lines c t \<noteq> irq_lines now t \<longleftrightarrow> (\<exists>d. next_deadline now t = Some d \<and> d \<le> c)"
proof -
  let ?off = "cntvoff t"
  have v: "cntvct now t \<le> cntvct c t"
    using assms(1,3) by (simp add: cntvct_def word_le_nat_alt unat_sub)
  have sum: "unat (cval (virt t) + ?off) = unat (cval (virt t)) + unat ?off"
    using assms(2) by (simp add: unat_word_ariths)
  have ge: "cval (virt t) + ?off \<le> c \<longleftrightarrow> cval (virt t) \<le> cntvct c t"
  proof -
    have "?off \<le> c" using assms(1,3) by simp
    then have "unat (c - ?off) = unat c - unat ?off" by (rule unat_sub)
    then show ?thesis using sum \<open>?off \<le> c\<close> by (auto simp: cntvct_def word_le_nat_alt)
  qed
  have dv: "(\<exists>d. map_option (\<lambda>x. x + ?off) (deadline (cntvct now t) (virt t)) = Some d \<and> d \<le> c) \<longleftrightarrow>
      (\<exists>d. deadline (cntvct now t) (virt t) = Some d \<and> d \<le> cntvct c t)"
    using ge by (auto simp: deadline_def)
  have "irq_lines c t \<noteq> irq_lines now t \<longleftrightarrow>
      (\<exists>d. deadline (cntvct now t) (virt t) = Some d \<and> d \<le> cntvct c t) \<or>
      (\<exists>d. deadline now (phys t) = Some d \<and> d \<le> c)"
    using ch_irq_level_deadline [OF v, of "virt t"] ch_irq_level_deadline [OF assms(3), of "phys t"]
    by (auto simp: irq_lines_def)
  also have "\<dots> \<longleftrightarrow> (\<exists>d. next_deadline now t = Some d \<and> d \<le> c)"
    unfolding dv [symmetric]
    by (auto simp: next_deadline_def Let_def min_le_iff_disj split: option.splits)
  finally show ?thesis .
qed

theorem next_deadline_exact_witness:
  "irq_lines 150 (timer_new 1\<lparr>phys := \<lparr>ctl = 1, cval = 120\<rparr>\<rparr>) \<noteq>
   irq_lines 100 (timer_new 1\<lparr>phys := \<lparr>ctl = 1, cval = 120\<rparr>\<rparr>)"
  using next_deadline_exact [of "timer_new 1\<lparr>phys := \<lparr>ctl = 1, cval = 120\<rparr>\<rparr>" 100 150]
  by (simp add: timer_new_def channel_default_def next_deadline_def deadline_def cntvct_def
      ctl_enable_def ctl_imask_def)

text \<open>
  TVAL counts down: \<open>k\<close> ticks after a write of TVAL the register reads the written value
  minus \<open>k\<close>, in 32 bits, whatever the counter was.
\<close>

theorem tval_counts_down:
  "read_tval (count + k) (write_tval count v c) = ucast (ucast (v - k) :: u32)"
  by (simp add: read_tval_def write_tval_def ucast_minus_u32 ucast_scast_u32)

end
