(* ===== verification/Mmio_Bus.thy ===== *)
theory Mmio_Bus
  imports Prelude
begin

text \<open>
  The MMIO bus, \<^verbatim>\<open>crates/vetro-platform/src/bus.rs\<close>: regions, their mapping, the search of the region
  of an access and the routing. A boxed device is a value of the bus's parameter type and the
  trait's \<^verbatim>\<open>read\<close> and \<^verbatim>\<open>write\<close> are arguments; \<^verbatim>\<open>partition_point\<close>, which the standard library
  specifies on partitioned slices, is the length of the longest prefix that satisfies the
  predicate. The typed accessors \<^verbatim>\<open>device\<close> and \<^verbatim>\<open>device_mut\<close> are not modelled.
\<close>

subsection \<open>Model\<close>

type_synonym 'd mmio_read = "u64 \<Rightarrow> u8 \<Rightarrow> 'd \<Rightarrow> u64 \<times> 'd"
type_synonym 'd mmio_write = "u64 \<Rightarrow> u8 \<Rightarrow> u64 \<Rightarrow> 'd \<Rightarrow> 'd"

datatype map_error = InvalidRange u64 u64 | Overlap u64 u64 string

record 'd region =
  rg_base :: u64
  rg_size :: u64
  rg_name :: string
  rg_device :: 'd

definition rg_end :: "'d region \<Rightarrow> u64" where
  "rg_end r = rg_base r + rg_size r"

record 'd bus =
  regions :: "'d region list"
  by_base :: "nat list"

definition bus_new :: "'d bus" where
  "bus_new = \<lparr>regions = [], by_base = []\<rparr>"

definition partition_point :: "('a \<Rightarrow> bool) \<Rightarrow> 'a list \<Rightarrow> nat" where
  "partition_point P xs = length (takeWhile P xs)"

definition bus_map :: "u64 \<Rightarrow> u64 \<Rightarrow> string \<Rightarrow> 'd \<Rightarrow> 'd bus \<Rightarrow> map_error + nat \<times> 'd bus" where
  "bus_map base sz name dev b =
    (if sz = 0 \<or> 2 ^ 64 \<le> unat base + unat sz then Inl (InvalidRange base sz)
     else let en = base + sz
       in case find (\<lambda>r. base < rg_end r \<and> rg_base r < en) (regions b) of
            Some r \<Rightarrow> Inl (Overlap base sz (rg_name r))
          | None \<Rightarrow>
              let i = length (regions b);
                  rs = regions b @ [\<lparr>rg_base = base, rg_size = sz, rg_name = name, rg_device = dev\<rparr>];
                  pos = partition_point (\<lambda>j. rg_base (rs ! j) < base) (by_base b)
              in Inr (i, \<lparr>regions = rs, by_base = take pos (by_base b) @ [i] @ drop pos (by_base b)\<rparr>))"

definition bus_find :: "u64 \<Rightarrow> u8 \<Rightarrow> 'd bus \<Rightarrow> (nat \<times> u64) option" where
  "bus_find addr sz b =
    (let pos = partition_point (\<lambda>j. rg_base (regions b ! j) \<le> addr) (by_base b)
     in if pos = 0 then None
        else let idx = by_base b ! (pos - 1); r = regions b ! idx;
                 extra = unat (max sz 1) - 1
          in if 2 ^ 64 \<le> unat addr + extra then None
             else if addr + of_nat extra < rg_end r then Some (idx, addr - rg_base r) else None)"

definition size_mask :: "u8 \<Rightarrow> u64" where
  "size_mask sz =
    (if sz = 1 then 0xFF else if sz = 2 then 0xFFFF else if sz = 4 then 0xFFFFFFFF else - 1)"

definition bus_read :: "'d mmio_read \<Rightarrow> u64 \<Rightarrow> u8 \<Rightarrow> 'd bus \<Rightarrow> u64 option \<times> 'd bus" where
  "bus_read rd addr sz b = (case bus_find addr sz b of
      None \<Rightarrow> (None, b)
    | Some (i, off) \<Rightarrow>
        let (v, d) = rd off sz (rg_device (regions b ! i))
        in (Some (v AND size_mask sz),
            b\<lparr>regions := (regions b)[i := (regions b ! i)\<lparr>rg_device := d\<rparr>]\<rparr>))"

definition bus_write :: "'d mmio_write \<Rightarrow> u64 \<Rightarrow> u8 \<Rightarrow> u64 \<Rightarrow> 'd bus \<Rightarrow> bool \<times> 'd bus" where
  "bus_write wr addr sz v b = (case bus_find addr sz b of
      None \<Rightarrow> (False, b)
    | Some (i, off) \<Rightarrow>
        (True, b\<lparr>regions := (regions b)[i := (regions b ! i)
          \<lparr>rg_device := wr off sz (v AND size_mask sz) (rg_device (regions b ! i))\<rparr>]\<rparr>))"

definition bus_region :: "nat \<Rightarrow> 'd bus \<Rightarrow> (string \<times> u64 \<times> u64) option" where
  "bus_region i b =
    (if i < length (regions b)
     then Some (rg_name (regions b ! i), rg_base (regions b ! i), rg_size (regions b ! i)) else None)"

definition sub_word :: "u32 \<Rightarrow> u64 \<Rightarrow> u8 \<Rightarrow> u64" where
  "sub_word w offset sz =
    (let sh = unat ((offset AND 3) * 8) in drop_bit sh (ucast w) AND size_mask sz)"

subsection \<open>Devices\<close>

text \<open>
  What the bus and the board rely on of a device: the \<^verbatim>\<open>read\<close> and \<^verbatim>\<open>write\<close> of \<^verbatim>\<open>MmioDevice\<close> keep
  the device's invariant. A device with a page of 32-bit registers is inert outside its page, for
  accesses wider than a register and for writes that are not register aligned, and its reads
  have only the bits of the access.
\<close>

definition devices_ok :: "('d \<Rightarrow> bool) \<Rightarrow> 'd bus \<Rightarrow> bool" where
  "devices_ok ok b \<longleftrightarrow> (\<forall>r \<in> set (regions b). ok (rg_device r))"

lemma devices_ok_nth: "devices_ok ok b \<Longrightarrow> i < length (regions b) \<Longrightarrow> ok (rg_device (regions b ! i))"
  by (simp add: devices_ok_def)

lemma devices_ok_update:
  assumes "devices_ok ok b" "i < length (regions b) \<Longrightarrow> ok d"
  shows "devices_ok ok (b\<lparr>regions := (regions b)[i := (regions b ! i)\<lparr>rg_device := d\<rparr>]\<rparr>)"
proof (cases "i < length (regions b)")
  case True
  have "set ((regions b)[i := (regions b ! i)\<lparr>rg_device := d\<rparr>]) \<subseteq>
      insert ((regions b ! i)\<lparr>rg_device := d\<rparr>) (set (regions b))"
    by (rule set_update_subset_insert)
  then show ?thesis using assms True by (auto simp: devices_ok_def)
next
  case False
  then show ?thesis using assms(1) by (simp add: devices_ok_def not_less list_update_beyond)
qed

locale mmio_device =
  fixes rd :: "'d mmio_read" and wr :: "'d mmio_write" and ok :: "'d \<Rightarrow> bool"
  assumes rd_inv: "ok d \<Longrightarrow> ok (snd (rd off sz d))"
    and wr_inv: "ok d \<Longrightarrow> ok (wr off sz v d)"
begin

lemma bus_read_devices: "devices_ok ok b \<Longrightarrow> devices_ok ok (snd (bus_read rd addr sz b))"
  by (auto simp: bus_read_def case_prod_unfold Let_def intro!: devices_ok_update rd_inv devices_ok_nth [of ok]
      split: option.split)

lemma bus_write_devices: "devices_ok ok b \<Longrightarrow> devices_ok ok (snd (bus_write wr addr sz v b))"
  by (auto simp: bus_write_def intro!: devices_ok_update wr_inv devices_ok_nth [of ok] split: option.split)

end

locale mmio_page = mmio_device +
  assumes rd_inert: "0x1000 \<le> off \<or> 4 < sz \<Longrightarrow> rd off sz d = (0, d)"
    and wr_inert: "0x1000 \<le> off \<or> 4 < sz \<or> off AND 3 \<noteq> 0 \<Longrightarrow> wr off sz v d = d"
    and rd_bits: "fst (rd off sz d) AND size_mask sz = fst (rd off sz d)"

lemma sub_word_masked [simp]: "sub_word w off sz AND size_mask sz = sub_word w off sz"
  by (simp add: sub_word_def Let_def and.assoc)

subsection \<open>The regions of a bus\<close>

text \<open>Address ranges as natural numbers: where a region begins and ends.\<close>

definition rlo :: "'d bus \<Rightarrow> nat \<Rightarrow> nat" where
  "rlo b i = unat (rg_base (regions b ! i))"

definition rhi :: "'d bus \<Rightarrow> nat \<Rightarrow> nat" where
  "rhi b i = rlo b i + unat (rg_size (regions b ! i))"

definition bus_inv :: "'d bus \<Rightarrow> bool" where
  "bus_inv b \<longleftrightarrow> distinct (by_base b) \<and> set (by_base b) = {..<length (regions b)} \<and>
    sorted (map (rlo b) (by_base b)) \<and>
    (\<forall>i < length (regions b). rlo b i < rhi b i \<and> rhi b i < 2 ^ 64) \<and>
    (\<forall>i < length (regions b). \<forall>j < length (regions b). i \<noteq> j \<longrightarrow> rhi b i \<le> rlo b j \<or> rhi b j \<le> rlo b i)"

lemma bus_inv_new: "bus_inv bus_new"
  by (simp add: bus_inv_def bus_new_def)

lemma unat_rg_end: "unat (rg_base r) + unat (rg_size r) < 2 ^ 64 \<Longrightarrow>
    unat (rg_end r) = unat (rg_base r) + unat (rg_size r)"
  by (simp add: rg_end_def unat_word_ariths)

lemma takeWhile_sorted:
  assumes "sorted (map f xs)"
  shows "takeWhile (\<lambda>x. f x < (c :: nat)) xs = filter (\<lambda>x. f x < c) xs"
  using assms
proof (induction xs)
  case Nil
  then show ?case by simp
next
  case (Cons x xs)
  have "filter (\<lambda>y. f y < c) xs = []" if "\<not> f x < c"
    using Cons.prems that by (force simp: filter_empty_conv)
  then show ?case using Cons by simp
qed

lemma partition_point_sorted:
  assumes "sorted (map f xs)"
  shows "take (partition_point (\<lambda>x. f x < c) xs) xs = filter (\<lambda>x. f x < (c :: nat)) xs"
    and "drop (partition_point (\<lambda>x. f x < c) xs) xs = filter (\<lambda>x. c \<le> f x) xs"
proof -
  have t: "take (partition_point (\<lambda>x. f x < c) xs) xs = takeWhile (\<lambda>x. f x < c) xs"
    by (metis partition_point_def takeWhile_eq_take)
  then show "take (partition_point (\<lambda>x. f x < c) xs) xs = filter (\<lambda>x. f x < c) xs"
    by (simp add: takeWhile_sorted [OF assms])
  have "drop (partition_point (\<lambda>x. f x < c) xs) xs = dropWhile (\<lambda>x. f x < c) xs"
    by (simp add: partition_point_def dropWhile_eq_drop)
  also have "\<dots> = filter (\<lambda>x. c \<le> f x) xs"
    using assms
  proof (induction xs)
    case (Cons x xs)
    have "filter (\<lambda>y. c \<le> f y) xs = xs" if "\<not> f x < c"
      using Cons.prems that by (force simp: filter_id_conv)
    then show ?case using Cons by auto
  qed simp
  finally show "drop (partition_point (\<lambda>x. f x < c) xs) xs = filter (\<lambda>x. c \<le> f x) xs" .
qed

lemma partition_point_cong:
  "(\<And>x. x \<in> set xs \<Longrightarrow> P x = Q x) \<Longrightarrow> partition_point P xs = partition_point Q xs"
  unfolding partition_point_def by (metis takeWhile_cong)

lemma sorted_insert_at:
  fixes c :: nat
  assumes "sorted (map f xs)" "f n = c"
  defines "pos \<equiv> partition_point (\<lambda>x. f x < c) xs"
  shows "sorted (map f (take pos xs @ [n] @ drop pos xs))"
  unfolding pos_def partition_point_sorted [OF assms(1)]
  using assms(1,2) by (auto simp: sorted_append sorted_filter)

lemma insert_at_set:
  "set (take p xs @ [n] @ drop p xs) = insert n (set xs)"
  "distinct xs \<Longrightarrow> n \<notin> set xs \<Longrightarrow> distinct (take p xs @ [n] @ drop p xs)"
proof -
  have s: "set xs = set (take p xs) \<union> set (drop p xs)"
    by (metis append_take_drop_id set_append)
  then show "set (take p xs @ [n] @ drop p xs) = insert n (set xs)" by auto
  show "distinct (take p xs @ [n] @ drop p xs)" if "distinct xs" "n \<notin> set xs"
  proof -
    have "distinct (take p xs @ drop p xs)" using that(1) by simp
    then show ?thesis using that(2) s by (auto simp only: distinct_append set_append Un_iff) auto
  qed
qed

lemma bus_map_ok:
  assumes inv: "bus_inv b" and m: "bus_map base sz name dev b = Inr (i, b')"
  shows "bus_inv b' \<and> i = length (regions b) \<and>
    regions b' = regions b @ [\<lparr>rg_base = base, rg_size = sz, rg_name = name, rg_device = dev\<rparr>]"
proof -
  let ?r = "\<lparr>rg_base = base, rg_size = sz, rg_name = name, rg_device = dev\<rparr>"
  let ?n = "length (regions b)" and ?rs = "regions b @ [?r]"
  let ?pos = "partition_point (\<lambda>j. rg_base (?rs ! j) < base) (by_base b)"
  have ok: "sz \<noteq> 0" "unat base + unat sz < 2 ^ 64"
    and free: "find (\<lambda>r. base < rg_end r \<and> rg_base r < base + sz) (regions b) = None"
    and b': "i = ?n" "regions b' = ?rs" "by_base b' = take ?pos (by_base b) @ [?n] @ drop ?pos (by_base b)"
    using m by (auto simp: bus_map_def Let_def not_le split: if_splits option.splits)
  have fld: "rlo b' j = rlo b j" "rhi b' j = rhi b j" if "j < ?n" for j
    using that by (simp_all add: rlo_def rhi_def b'(2) nth_append)
  have new: "rlo b' ?n = unat base" "rhi b' ?n = unat base + unat sz"
    by (simp_all add: rlo_def rhi_def b'(2))
  have valid: "j < ?n \<Longrightarrow> rlo b j < rhi b j \<and> rhi b j < 2 ^ 64" for j
    using inv by (simp add: bus_inv_def)
  have dj: "rhi b j \<le> unat base \<or> unat base + unat sz \<le> rlo b j" if "j < ?n" for j
  proof -
    have "\<not> (base < rg_end (regions b ! j) \<and> rg_base (regions b ! j) < base + sz)"
      using free that by (auto simp: find_None_iff)
    moreover have "unat (rg_end (regions b ! j)) = rhi b j"
      using valid [OF that] unat_rg_end [of "regions b ! j"] by (simp add: rhi_def rlo_def)
    moreover have "unat (base + sz) = unat base + unat sz"
      using ok(2) by (simp add: unat_word_ariths)
    ultimately show ?thesis by (auto simp: word_less_nat_alt rlo_def)
  qed
  have set_bb: "set (by_base b) = {..<?n}" and dist: "distinct (by_base b)"
    and srt: "sorted (map (rlo b) (by_base b))" using inv by (simp_all add: bus_inv_def)
  have "map (rlo b') (by_base b) = map (rlo b) (by_base b)"
    using set_bb fld(1) by (intro map_cong) auto
  then have srt': "sorted (map (rlo b') (by_base b))" using srt by (simp only:)
  have "?pos = partition_point (\<lambda>j. rlo b' j < unat base) (by_base b)"
    using set_bb by (intro partition_point_cong) (simp add: rlo_def b'(2) word_less_nat_alt)
  then have "sorted (map (rlo b') (by_base b'))"
    unfolding b'(3) using sorted_insert_at [OF srt' new(1)] by simp
  moreover have "set (by_base b') = {..<length (regions b')}"
    unfolding b'(3) insert_at_set(1) set_bb by (simp add: b'(2) lessThan_Suc)
  moreover have "distinct (by_base b')"
    unfolding b'(3) by (rule insert_at_set(2) [OF dist]) (simp add: set_bb)
  moreover have "rlo b' j < rhi b' j \<and> rhi b' j < 2 ^ 64" if "j < length (regions b')" for j
    using that valid fld new ok by (cases "j = ?n") (auto simp: b'(2) unat_gt_0)
  moreover have "rhi b' j \<le> rlo b' k \<or> rhi b' k \<le> rlo b' j"
    if jk: "j < length (regions b')" "k < length (regions b')" "j \<noteq> k" for j k
  proof -
    consider "j = ?n" "k < ?n" | "k = ?n" "j < ?n" | "j < ?n" "k < ?n"
      using jk by (auto simp: b'(2) less_Suc_eq)
    then show ?thesis
    proof cases
      case 3
      then show ?thesis using inv jk(3) by (simp add: fld bus_inv_def)
    qed (use dj in \<open>auto simp: fld new\<close>)
  qed
  ultimately show ?thesis using b' by (simp add: bus_inv_def)
qed

lemma sorted_map_last: "sorted (map f ys) \<Longrightarrow> j \<in> set ys \<Longrightarrow> f j \<le> f (last ys)"
  by (induction ys) auto

lemma partition_point_max:
  fixes c :: nat
  assumes "sorted (map f xs)" and pos: "pos = partition_point (\<lambda>x. f x < c) xs" "pos \<noteq> 0"
  shows "xs ! (pos - 1) \<in> set xs" "f (xs ! (pos - 1)) < c"
    and "\<And>j. j \<in> set xs \<Longrightarrow> f j < c \<Longrightarrow> f j \<le> f (xs ! (pos - 1))"
proof -
  let ?t = "filter (\<lambda>x. f x < c) xs"
  have len: "pos \<le> length xs"
    unfolding pos partition_point_def by (rule length_takeWhile_le)
  have t: "take pos xs = ?t" unfolding pos(1) by (rule partition_point_sorted(1) [OF assms(1)])
  then have lt: "length ?t = pos" using len by (metis length_take min.absorb2)
  then have ne: "?t \<noteq> []" using pos(2) by (metis list.size(3))
  have nth: "xs ! (pos - 1) = last ?t"
    using pos(2) lt ne unfolding t [symmetric] by (simp add: last_conv_nth)
  then have "xs ! (pos - 1) \<in> set ?t" using last_in_set [OF ne] by (simp only:)
  then show "xs ! (pos - 1) \<in> set xs" "f (xs ! (pos - 1)) < c" by simp_all
  fix j assume "j \<in> set xs" "f j < c"
  then have "j \<in> set ?t" by simp
  moreover have "sorted (map f ?t)" using assms(1) by (simp add: sorted_filter)
  ultimately show "f j \<le> f (xs ! (pos - 1))"
    unfolding nth by (rule sorted_map_last [rotated])
qed

lemma bus_find_region:
  assumes inv: "bus_inv b"
  shows "bus_find addr sz b = Some (i, off) \<longleftrightarrow>
    i < length (regions b) \<and> rlo b i \<le> unat addr \<and> unat addr + unat (max sz 1) \<le> rhi b i \<and>
    off = addr - rg_base (regions b ! i)"
    (is "?L \<longleftrightarrow> ?R")
proof -
  have srt: "sorted (map (rlo b) (by_base b))" and set_bb: "set (by_base b) = {..<length (regions b)}"
    and rng: "\<And>j. j < length (regions b) \<Longrightarrow> rlo b j < rhi b j \<and> rhi b j < 2 ^ 64"
    and dj: "\<And>j k. j < length (regions b) \<Longrightarrow> k < length (regions b) \<Longrightarrow> j \<noteq> k \<Longrightarrow>
      rhi b j \<le> rlo b k \<or> rhi b k \<le> rlo b j"
    using inv by (simp_all add: bus_inv_def)
  have P: "(\<lambda>j. rg_base (regions b ! j) \<le> addr) = (\<lambda>j. rlo b j < Suc (unat addr))"
    by (auto simp: rlo_def word_le_nat_alt)
  define pos where "pos = partition_point (\<lambda>j. rlo b j < Suc (unat addr)) (by_base b)"
  define idx where "idx = by_base b ! (pos - 1)"
  define e where "e = unat (max sz 1) - 1"
  have e: "unat (max sz 1) = Suc e" unfolding e_def by (simp add: max_def word_le_nat_alt)
  have m: "idx < length (regions b)" "rlo b idx \<le> unat addr"
      "\<And>j. j < length (regions b) \<Longrightarrow> rlo b j \<le> unat addr \<Longrightarrow> rlo b j \<le> rlo b idx" if "pos \<noteq> 0"
    using partition_point_max [OF srt pos_def that] set_bb unfolding idx_def by (auto simp: less_Suc_eq_le)
  have none: "pos = 0 \<Longrightarrow> j < length (regions b) \<Longrightarrow> \<not> rlo b j \<le> unat addr" for j
    using partition_point_sorted(1) [OF srt, of "Suc (unat addr)"] set_bb
    unfolding pos_def by (auto simp: filter_empty_conv eq_commute [of "[]"] less_Suc_eq_le)
  have f: "?L \<longleftrightarrow> pos \<noteq> 0 \<and> unat addr + e < 2 ^ 64 \<and> addr + of_nat e < rg_end (regions b ! idx) \<and>
      i = idx \<and> off = addr - rg_base (regions b ! idx)"
    unfolding bus_find_def P Let_def pos_def [symmetric] idx_def [symmetric] e_def [symmetric] by auto
  have u: "addr + of_nat e < rg_end (regions b ! idx) \<longleftrightarrow> unat addr + e < rhi b idx"
    if "unat addr + e < 2 ^ 64" "pos \<noteq> 0"
  proof -
    have "unat (addr + of_nat e) = unat addr + e"
      using that(1) by (simp add: unat_word_ariths unat_of_nat)
    moreover have "unat (rg_end (regions b ! idx)) = rhi b idx"
      using rng [OF m(1) [OF that(2)]] unat_rg_end [of "regions b ! idx"] by (simp add: rhi_def rlo_def)
    ultimately show ?thesis by (simp add: word_less_nat_alt)
  qed
  show ?thesis
  proof
    assume ?L
    then have "pos \<noteq> 0" "unat addr + e < rhi b idx" "i = idx" "off = addr - rg_base (regions b ! idx)"
      using f u by blast+
    then show ?R using m e by simp
  next
    assume R: ?R
    then have ne: "pos \<noteq> 0" using none by blast
    have "i = idx"
    proof (rule ccontr)
      assume "i \<noteq> idx"
      then have "rhi b i \<le> rlo b idx \<or> rhi b idx \<le> rlo b i" using R m(1) [OF ne] dj by blast
      moreover have "rlo b i \<le> rlo b idx" using R m(3) [OF ne] by blast
      moreover have "rlo b idx < rhi b idx" using rng m(1) [OF ne] by blast
      ultimately show False using R e m(2) [OF ne] by linarith
    qed
    moreover have "unat addr + e < 2 ^ 64" using R e rng [of i] by linarith
    moreover have "unat addr + e < rhi b i" using R e by linarith
    ultimately show ?L using f u ne R by blast
  qed
qed

subsection \<open>Buses in use\<close>

text \<open>The buses the board can have: mapped region by region, then read and written.\<close>

inductive bus_reach :: "'d mmio_read \<Rightarrow> 'd mmio_write \<Rightarrow> 'd bus \<Rightarrow> bool"
  for rd :: "'d mmio_read" and wr :: "'d mmio_write" where
  new: "bus_reach rd wr bus_new"
| map: "bus_reach rd wr b \<Longrightarrow> bus_map base sz name dev b = Inr (i, b') \<Longrightarrow> bus_reach rd wr b'"
| read: "bus_reach rd wr b \<Longrightarrow> bus_reach rd wr (snd (bus_read rd addr sz b))"
| "write": "bus_reach rd wr b \<Longrightarrow> bus_reach rd wr (snd (bus_write wr addr sz v b))"

lemma bus_inv_cong:
  "bus_inv b \<Longrightarrow> by_base b' = by_base b \<Longrightarrow> length (regions b') = length (regions b) \<Longrightarrow>
    rlo b' = rlo b \<Longrightarrow> rhi b' = rhi b \<Longrightarrow> bus_inv b'"
  unfolding bus_inv_def by simp

lemma nth_update_any: "xs[i := x] ! j = (if i = j \<and> i < length xs then x else xs ! j)"
  by (cases "i < length xs") (simp_all add: not_less list_update_beyond)

lemma bus_inv_device:
  assumes "bus_inv b"
  shows "bus_inv (b\<lparr>regions := (regions b)[i := (regions b ! i)\<lparr>rg_device := d\<rparr>]\<rparr>)"
proof (rule bus_inv_cong [OF assms])
  have "rg_base ((regions b)[i := (regions b ! i)\<lparr>rg_device := d\<rparr>] ! j) = rg_base (regions b ! j)"
    "rg_size ((regions b)[i := (regions b ! i)\<lparr>rg_device := d\<rparr>] ! j) = rg_size (regions b ! j)" for j
    by (simp_all add: nth_update_any)
  then show "rlo (b\<lparr>regions := (regions b)[i := (regions b ! i)\<lparr>rg_device := d\<rparr>]\<rparr>) = rlo b"
      "rhi (b\<lparr>regions := (regions b)[i := (regions b ! i)\<lparr>rg_device := d\<rparr>]\<rparr>) = rhi b"
    by (simp_all add: rlo_def rhi_def fun_eq_iff)
qed simp_all

lemma bus_reach_inv: "bus_reach rd wr b \<Longrightarrow> bus_inv b"
proof (induction rule: bus_reach.induct)
  case new
  then show ?case by (rule bus_inv_new)
next
  case map
  then show ?case by (simp add: bus_map_ok)
qed (simp_all add: bus_read_def bus_write_def bus_inv_device split: option.split prod.split)

text \<open>
  C12. Address decoding by binary search is exact: on every bus that can be built and used, an
  access of \<open>sz\<close> bytes is given to a device with an offset if and only if the device's region
  covers all of its bytes, and the offset is the distance from the region's base.
\<close>

theorem bus_find_exact:
  assumes "bus_reach rd wr b"
  shows "bus_find addr sz b = Some (i, off) \<longleftrightarrow>
    i < length (regions b) \<and> rlo b i \<le> unat addr \<and> unat addr + unat (max sz 1) \<le> rhi b i \<and>
    off = addr - rg_base (regions b ! i)"
  by (rule bus_find_region [OF bus_reach_inv [OF assms]])

definition demo_bus :: "nat bus" where
  "demo_bus = \<lparr>regions = [\<lparr>rg_base = 0x2000, rg_size = 0x1000, rg_name = ''b'', rg_device = 0\<rparr>,
      \<lparr>rg_base = 0x1000, rg_size = 0x1000, rg_name = ''a'', rg_device = 1\<rparr>], by_base = [1, 0]\<rparr>"

lemma demo_bus_reach: "bus_reach rd wr demo_bus"
proof -
  have "bus_map 0x2000 0x1000 ''b'' 0 bus_new =
    Inr (0, \<lparr>regions = [\<lparr>rg_base = 0x2000, rg_size = 0x1000, rg_name = ''b'', rg_device = 0 :: nat\<rparr>], by_base = [0]\<rparr>)"
    by (simp add: bus_map_def bus_new_def partition_point_def)
  then have "bus_reach rd wr \<lparr>regions = [\<lparr>rg_base = 0x2000, rg_size = 0x1000, rg_name = ''b'', rg_device = 0 :: nat\<rparr>],
      by_base = [0]\<rparr>" by (rule bus_reach.map [OF bus_reach.new])
  moreover have "bus_map 0x1000 0x1000 ''a'' 1 \<lparr>regions = [\<lparr>rg_base = 0x2000, rg_size = 0x1000, rg_name = ''b'',
      rg_device = 0 :: nat\<rparr>], by_base = [0]\<rparr> = Inr (1, demo_bus)"
    by (simp add: bus_map_def demo_bus_def partition_point_def rg_end_def)
  ultimately show ?thesis by (rule bus_reach.map)
qed

theorem bus_find_exact_witness:
  "bus_find 0x1FFC 4 demo_bus = Some (1, 0xFFC) \<and> bus_find 0x1FFE 4 demo_bus = None"
proof
  let ?rd = "\<lambda>off sz d. (0, d) :: u64 \<times> nat" and ?wr = "\<lambda>off sz v d. d :: nat"
  note ex = bus_find_exact [OF demo_bus_reach [of ?rd ?wr]]
  show "bus_find 0x1FFC 4 demo_bus = Some (1, 0xFFC)"
    unfolding ex by (simp add: demo_bus_def rlo_def rhi_def max_def)
  have "bus_find 0x1FFE 4 demo_bus \<noteq> Some (i, off)" for i off
  proof -
    consider "i = 0" | "i = 1" | "2 \<le> i" by linarith
    then show ?thesis unfolding ex by cases (simp_all add: demo_bus_def rlo_def rhi_def max_def word_le_nat_alt)
  qed
  then show "bus_find 0x1FFE 4 demo_bus = None" by (metis not_Some_eq prod.exhaust)
qed

text \<open>
  C28. Mapping a device on a bus in use fails exactly when the range is empty or passes the end of
  the address space, or shares an address with a mapped region, which the error then names;
  otherwise the device becomes the last region and no other region changes.
\<close>

theorem bus_map_exact:
  assumes "bus_reach rd wr b"
  shows "case bus_map base sz name dev b of
      Inl (InvalidRange b' s') \<Rightarrow> b' = base \<and> s' = sz \<and> (sz = 0 \<or> 2 ^ 64 \<le> unat base + unat sz)
    | Inl (Overlap b' s' n) \<Rightarrow> b' = base \<and> s' = sz \<and> unat base + unat sz < 2 ^ 64 \<and>
        (\<exists>i < length (regions b). rg_name (regions b ! i) = n \<and>
          {rlo b i ..< rhi b i} \<inter> {unat base ..< unat base + unat sz} \<noteq> {})
    | Inr (i, b') \<Rightarrow> sz \<noteq> 0 \<and> unat base + unat sz < 2 ^ 64 \<and> i = length (regions b) \<and>
        regions b' = regions b @ [\<lparr>rg_base = base, rg_size = sz, rg_name = name, rg_device = dev\<rparr>] \<and>
        (\<forall>j < length (regions b). {rlo b j ..< rhi b j} \<inter> {unat base ..< unat base + unat sz} = {})"
proof -
  have rng: "rlo b j < rhi b j \<and> rhi b j < 2 ^ 64" if "j < length (regions b)" for j
    using bus_reach_inv [OF assms] that by (simp add: bus_inv_def)
  have ov: "base < rg_end (regions b ! j) \<and> rg_base (regions b ! j) < base + sz \<longleftrightarrow>
      {rlo b j ..< rhi b j} \<inter> {unat base ..< unat base + unat sz} \<noteq> {}"
    if j: "j < length (regions b)" and ok: "sz \<noteq> 0" "unat base + unat sz < 2 ^ 64" for j
  proof -
    have "unat (rg_end (regions b ! j)) = rhi b j"
      using rng [OF j] unat_rg_end [of "regions b ! j"] by (simp add: rhi_def rlo_def)
    moreover have "unat (base + sz) = unat base + unat sz" using ok(2) by (simp add: unat_word_ariths)
    moreover have "0 < unat sz" using ok(1) by (simp add: unat_gt_0)
    ultimately show ?thesis using rng [OF j] by (auto simp: word_less_nat_alt rlo_def)
  qed
  show ?thesis
  proof (cases "sz = 0 \<or> 2 ^ 64 \<le> unat base + unat sz")
    case True
    then show ?thesis by (simp add: bus_map_def)
  next
    case False
    then have ok: "sz \<noteq> 0" "unat base + unat sz < 2 ^ 64" by simp_all
    show ?thesis
    proof (cases "find (\<lambda>r. base < rg_end r \<and> rg_base r < base + sz) (regions b)")
      case None
      let ?n = "\<lparr>rg_base = base, rg_size = sz, rg_name = name, rg_device = dev\<rparr>"
      obtain b' where m: "bus_map base sz name dev b = Inr (length (regions b), b')"
          "regions b' = regions b @ [?n]"
        using ok None by (simp add: bus_map_def Let_def)
      have "{rlo b j ..< rhi b j} \<inter> {unat base ..< unat base + unat sz} = {}" if "j < length (regions b)" for j
      proof -
        have "\<not> (base < rg_end (regions b ! j) \<and> rg_base (regions b ! j) < base + sz)"
          using None that by (auto simp: find_None_iff)
        then show ?thesis using ov [OF that ok] by blast
      qed
      then show ?thesis using ok m by simp
    next
      case (Some r)
      then obtain i where i: "i < length (regions b)" "r = regions b ! i"
          "base < rg_end r \<and> rg_base r < base + sz" unfolding find_Some_iff by blast
      have "{rlo b i ..< rhi b i} \<inter> {unat base ..< unat base + unat sz} \<noteq> {}"
        using ov [OF i(1) ok] i(2,3) by blast
      moreover have "bus_map base sz name dev b = Inl (Overlap base sz (rg_name r))"
        using ok Some by (simp add: bus_map_def)
      ultimately show ?thesis using ok i(1,2) by (auto simp only: sum.case map_error.case)
    qed
  qed
qed

theorem bus_map_exact_witness:
  "bus_map 0x2FFF 0x10 ''c'' 2 demo_bus = Inl (Overlap 0x2FFF 0x10 ''b'') \<and>
    (\<exists>i < length (regions demo_bus). rg_name (regions demo_bus ! i) = ''b'' \<and>
      {rlo demo_bus i ..< rhi demo_bus i} \<inter> {0x2FFF ..< 0x300F} \<noteq> {})"
proof -
  have m: "bus_map 0x2FFF 0x10 ''c'' 2 demo_bus = Inl (Overlap 0x2FFF 0x10 ''b'')"
    by (simp add: bus_map_def demo_bus_def rg_end_def)
  then show ?thesis
    using bus_map_exact [OF demo_bus_reach [of "\<lambda>off sz d. (0, d)" "\<lambda>off sz v d. d"],
      of "0x2FFF" "0x10" "''c''" 2] by simp
qed

end
