(* ===== verification/Pl011.thy ===== *)
theory Pl011
  imports Mmio_Bus Snapshot
begin

text \<open>
  The PL011 UART, \<^verbatim>\<open>crates/vetro-platform/src/pl011.rs\<close>: the host's input queue, the receive FIFO,
  the output buffer and the registers. Queues are lists, the front first.
\<close>

unbundle bit_operations_syntax

subsection \<open>Model\<close>

definition uart_DR :: u64 where [simp]: "uart_DR = 0x000"
definition uart_RSR_ECR :: u64 where [simp]: "uart_RSR_ECR = 0x004"
definition uart_FR :: u64 where [simp]: "uart_FR = 0x018"
definition uart_ILPR :: u64 where [simp]: "uart_ILPR = 0x020"
definition uart_IBRD :: u64 where [simp]: "uart_IBRD = 0x024"
definition uart_FBRD :: u64 where [simp]: "uart_FBRD = 0x028"
definition uart_LCR_H :: u64 where [simp]: "uart_LCR_H = 0x02C"
definition uart_CR :: u64 where [simp]: "uart_CR = 0x030"
definition uart_IFLS :: u64 where [simp]: "uart_IFLS = 0x034"
definition uart_IMSC :: u64 where [simp]: "uart_IMSC = 0x038"
definition uart_RIS :: u64 where [simp]: "uart_RIS = 0x03C"
definition uart_MIS :: u64 where [simp]: "uart_MIS = 0x040"
definition uart_ICR :: u64 where [simp]: "uart_ICR = 0x044"
definition uart_DMACR :: u64 where [simp]: "uart_DMACR = 0x048"
definition uart_PERIPH_ID0 :: u64 where [simp]: "uart_PERIPH_ID0 = 0xFE0"

definition FR_BUSY :: u32 where "FR_BUSY = push_bit 3 1"
definition FR_RXFE :: u32 where "FR_RXFE = push_bit 4 1"
definition FR_TXFF :: u32 where "FR_TXFF = push_bit 5 1"
definition FR_RXFF :: u32 where "FR_RXFF = push_bit 6 1"
definition FR_TXFE :: u32 where "FR_TXFE = push_bit 7 1"
definition LCR_H_FEN :: u32 where "LCR_H_FEN = push_bit 4 1"
definition CR_UARTEN :: u32 where "CR_UARTEN = push_bit 0 1"
definition CR_LBE :: u32 where "CR_LBE = push_bit 7 1"
definition CR_TXE :: u32 where "CR_TXE = push_bit 8 1"
definition CR_RXE :: u32 where "CR_RXE = push_bit 9 1"
definition INT_RX :: u32 where "INT_RX = push_bit 4 1"
definition INT_TX :: u32 where "INT_TX = push_bit 5 1"
definition INT_RT :: u32 where "INT_RT = push_bit 6 1"
definition INT_MASK :: u32 where "INT_MASK = 0x7FF"
definition FIFO_DEPTH :: nat where "FIFO_DEPTH = 16"

definition uart_ID :: "u8 list" where
  "uart_ID = [0x11, 0x10, 0x14, 0x00, 0x0D, 0xF0, 0x05, 0xB1]"

record pl011 =
  u_input :: "u8 list"
  u_rx_fifo :: "u16 list"
  u_output :: "u8 list"
  u_rsr :: u32
  u_ilpr :: u32
  u_ibrd :: u32
  u_fbrd :: u32
  u_lcr_h :: u32
  u_cr :: u32
  u_ifls :: u32
  u_imsc :: u32
  u_ris :: u32
  u_dmacr :: u32

definition uart_new :: pl011 where
  "uart_new = \<lparr>u_input = [], u_rx_fifo = [], u_output = [], u_rsr = 0, u_ilpr = 0, u_ibrd = 0, u_fbrd = 0,
    u_lcr_h = 0, u_cr = CR_TXE OR CR_RXE, u_ifls = 0x12, u_imsc = 0, u_ris = 0, u_dmacr = 0\<rparr>"

definition fifo_depth :: "pl011 \<Rightarrow> nat" where
  "fifo_depth d = (if u_lcr_h d AND LCR_H_FEN \<noteq> 0 then FIFO_DEPTH else 1)"

definition rx_enabled :: "pl011 \<Rightarrow> bool" where
  "rx_enabled d \<longleftrightarrow> u_cr d AND (CR_UARTEN OR CR_RXE) = CR_UARTEN OR CR_RXE"

fun fill_loop :: "nat \<Rightarrow> u8 list \<Rightarrow> u16 list \<Rightarrow> u8 list \<times> u16 list" where
  "fill_loop depth input fifo =
    (if length fifo < depth
     then case input of
         [] \<Rightarrow> (input, fifo)
       | b # input' \<Rightarrow> fill_loop depth input' (fifo @ [ucast b])
     else (input, fifo))"

definition fill_rx :: "pl011 \<Rightarrow> pl011" where
  "fill_rx d =
    (if \<not> rx_enabled d then d
     else let (input, fifo) = fill_loop (fifo_depth d) (u_input d) (u_rx_fifo d);
              d = d\<lparr>u_input := input, u_rx_fifo := fifo\<rparr>
       in if u_rx_fifo d \<noteq> [] then d\<lparr>u_ris := u_ris d OR INT_RX\<rparr> else d)"

definition push_input :: "bytes \<Rightarrow> pl011 \<Rightarrow> pl011" where
  "push_input bs d = fill_rx (d\<lparr>u_input := u_input d @ bs\<rparr>)"

definition pending_input :: "pl011 \<Rightarrow> nat" where
  "pending_input d = length (u_input d) + length (u_rx_fifo d)"

definition take_output :: "pl011 \<Rightarrow> bytes \<times> pl011" where
  "take_output d = (u_output d, d\<lparr>u_output := []\<rparr>)"

definition uart_irq_level :: "pl011 \<Rightarrow> bool" where
  "uart_irq_level d \<longleftrightarrow> u_ris d AND u_imsc d \<noteq> 0"

definition uart_flags :: "pl011 \<Rightarrow> u32" where
  "uart_flags d =
    (let fr = FR_TXFE;
         fr = (if u_rx_fifo d = [] then fr OR FR_RXFE else fr)
     in if fifo_depth d \<le> length (u_rx_fifo d) then fr OR FR_RXFF else fr)"

definition uart_read_reg :: "u64 \<Rightarrow> pl011 \<Rightarrow> u32 \<times> pl011" where
  "uart_read_reg reg d =
    (if reg = uart_DR then
       let v = (case u_rx_fifo d of [] \<Rightarrow> 0 | x # _ \<Rightarrow> x);
           d = d\<lparr>u_rx_fifo := tl (u_rx_fifo d)\<rparr>;
           d = (if u_rx_fifo d = [] then d\<lparr>u_ris := u_ris d AND NOT (INT_RX OR INT_RT)\<rparr> else d)
       in (ucast v, fill_rx d)
     else if reg = uart_RSR_ECR then (u_rsr d, d)
     else if reg = uart_FR then (uart_flags d, d)
     else if reg = uart_ILPR then (u_ilpr d, d)
     else if reg = uart_IBRD then (u_ibrd d, d)
     else if reg = uart_FBRD then (u_fbrd d, d)
     else if reg = uart_LCR_H then (u_lcr_h d, d)
     else if reg = uart_CR then (u_cr d, d)
     else if reg = uart_IFLS then (u_ifls d, d)
     else if reg = uart_IMSC then (u_imsc d, d)
     else if reg = uart_RIS then (u_ris d, d)
     else if reg = uart_MIS then (u_ris d AND u_imsc d, d)
     else if reg = uart_DMACR then (u_dmacr d, d)
     else if 0xFE0 \<le> reg \<and> reg \<le> 0xFFC then (ucast (uart_ID ! unat ((reg - uart_PERIPH_ID0) div 4)), d)
     else (0, d))"

definition uart_write_reg :: "u64 \<Rightarrow> u32 \<Rightarrow> pl011 \<Rightarrow> pl011" where
  "uart_write_reg reg v d =
    (if reg = uart_DR then
       let byte = ucast v :: u8;
           d = (if u_cr d AND CR_LBE \<noteq> 0
             then if length (u_rx_fifo d) < fifo_depth d
               then d\<lparr>u_rx_fifo := u_rx_fifo d @ [ucast byte], u_ris := u_ris d OR INT_RX\<rparr>
               else d
             else d\<lparr>u_output := u_output d @ [byte]\<rparr>)
       in d\<lparr>u_ris := u_ris d OR INT_TX\<rparr>
     else if reg = uart_RSR_ECR then d\<lparr>u_rsr := 0\<rparr>
     else if reg = uart_ILPR then d\<lparr>u_ilpr := v AND 0xFF\<rparr>
     else if reg = uart_IBRD then d\<lparr>u_ibrd := v AND 0xFFFF\<rparr>
     else if reg = uart_FBRD then d\<lparr>u_fbrd := v AND 0x3F\<rparr>
     else if reg = uart_LCR_H then
       let d = (if (u_lcr_h d XOR v) AND LCR_H_FEN \<noteq> 0
             then d\<lparr>u_rx_fifo := [], u_ris := u_ris d AND NOT (INT_RX OR INT_RT)\<rparr>
             else d)
       in fill_rx (d\<lparr>u_lcr_h := v AND 0xFF\<rparr>)
     else if reg = uart_CR then fill_rx (d\<lparr>u_cr := v AND 0xFF87\<rparr>)
     else if reg = uart_IFLS then d\<lparr>u_ifls := v AND 0x3F\<rparr>
     else if reg = uart_IMSC then d\<lparr>u_imsc := v AND INT_MASK\<rparr>
     else if reg = uart_ICR then d\<lparr>u_ris := u_ris d AND NOT (v AND INT_MASK)\<rparr>
     else if reg = uart_DMACR then d\<lparr>u_dmacr := v AND 0x7\<rparr>
     else d)"

definition uart_read :: "u64 \<Rightarrow> u8 \<Rightarrow> pl011 \<Rightarrow> u64 \<times> pl011" where
  "uart_read offset sz d =
    (if 0x1000 \<le> offset \<or> 4 < sz then (0, d)
     else let reg = offset AND NOT 3; (word, d) = uart_read_reg reg d
       in (sub_word word offset sz, d))"

definition uart_write :: "u64 \<Rightarrow> u8 \<Rightarrow> u64 \<Rightarrow> pl011 \<Rightarrow> pl011" where
  "uart_write offset sz v d =
    (if 0x1000 \<le> offset \<or> 4 < sz \<or> offset AND 3 \<noteq> 0 then d else uart_write_reg offset (ucast v) d)"

definition uart_regs :: "pl011 \<Rightarrow> u32 list" where
  "uart_regs d = [u_rsr d, u_ilpr d, u_ibrd d, u_fbrd d, u_lcr_h d, u_cr d, u_ifls d, u_imsc d, u_ris d,
    u_dmacr d]"

definition uart_save :: "pl011 \<Rightarrow> writer \<Rightarrow> writer" where
  "uart_save d w = fold w_u32 (uart_regs d) (w_bytes (u_output d) (w_seq w_u16 (u_rx_fifo d) (w_seq w_u8 (u_input d) w)))"

definition uart_restore :: "pl011 \<Rightarrow> reader \<Rightarrow> snap_error + pl011 \<times> reader" where
  "uart_restore d r =
    rbind (r_seq 1 r_u8 r) (\<lambda>(input, r). rbind (r_seq 2 r_u16 r) (\<lambda>(fifo, r).
    rbind (r_vec r) (\<lambda>(output, r). rbind (r_u32 r) (\<lambda>(rsr, r). rbind (r_u32 r) (\<lambda>(ilpr, r).
    rbind (r_u32 r) (\<lambda>(ibrd, r). rbind (r_u32 r) (\<lambda>(fbrd, r). rbind (r_u32 r) (\<lambda>(lcr, r).
    rbind (r_u32 r) (\<lambda>(cr, r). rbind (r_u32 r) (\<lambda>(ifls, r). rbind (r_u32 r) (\<lambda>(imsc, r).
    rbind (r_u32 r) (\<lambda>(ris, r). rbind (r_u32 r) (\<lambda>(dmacr, r).
      Inr (d\<lparr>u_input := input, u_rx_fifo := fifo, u_output := output, u_rsr := rsr, u_ilpr := ilpr,
        u_ibrd := ibrd, u_fbrd := fbrd, u_lcr_h := lcr, u_cr := cr, u_ifls := ifls, u_imsc := imsc,
        u_ris := ris, u_dmacr := dmacr\<rparr>, r))))))))))))))"

declare fill_loop.simps [simp del]

subsection \<open>The receive FIFO\<close>

text \<open>All the input not yet read by the guest, oldest byte first.\<close>

definition uart_stream :: "pl011 \<Rightarrow> u16 list" where
  "uart_stream d = u_rx_fifo d @ map ucast (u_input d)"

lemma fill_loop_spec:
  "fill_loop n i f = (drop (n - length f) i, f @ map ucast (take (n - length f) i))"
proof (induction n i f rule: fill_loop.induct)
  case (1 n i f)
  show ?case
  proof (cases "length f < n")
    case lt: True
    show ?thesis
    proof (cases i)
      case Nil
      then show ?thesis using lt by (simp add: fill_loop.simps)
    next
      case (Cons b j)
      have "n - length f = Suc (n - length (f @ [ucast b]))" using lt by simp
      then show ?thesis using "1.IH" [OF lt Cons] lt Cons by (simp add: fill_loop.simps [of n "b # j" f])
    qed
  qed (simp add: fill_loop.simps)
qed

lemma fifo_depth_pos [simp]: "0 < fifo_depth d"
  by (simp add: fifo_depth_def FIFO_DEPTH_def)

lemma fill_rx_loop:
  "fill_loop (fifo_depth d) (u_input d) (u_rx_fifo d) = (i, f) \<Longrightarrow> fill_rx d = (if \<not> rx_enabled d then d
    else if f = [] then d\<lparr>u_input := i, u_rx_fifo := f\<rparr>
    else d\<lparr>u_input := i, u_rx_fifo := f, u_ris := u_ris d OR INT_RX\<rparr>)"
  by (simp add: fill_rx_def)

lemmas fill_rx_eq = fill_rx_loop [OF fill_loop_spec]

lemma fill_rx_stream [simp]: "uart_stream (fill_rx d) = uart_stream d"
proof -
  have "map ucast (take k xs) @ map ucast (drop k xs) = (map ucast xs :: u16 list)" for k and xs :: bytes
    by (simp only: map_append [symmetric] append_take_drop_id)
  then show ?thesis by (simp add: fill_rx_eq uart_stream_def Let_def)
qed

lemma fill_rx_regs [simp]:
  "u_output (fill_rx d) = u_output d" "u_lcr_h (fill_rx d) = u_lcr_h d" "u_cr (fill_rx d) = u_cr d"
  "rx_enabled (fill_rx d) = rx_enabled d" "fifo_depth (fill_rx d) = fifo_depth d"
  by (simp_all add: fill_rx_eq rx_enabled_def fifo_depth_def Let_def)

text \<open>
  Between operations the FIFO holds at most its depth, no byte waits outside a FIFO with room
  while reception is on, and the receive interrupt is off while the FIFO is empty.
\<close>

definition uart_ok :: "pl011 \<Rightarrow> bool" where
  "uart_ok d \<longleftrightarrow> length (u_rx_fifo d) \<le> fifo_depth d \<and>
    (rx_enabled d \<and> length (u_rx_fifo d) < fifo_depth d \<longrightarrow> u_input d = []) \<and>
    (u_rx_fifo d = [] \<longrightarrow> \<not> bit (u_ris d) 4)"

lemma uart_ok_fill:
  assumes "length (u_rx_fifo d) \<le> fifo_depth d" "u_rx_fifo d = [] \<Longrightarrow> \<not> bit (u_ris d) 4"
  shows "uart_ok (fill_rx d)"
proof (cases "rx_enabled d")
  case False
  then show ?thesis using assms by (simp add: uart_ok_def fill_rx_eq)
next
  case True
  then show ?thesis using assms by (auto simp: uart_ok_def fill_rx_eq Let_def fifo_depth_def rx_enabled_def)
qed

lemma rx_rt_off: "\<not> bit (r AND NOT (INT_RX OR INT_RT)) 4" "\<not> bit (r AND NOT INT_RX AND NOT INT_RT) 4"
  by (simp_all add: INT_RX_def INT_RT_def bit_simps)

lemma uart_ok_new: "uart_ok uart_new"
  by (simp add: uart_ok_def uart_new_def)

lemma uart_ok_push: "uart_ok d \<Longrightarrow> uart_ok (push_input bs d)"
  unfolding push_input_def by (rule uart_ok_fill) (simp_all add: uart_ok_def fifo_depth_def)

lemma uart_ok_take: "uart_ok d \<Longrightarrow> uart_ok (snd (take_output d))"
  by (simp add: uart_ok_def take_output_def fifo_depth_def rx_enabled_def)

lemma fifo_depth_cong: "u_lcr_h d' = u_lcr_h d \<Longrightarrow> fifo_depth d' = fifo_depth d"
  by (simp add: fifo_depth_def)

lemma uart_read_DR:
  "uart_read_reg 0 d = (ucast (case u_rx_fifo d of [] \<Rightarrow> 0 | x # _ \<Rightarrow> x),
    fill_rx (d\<lparr>u_rx_fifo := tl (u_rx_fifo d),
      u_ris := (if tl (u_rx_fifo d) = [] then u_ris d AND NOT (INT_RX OR INT_RT) else u_ris d)\<rparr>))"
  by (simp add: uart_read_reg_def Let_def)

lemma uart_read_other: "reg \<noteq> 0 \<Longrightarrow> snd (uart_read_reg reg d) = d"
  by (simp add: uart_read_reg_def)

lemma uart_ok_read_reg: "uart_ok d \<Longrightarrow> uart_ok (snd (uart_read_reg reg d))"
proof (cases "reg = 0")
  case True
  assume ok: "uart_ok d"
  show ?thesis
    unfolding True uart_read_DR snd_conv
    by (rule uart_ok_fill) (use ok in \<open>auto simp: uart_ok_def rx_rt_off fifo_depth_def\<close>)
qed (simp add: uart_read_other)

lemma and_bit_cong: "bit a k = bit v k \<Longrightarrow> a AND push_bit k 1 = v AND push_bit k 1" for a v :: "'a::len word"
  by (rule bit_word_eqI) (auto simp: bit_simps)

lemma fen_same: "(a XOR v) AND LCR_H_FEN = 0 \<Longrightarrow> (v AND 0xFF) AND LCR_H_FEN = a AND LCR_H_FEN"
proof -
  assume "(a XOR v) AND LCR_H_FEN = 0"
  then have "\<not> bit (a XOR v) 4" unfolding LCR_H_FEN_def using word_ne_zero_test [of "a XOR v" 4] by blast
  then have "bit a 4 = bit v 4" by (simp add: bit_simps)
  then have "v AND LCR_H_FEN = a AND LCR_H_FEN" unfolding LCR_H_FEN_def by (rule and_bit_cong [OF sym])
  moreover have "(0xFF :: u32) AND LCR_H_FEN = LCR_H_FEN" by (simp add: LCR_H_FEN_def)
  ultimately show ?thesis by (simp only: and.assoc)
qed

lemma uart_ok_frame:
  "uart_ok d \<Longrightarrow> u_rx_fifo d' = u_rx_fifo d \<Longrightarrow> u_input d' = u_input d \<Longrightarrow> u_lcr_h d' = u_lcr_h d \<Longrightarrow>
    u_cr d' = u_cr d \<Longrightarrow> (\<not> bit (u_ris d) 4 \<Longrightarrow> \<not> bit (u_ris d') 4) \<Longrightarrow> uart_ok d'"
  by (auto simp: uart_ok_def fifo_depth_def rx_enabled_def)

lemma ris_bits: "\<not> bit r 4 \<Longrightarrow> \<not> bit (r AND m) 4" "bit (r OR INT_TX) 4 = bit r 4" for r m :: u32
  by (simp_all add: bit_simps INT_TX_def)

lemma uart_write_frame:
  assumes "reg \<noteq> 0" "reg \<noteq> 0x2C" "reg \<noteq> 0x30"
  shows "u_rx_fifo (uart_write_reg reg v d) = u_rx_fifo d" "u_input (uart_write_reg reg v d) = u_input d"
    "u_lcr_h (uart_write_reg reg v d) = u_lcr_h d" "u_cr (uart_write_reg reg v d) = u_cr d"
    "u_output (uart_write_reg reg v d) = u_output d"
    "\<not> bit (u_ris d) 4 \<Longrightarrow> \<not> bit (u_ris (uart_write_reg reg v d)) 4"
  using assms by (simp_all add: uart_write_reg_def ris_bits)

lemma uart_ok_write_reg:
  assumes ok: "uart_ok d"
  shows "uart_ok (uart_write_reg reg v d)"
proof -
  consider "reg = 0" | "reg = 0x2C" | "reg = 0x30" | "reg \<noteq> 0" "reg \<noteq> 0x2C" "reg \<noteq> 0x30" by blast
  then show ?thesis
  proof cases
    case 1
    let ?b = "ucast (ucast v :: u8) :: u16"
    have "uart_ok (d\<lparr>u_rx_fifo := u_rx_fifo d @ [?b], u_ris := r\<rparr>)" if "length (u_rx_fifo d) < fifo_depth d" for r
      using ok that by (auto simp: uart_ok_def fifo_depth_def rx_enabled_def)
    moreover have "uart_ok (d\<lparr>u_ris := u_ris d OR INT_TX\<rparr>)"
      by (rule uart_ok_frame [OF ok]) (simp_all add: ris_bits)
    moreover have "uart_ok (d\<lparr>u_output := os, u_ris := u_ris d OR INT_TX\<rparr>)" for os
      by (rule uart_ok_frame [OF ok]) (simp_all add: ris_bits)
    ultimately show ?thesis using 1 by (simp add: uart_write_reg_def Let_def)
  next
    case 2
    show ?thesis
    proof (cases "(u_lcr_h d XOR v) AND LCR_H_FEN = 0")
      case True
      have "uart_ok (fill_rx (d\<lparr>u_lcr_h := v AND 0xFF\<rparr>))"
        by (rule uart_ok_fill) (use ok fen_same [OF True] in \<open>simp_all add: uart_ok_def fifo_depth_def\<close>)
      then show ?thesis using 2 True by (simp add: uart_write_reg_def)
    next
      case False
      have "uart_ok (fill_rx (d\<lparr>u_rx_fifo := [], u_ris := u_ris d AND NOT (INT_RX OR INT_RT), u_lcr_h := v AND 0xFF\<rparr>))"
        by (rule uart_ok_fill) (simp_all add: rx_rt_off)
      then show ?thesis using 2 False by (simp add: uart_write_reg_def)
    qed
  next
    case 3
    have "uart_ok (fill_rx (d\<lparr>u_cr := v AND 0xFF87\<rparr>))"
      by (rule uart_ok_fill) (use ok in \<open>simp_all add: uart_ok_def fifo_depth_def\<close>)
    then show ?thesis using 3 by (simp add: uart_write_reg_def)
  next
    case 4
    show ?thesis by (rule uart_ok_frame [OF ok]) (simp_all add: uart_write_frame [OF 4])
  qed
qed

subsection \<open>Device and snapshot\<close>

interpretation uart: mmio_page uart_read uart_write uart_ok
proof
  show "uart_ok (snd (uart_read off sz d))" if "uart_ok d" for off sz d
    using that by (simp add: uart_read_def uart_ok_read_reg split: prod.split)
      (metis snd_conv uart_ok_read_reg)
  show "uart_ok (uart_write off sz v d)" if "uart_ok d" for off sz v d
    using that by (simp add: uart_write_def uart_ok_write_reg)
  show "uart_read off sz d = (0, d)" if "0x1000 \<le> off \<or> 4 < sz" for off sz d
    using that by (simp add: uart_read_def)
  show "uart_write off sz v d = d" if "0x1000 \<le> off \<or> 4 < sz \<or> off AND 3 \<noteq> 0" for off sz v d
    using that by (auto simp: uart_write_def)
  show "fst (uart_read off sz d) AND size_mask sz = fst (uart_read off sz d)" for off sz d
    by (simp add: uart_read_def split: prod.split)
qed

definition uart_img :: "pl011 \<Rightarrow> bytes" where
  "uart_img d = seq_img (\<lambda>v. [v]) (u_input d) @ seq_img (le_bytes 2) (u_rx_fifo d) @
    le_bytes 8 (of_nat (length (u_output d)) :: u64) @ u_output d @ concat (map (le_bytes 4) (uart_regs d))"

definition uart_fits :: "pl011 \<Rightarrow> bool" where
  "uart_fits d \<longleftrightarrow> length (u_input d) < 2 ^ 64 \<and> length (u_rx_fifo d) < 2 ^ 64 \<and> length (u_output d) < 2 ^ 64"

interpretation uarts: snapshot uart_save uart_restore uart_img "\<lambda>d0 d. uart_fits d" "\<lambda>d0 d. d"
proof
  show "uart_save d w = w_raw (uart_img d) w" for d w
    by (simp add: uart_save_def uart_img_def uart_regs_def u8c.write_seq u16c.write_seq codec_simps)
  show "uart_restore d0 (reader_at t pre (uart_img d @ xs)) = Inr (d, reader_at t (pre @ uart_img d) xs)"
    if "uart_fits d" for d0 d t pre xs
    using that by (simp add: uart_fits_def uart_restore_def uart_img_def uart_regs_def u8c.read_seq u16c.read_seq
        codec_simps del: One_nat_def)
qed simp

subsection \<open>Streams\<close>

datatype uart_op = HostPush bytes | HostTake | GuestRead u64 u8 | GuestWrite u64 u8 u64

fun uart_step :: "uart_op \<Rightarrow> pl011 \<Rightarrow> pl011" where
  "uart_step (HostPush bs) d = push_input bs d"
| "uart_step HostTake d = snd (take_output d)"
| "uart_step (GuestRead off sz) d = snd (uart_read off sz d)"
| "uart_step (GuestWrite off sz v) d = uart_write off sz v d"

text \<open>What an operation takes out of the device and puts into it, on either side.\<close>

definition dr_access :: "u64 \<Rightarrow> u8 \<Rightarrow> bool" where
  "dr_access off sz \<longleftrightarrow> off < 0x1000 \<and> sz \<le> 4 \<and> off AND NOT 3 = 0"

text \<open>
  The value a read of DR returned to the guest, when the flag register said there is one (RXFE clear), and
  the bytes that \<^verbatim>\<open>take_output\<close> returned to the host.
\<close>

fun received :: "uart_op \<Rightarrow> pl011 \<Rightarrow> u64 list" where
  "received (GuestRead off sz) d = 
    (if dr_access off sz \<and> uart_flags d AND FR_RXFE = 0 then [fst (uart_read off sz d)] else [])"
| "received _ d = []"

fun pushed :: "uart_op \<Rightarrow> bytes" where
  "pushed (HostPush bs) = bs"
| "pushed _ = []"

fun taken :: "uart_op \<Rightarrow> pl011 \<Rightarrow> bytes" where
  "taken HostTake d = fst (take_output d)"
| "taken _ d = []"

fun written :: "uart_op \<Rightarrow> bytes" where
  "written (GuestWrite off sz v) = (if off = 0 \<and> sz \<le> 4 then [ucast (ucast v :: u32)] else [])"
| "written _ = []"

text \<open>
  The operations that drop no byte: turning the FIFO on or off empties it, loopback writes go to the FIFO,
  and a read of DR at another offset than its own takes a byte out without returning it.
\<close>

fun lossless :: "uart_op \<Rightarrow> pl011 \<Rightarrow> bool" where
  "lossless (GuestWrite off sz v) d \<longleftrightarrow>
    (off = 0x2C \<longrightarrow> (u_lcr_h d XOR ucast v) AND LCR_H_FEN = 0) \<and> (off = 0 \<longrightarrow> u_cr d AND CR_LBE = 0)"
| "lossless (GuestRead off sz) d \<longleftrightarrow> (dr_access off sz \<longrightarrow> off = 0 \<and> sz \<in> {1, 2, 4})"
| "lossless _ d \<longleftrightarrow> True"

fun uart_run :: "uart_op list \<Rightarrow> pl011 \<Rightarrow> u64 list \<times> bytes \<times> pl011" where
  "uart_run [] d = ([], [], d)"
| "uart_run (x # xs) d =
    (let (r, t, d') = uart_run xs (uart_step x d) in (received x d @ r, taken x d @ t, d'))"

fun lossless_run :: "uart_op list \<Rightarrow> pl011 \<Rightarrow> bool" where
  "lossless_run [] d \<longleftrightarrow> True"
| "lossless_run (x # xs) d \<longleftrightarrow> lossless x d \<and> lossless_run xs (uart_step x d)"

lemma uart_stream_update [simp]:
  "uart_stream (d\<lparr>u_ris := r\<rparr>) = uart_stream d" "uart_stream (d\<lparr>u_lcr_h := r\<rparr>) = uart_stream d"
  "uart_stream (d\<lparr>u_cr := r\<rparr>) = uart_stream d" "uart_stream (d\<lparr>u_output := os\<rparr>) = uart_stream d"
  by (simp_all add: uart_stream_def)

lemma write_stream:
  assumes "lossless (GuestWrite off sz v) d"
  shows "uart_stream (uart_write off sz v d) = uart_stream d \<and>
    u_output (uart_write off sz v d) = u_output d @ written (GuestWrite off sz v)"
proof (cases "0x1000 \<le> off \<or> 4 < sz \<or> off AND 3 \<noteq> 0")
  case True
  then show ?thesis by (auto simp: uart_write_def)
next
  case False
  consider "off = 0" | "off = 0x2C" | "off = 0x30" | "off \<noteq> 0" "off \<noteq> 0x2C" "off \<noteq> 0x30" by blast
  then show ?thesis
  proof cases
    case 4
    then show ?thesis using False uart_write_frame [OF 4] by (simp add: uart_write_def uart_stream_def)
  qed (use False assms in \<open>simp_all add: uart_write_def uart_write_reg_def Let_def\<close>)
qed

lemma read_stream:
  "(if dr_access off sz then take 1 (u_rx_fifo d) else []) @ uart_stream (snd (uart_read off sz d)) = uart_stream d \<and>
    u_output (snd (uart_read off sz d)) = u_output d"
proof (cases "dr_access off sz")
  case True
  then have "\<not> (0x1000 \<le> off \<or> 4 < sz)" "off AND NOT 3 = 0" by (auto simp: dr_access_def not_le not_less)
  then have "snd (uart_read off sz d) = snd (uart_read_reg 0 d)"
    by (simp add: uart_read_def split: prod.split)
  moreover have "take 1 (u_rx_fifo d) @ tl (u_rx_fifo d) = u_rx_fifo d" by (cases "u_rx_fifo d") simp_all
  ultimately show ?thesis using True
    by (simp add: uart_read_DR) (simp add: uart_stream_def flip: append_assoc)
next
  case False
  then have "snd (uart_read off sz d) = d"
    by (auto simp: uart_read_def dr_access_def uart_read_other split: prod.split)
      (metis snd_conv uart_read_other)
  then show ?thesis using False by simp
qed

lemma rxfe_clear: "uart_flags d AND FR_RXFE = 0 \<longleftrightarrow> u_rx_fifo d \<noteq> []"
  by (simp add: uart_flags_def FR_RXFE_def FR_TXFE_def FR_RXFF_def Let_def)

lemma dr_byte:
  assumes "x < 256" "sz \<in> {1, 2, 4}"
  shows "sub_word (ucast (x :: u16)) 0 sz = ucast x"
proof -
  have x: "unat x < 256" using assms(1) by (simp add: word_less_nat_alt)
  have "size_mask sz = mask (8 * unat sz)" using assms(2) by (auto simp: size_mask_def mask_eq_exp_minus_1)
  then have "sub_word (ucast x) 0 sz = take_bit (8 * unat sz) (ucast (ucast x :: u32))"
    by (simp add: sub_word_def take_bit_eq_mask)
  also have "\<dots> = ucast x"
  proof (rule bit_word_eqI)
    fix k
    have "k < 8" if "bit x k" using word_small_no_bit [of x 8 k] x that by (cases "k < 8") simp_all
    then show "bit (take_bit (8 * unat sz) (ucast (ucast x :: u32)) :: u64) k \<longleftrightarrow> bit (ucast x :: u64) k"
      using assms(2) by (auto simp: bit_simps)
  qed
  finally show ?thesis .
qed

lemma read_value:
  assumes "lossless (GuestRead off sz) d" "\<forall>x \<in> set (u_rx_fifo d). x < 256"
  shows "received (GuestRead off sz) d = map ucast (if dr_access off sz then take 1 (u_rx_fifo d) else [])"
proof (cases "dr_access off sz \<and> u_rx_fifo d \<noteq> []")
  case True
  then obtain x f where f: "u_rx_fifo d = x # f" by (cases "u_rx_fifo d") auto
  have "off = 0" "sz \<in> {1, 2, 4}" using True assms(1) by auto
  moreover from this have "\<not> 4 < sz" by auto
  ultimately have "fst (uart_read off sz d) = sub_word (ucast x) 0 sz"
    by (simp add: uart_read_def uart_read_DR f)
  with dr_byte [of x sz] \<open>sz \<in> {1, 2, 4}\<close> assms(2) show ?thesis using True f by (simp add: rxfe_clear)
qed (auto simp: rxfe_clear)

lemma step_stream:
  assumes "lossless x d" "\<forall>b \<in> set (u_rx_fifo d). b < 256"
  shows "received x d @ map ucast (uart_stream (uart_step x d)) = map ucast (uart_stream d) @ map ucast (pushed x)"
    and "taken x d @ u_output (uart_step x d) = u_output d @ written x"
    and "\<forall>b \<in> set (u_rx_fifo (uart_step x d)). b < 256"
proof -
  obtain old :: "u16 list" where old: "received x d = map ucast old"
      "old @ uart_stream (uart_step x d) = uart_stream d @ map ucast (pushed x)"
      "taken x d @ u_output (uart_step x d) = u_output d @ written x"
  proof (cases x)
    case (GuestRead off sz)
    then show thesis
      using that [of "if dr_access off sz then take 1 (u_rx_fifo d) else []"] read_stream [of off sz d]
        read_value [of off sz d] assms by simp
  next
    case (GuestWrite off sz v)
    then show thesis using that [of "[]"] write_stream [of off sz v d] assms(1) by simp
  next
    case (HostPush bs)
    then show thesis
      using that [of "[]"] by (simp add: push_input_def uart_stream_def [of "d\<lparr>u_input := i\<rparr>" for i] uart_stream_def [of d])
  next
    case HostTake
    then show thesis using that [of "[]"] by (simp add: take_output_def uart_stream_def)
  qed
  have "map ucast (old @ uart_stream (uart_step x d)) = (map ucast (uart_stream d @ map ucast (pushed x)) :: u64 list)"
    by (simp only: old(2))
  moreover have "map ucast (map ucast bs :: u16 list) = (map ucast bs :: u64 list)" for bs :: bytes
    by (simp, intro ballI bit_word_eqI) (auto simp: bit_simps dest: bit_imp_le_length)
  ultimately show "received x d @ map ucast (uart_stream (uart_step x d)) = map ucast (uart_stream d) @ map ucast (pushed x)"
    by (simp only: old(1) map_append)
  show "taken x d @ u_output (uart_step x d) = u_output d @ written x" by (rule old(3))
  have byte: "(ucast (b :: u8) :: u16) < 256" for b
  proof -
    have "unat b < 2 ^ LENGTH(8)" by (rule unsigned_less)
    then show ?thesis by (simp add: word_less_nat_alt unsigned_ucast_eq take_bit_nat_eq_self)
  qed
  have "set (uart_stream (uart_step x d)) \<subseteq> set (uart_stream d @ map ucast (pushed x))"
    unfolding old(2) [symmetric] by simp
  then have "\<forall>b \<in> set (uart_stream (uart_step x d)). b < 256"
    using assms(2) byte by (auto simp: uart_stream_def)
  then show "\<forall>b \<in> set (u_rx_fifo (uart_step x d)). b < 256" by (simp add: uart_stream_def)
qed

lemma append_chain: "a @ b = c @ p \<Longrightarrow> e @ f = b @ q \<Longrightarrow> (a @ e) @ f = c @ p @ q"
  by (metis append_assoc)


definition demo_ops :: "uart_op list" where
  "demo_ops = [GuestWrite 0x30 4 0x301, HostPush [1, 2, 3], GuestRead 0 4, GuestWrite 0 1 65, GuestRead 0 1, HostTake]"


fun read_dr :: "nat \<Rightarrow> pl011 \<Rightarrow> u64 list \<times> pl011" where
  "read_dr 0 d = ([], d)"
| "read_dr (Suc n) d = (let (v, d1) = uart_read 0 4 d; (vs, d2) = read_dr n d1 in (v # vs, d2))"

lemma dr_value: "(ucast (ucast (x :: u16) :: u32) :: u64) AND 0xFFFFFFFF = ucast x"
proof -
  have "(0xFFFFFFFF :: u64) = mask 32" by (simp add: mask_eq_exp_minus_1)
  moreover have "(ucast (ucast x :: u32) :: u64) AND mask 32 = ucast x"
    by (rule bit_word_eqI) (auto simp: bit_simps dest: bit_imp_le_length)
  ultimately show ?thesis by metis
qed

text \<open>
  C32. Nothing the host sent gets stuck: with reception on, as many reads of DR as there are bytes
  pending return exactly those bytes in order, whatever the FIFO depth, and leave nothing.
\<close>

theorem uart_drains:
  assumes "uart_ok d" "rx_enabled d"
  shows "fst (read_dr (pending_input d) d) = map ucast (uart_stream d) \<and>
    pending_input (snd (read_dr (pending_input d) d)) = 0"
proof -
  have "fst (read_dr n d) = map ucast (uart_stream d) \<and> pending_input (snd (read_dr n d)) = 0"
    if "uart_ok d" "rx_enabled d" "n = length (uart_stream d)" for n d
    using that
  proof (induction n arbitrary: d)
    case 0
    then show ?case by (simp add: uart_stream_def pending_input_def)
  next
    case (Suc n)
    have "u_rx_fifo d \<noteq> []" using Suc.prems by (auto simp: uart_ok_def uart_stream_def)
    then obtain x f where f: "u_rx_fifo d = x # f" by (cases "u_rx_fifo d") auto
    obtain d1 where r: "uart_read 0 4 d = (ucast x, d1)" "d1 = snd (uart_read_reg 0 d)"
      by (simp add: uart_read_def uart_read_DR f sub_word_def size_mask_def dr_value)
    have "uart_stream d = x # uart_stream d1"
      using read_stream [of 0 4 d] r by (simp add: dr_access_def f)
    moreover have "uart_ok d1" unfolding r(2) by (rule uart_ok_read_reg [OF Suc.prems(1)])
    moreover have "rx_enabled d1" unfolding r(2) using Suc.prems(2) by (simp add: uart_read_DR rx_enabled_def)
    ultimately show ?case using Suc.IH [of d1] Suc.prems(3) by (simp add: r(1) case_prod_unfold)
  qed
  moreover have "pending_input d = length (uart_stream d)" by (simp add: pending_input_def uart_stream_def)
  ultimately show ?thesis using assms by blast
qed

theorem uart_drains_witness:
  "fst (read_dr 3 (push_input [1, 2, 3] (uart_write 0x30 4 0x301 uart_new))) = [1, 2, 3]"
proof -
  let ?d = "push_input [1, 2, 3] (uart_write 0x30 4 0x301 uart_new)"
  have "uart_ok ?d" by (intro uart_ok_push uart.wr_inv uart_ok_new)
  moreover have "rx_enabled ?d" "pending_input ?d = 3" "uart_stream ?d = [1, 2, 3]" by code_simp+
  ultimately show ?thesis using uart_drains [of ?d] by simp
qed

end
