(* ===== verification/Pl031.thy ===== *)
theory Pl031
  imports Mmio_Bus Snapshot
begin

text \<open>
  The PL031 real-time clock, \<^verbatim>\<open>crates/vetro-platform/src/pl031.rs\<close>. Time comes from the host through
  \<open>set_time\<close>; the counter is the time plus an offset, in 32 bits.
\<close>

unbundle bit_operations_syntax

subsection \<open>Model\<close>

definition rtc_DR :: u64 where [simp]: "rtc_DR = 0x00"
definition rtc_MR :: u64 where [simp]: "rtc_MR = 0x04"
definition rtc_LR :: u64 where [simp]: "rtc_LR = 0x08"
definition rtc_CR :: u64 where [simp]: "rtc_CR = 0x0C"
definition rtc_IMSC :: u64 where [simp]: "rtc_IMSC = 0x10"
definition rtc_RIS :: u64 where [simp]: "rtc_RIS = 0x14"
definition rtc_MIS :: u64 where [simp]: "rtc_MIS = 0x18"
definition rtc_ICR :: u64 where [simp]: "rtc_ICR = 0x1C"
definition rtc_PERIPH_ID0 :: u64 where [simp]: "rtc_PERIPH_ID0 = 0xFE0"

definition rtc_ID :: "u8 list" where
  "rtc_ID = [0x31, 0x10, 0x14, 0x00, 0x0D, 0xF0, 0x05, 0xB1]"

record pl031 =
  rtc_now :: u64
  rtc_offset :: u32
  rtc_mr :: u32
  rtc_lr :: u32
  rtc_imsc :: u32
  rtc_ris :: u32

definition rtc_new :: "u64 \<Rightarrow> pl031" where
  "rtc_new now_secs =
    \<lparr>rtc_now = now_secs, rtc_offset = 0, rtc_mr = 0, rtc_lr = 0, rtc_imsc = 0, rtc_ris = 0\<rparr>"

definition rtc_count :: "pl031 \<Rightarrow> u32" where
  "rtc_count d = ucast (rtc_now d) + rtc_offset d"

definition set_time :: "u64 \<Rightarrow> pl031 \<Rightarrow> pl031" where
  "set_time now_secs d =
    (let old = rtc_count d;
         advance = (if rtc_now d \<le> now_secs then now_secs - rtc_now d else 0);
         d = d\<lparr>rtc_now := now_secs\<rparr>
     in if advance = 0 then d
        else let to_match = ucast (rtc_mr d - old) :: u64
          in if to_match \<noteq> 0 \<and> to_match \<le> advance \<or> push_bit 32 1 \<le> advance then d\<lparr>rtc_ris := 1\<rparr> else d)"

definition seconds_to_alarm :: "pl031 \<Rightarrow> u32 option" where
  "seconds_to_alarm d =
    (if rtc_ris d = 0 then let s = rtc_mr d - rtc_count d in if s \<noteq> 0 then Some s else None else None)"

definition rtc_irq_level :: "pl031 \<Rightarrow> bool" where
  "rtc_irq_level d \<longleftrightarrow> rtc_ris d AND rtc_imsc d \<noteq> 0"

definition check_alarm_now :: "pl031 \<Rightarrow> pl031" where
  "check_alarm_now d = (if rtc_mr d = rtc_count d then d\<lparr>rtc_ris := 1\<rparr> else d)"

definition rtc_read_reg :: "u64 \<Rightarrow> pl031 \<Rightarrow> u32" where
  "rtc_read_reg reg d =
    (if reg = rtc_DR then rtc_count d
     else if reg = rtc_MR then rtc_mr d
     else if reg = rtc_LR then rtc_lr d
     else if reg = rtc_CR then 1
     else if reg = rtc_IMSC then rtc_imsc d
     else if reg = rtc_RIS then rtc_ris d
     else if reg = rtc_MIS then rtc_ris d AND rtc_imsc d
     else if 0xFE0 \<le> reg \<and> reg \<le> 0xFFC then ucast (rtc_ID ! unat ((reg - rtc_PERIPH_ID0) div 4))
     else 0)"

definition rtc_write_reg :: "u64 \<Rightarrow> u32 \<Rightarrow> pl031 \<Rightarrow> pl031" where
  "rtc_write_reg reg v d =
    (if reg = rtc_MR then check_alarm_now (d\<lparr>rtc_mr := v\<rparr>)
     else if reg = rtc_LR then check_alarm_now (d\<lparr>rtc_offset := v - ucast (rtc_now d), rtc_lr := v\<rparr>)
     else if reg = rtc_IMSC then d\<lparr>rtc_imsc := v AND 1\<rparr>
     else if reg = rtc_ICR then d\<lparr>rtc_ris := 0\<rparr>
     else d)"

definition rtc_read :: "u64 \<Rightarrow> u8 \<Rightarrow> pl031 \<Rightarrow> u64 \<times> pl031" where
  "rtc_read offset sz d =
    (if 0x1000 \<le> offset \<or> 4 < sz then (0, d)
     else (sub_word (rtc_read_reg (offset AND NOT 3) d) offset sz, d))"

definition rtc_write :: "u64 \<Rightarrow> u8 \<Rightarrow> u64 \<Rightarrow> pl031 \<Rightarrow> pl031" where
  "rtc_write offset sz v d =
    (if 0x1000 \<le> offset \<or> sz \<noteq> 4 \<or> offset AND 3 \<noteq> 0 then d else rtc_write_reg offset (ucast v) d)"

definition rtc_save :: "pl031 \<Rightarrow> writer \<Rightarrow> writer" where
  "rtc_save d w = fold w_u32 [rtc_offset d, rtc_mr d, rtc_lr d, rtc_imsc d, rtc_ris d] (w_u64 (rtc_now d) w)"

definition rtc_restore :: "pl031 \<Rightarrow> reader \<Rightarrow> snap_error + pl031 \<times> reader" where
  "rtc_restore d r =
    rbind (r_u64 r) (\<lambda>(now, r). rbind (r_u32 r) (\<lambda>(off, r). rbind (r_u32 r) (\<lambda>(mr, r).
    rbind (r_u32 r) (\<lambda>(lr, r). rbind (r_u32 r) (\<lambda>(imsc, r). rbind (r_u32 r) (\<lambda>(ris, r).
      Inr (d\<lparr>rtc_now := now, rtc_offset := off, rtc_mr := mr, rtc_lr := lr, rtc_imsc := imsc,
        rtc_ris := ris\<rparr>, r)))))))"

subsection \<open>Device and snapshot\<close>

text \<open>The interrupt registers hold one bit each.\<close>

definition rtc_ok :: "pl031 \<Rightarrow> bool" where
  "rtc_ok d \<longleftrightarrow> rtc_imsc d \<le> 1 \<and> rtc_ris d \<le> 1"

lemma rtc_ok_ops:
  "rtc_ok (rtc_new t)" "rtc_ok d \<Longrightarrow> rtc_ok (set_time t d)" "rtc_ok d \<Longrightarrow> rtc_ok (rtc_write_reg r v d)"
  by (simp_all add: rtc_ok_def rtc_new_def set_time_def rtc_write_reg_def check_alarm_now_def Let_def
      word_and_le1)

interpretation rtc: mmio_page rtc_read rtc_write rtc_ok
proof
  show "rtc_ok (snd (rtc_read off sz d))" if "rtc_ok d" for off sz d
    using that by (simp add: rtc_read_def)
  show "rtc_ok (rtc_write off sz v d)" if "rtc_ok d" for off sz v d
    using that by (simp add: rtc_write_def rtc_ok_ops)
  show "rtc_read off sz d = (0, d)" if "0x1000 \<le> off \<or> 4 < sz" for off sz d
    using that by (simp add: rtc_read_def)
  show "rtc_write off sz v d = d" if "0x1000 \<le> off \<or> 4 < sz \<or> off AND 3 \<noteq> 0" for off sz v d
    using that by (auto simp: rtc_write_def)
  show "fst (rtc_read off sz d) AND size_mask sz = fst (rtc_read off sz d)" for off sz d
    by (simp add: rtc_read_def)
qed

definition rtc_img :: "pl031 \<Rightarrow> bytes" where
  "rtc_img d = le_bytes 8 (rtc_now d) @ le_bytes 4 (rtc_offset d) @ le_bytes 4 (rtc_mr d) @
    le_bytes 4 (rtc_lr d) @ le_bytes 4 (rtc_imsc d) @ le_bytes 4 (rtc_ris d)"

interpretation rtcs: snapshot rtc_save rtc_restore rtc_img "\<lambda>d0 d. True" "\<lambda>d0 d. d"
proof
  show "rtc_save d w = w_raw (rtc_img d) w" for d w
    by (simp add: rtc_save_def rtc_img_def codec_simps)
  show "rtc_restore d0 (reader_at t pre (rtc_img d @ xs)) = Inr (d, reader_at t (pre @ rtc_img d) xs)"
    for d0 d t pre xs
    by (simp add: rtc_restore_def rtc_img_def codec_simps)
qed simp

subsection \<open>The alarm\<close>

lemma first_match:
  "(\<exists>k. 1 \<le> k \<and> k \<le> a \<and> of_nat k = (m :: u32)) \<longleftrightarrow> (if m = 0 then 2 ^ 32 else unat m) \<le> a"
    (is "?L \<longleftrightarrow> ?b \<le> a")
proof
  assume ?L
  then obtain k where k: "1 \<le> k" "k \<le> a" "of_nat k = m" by blast
  then have "unat m = k mod 2 ^ 32" by (auto simp: unat_of_nat take_bit_eq_mod)
  moreover have "2 ^ 32 \<le> k" if "k mod 2 ^ 32 = 0" using k(1) that by (auto elim!: dvdE simp: mod_eq_0_iff_dvd)
  moreover have "k mod 2 ^ 32 \<le> k" by (rule mod_less_eq_dividend)
  ultimately show "?b \<le> a" using k(2) by (cases "m = 0") auto
next
  assume b: "?b \<le> a"
  have "1 \<le> ?b" by (cases "m = 0") (simp_all add: Suc_leI unat_gt_0)
  moreover have "of_nat ?b = m" by (cases "m = 0") simp_all
  ultimately show ?L using b by blast
qed

lemma set_time_cases:
  "set_time t d = d\<lparr>rtc_now := t, rtc_ris :=
    (if (if rtc_mr d = rtc_count d then 2 ^ 32 else unat (rtc_mr d - rtc_count d)) \<le> unat t - unat (rtc_now d)
     then 1 else rtc_ris d)\<rparr>"
proof -
  let ?m = "rtc_mr d - rtc_count d"
  have m: "?m = 0 \<longleftrightarrow> rtc_mr d = rtc_count d" by simp
  define adv where "adv = (if rtc_now d \<le> t then t - rtc_now d else 0)"
  have adv: "unat adv = unat t - unat (rtc_now d)"
    by (simp add: adv_def word_le_nat_alt unat_sub)
  have um: "unat (ucast ?m :: u64) = unat ?m" by (simp add: unat_ucast_up)
  have le: "(ucast ?m :: u64) \<le> adv \<longleftrightarrow> unat ?m \<le> unat adv"
    by (simp only: word_le_nat_alt um)
  have nz: "(ucast ?m :: u64) \<noteq> 0 \<longleftrightarrow> ?m \<noteq> 0" by (metis um unat_eq_zero)
  have big: "push_bit 32 (1 :: u64) \<le> adv \<longleftrightarrow> 2 ^ 32 \<le> unat adv" by (simp add: word_le_nat_alt)
  have st: "set_time t d = (if adv = 0 then d\<lparr>rtc_now := t\<rparr>
      else if (ucast ?m :: u64) \<noteq> 0 \<and> ucast ?m \<le> adv \<or> push_bit 32 1 \<le> adv
        then d\<lparr>rtc_now := t, rtc_ris := 1\<rparr> else d\<lparr>rtc_now := t\<rparr>)"
    unfolding set_time_def adv_def by (simp add: Let_def)
  have "unat ?m < 2 ^ LENGTH(32)" by (rule unsigned_less)
  then have u: "unat ?m < 2 ^ 32" by simp
  show ?thesis
  proof (cases "adv = 0")
    case True
    then have "unat adv = 0" by simp
    then show ?thesis using st True u m by (simp add: adv [symmetric] unat_eq_zero)
  next
    case False
    then show ?thesis using st u
      by (cases "?m = 0") (simp_all only: nz le big adv [symmetric] m if_False simp_thms, auto)
  qed
qed

lemma count_match: "rtc_count d + of_nat k = rtc_mr d \<longleftrightarrow> of_nat k = rtc_mr d - rtc_count d"
  by (auto simp: algebra_simps)

lemma set_time_fields:
  "rtc_now (set_time t d) = t" "rtc_offset (set_time t d) = rtc_offset d" "rtc_mr (set_time t d) = rtc_mr d"
  "rtc_lr (set_time t d) = rtc_lr d" "rtc_imsc (set_time t d) = rtc_imsc d"
  by (simp_all add: set_time_cases)

text \<open>The counter passes the match value within the next \<open>a\<close> seconds, wrap-around included.\<close>

definition passes :: "nat \<Rightarrow> u32 \<Rightarrow> u32 \<Rightarrow> bool" where
  "passes a c m \<longleftrightarrow> (\<exists>k. 1 \<le> k \<and> k \<le> a \<and> c + of_nat k = m)"

lemma set_time_ris:
  "rtc_ris (set_time t d) =
    (if passes (unat t - unat (rtc_now d)) (rtc_count d) (rtc_mr d) then 1 else rtc_ris d)"
  unfolding set_time_cases passes_def count_match first_match by simp

lemma passes_0 [simp]: "\<not> passes 0 c m"
  by (auto simp: passes_def)

lemma passes_add: "passes (a + b) c m \<longleftrightarrow> passes a c m \<or> passes b (c + of_nat a) m"
proof
  assume "passes (a + b) c m"
  then obtain k where k: "1 \<le> k" "k \<le> a + b" "c + of_nat k = m" by (auto simp: passes_def)
  show "passes a c m \<or> passes b (c + of_nat a) m"
  proof (cases "k \<le> a")
    case True
    then show ?thesis using k by (auto simp: passes_def)
  next
    case False
    then have "1 \<le> k - a" "k - a \<le> b" "c + of_nat a + of_nat (k - a) = m"
      using k by (simp_all add: of_nat_diff)
    then show ?thesis by (auto simp: passes_def)
  qed
next
  assume "passes a c m \<or> passes b (c + of_nat a) m"
  then show "passes (a + b) c m"
  proof
    assume "passes a c m"
    then obtain k where "1 \<le> k" "k \<le> a" "c + of_nat k = m" by (auto simp: passes_def)
    then show ?thesis unfolding passes_def by (intro exI [of _ k]) simp
  next
    assume "passes b (c + of_nat a) m"
    then obtain k where "1 \<le> k" "k \<le> b" "c + of_nat a + of_nat k = m" by (auto simp: passes_def)
    then show ?thesis unfolding passes_def by (intro exI [of _ "a + k"]) (simp add: add.assoc)
  qed
qed

lemma ucast_add_of_nat: "(ucast (x + of_nat a :: u64) :: u32) = ucast x + of_nat a"
proof (transfer fixing: a)
  fix x :: int
  have "take_bit 32 (take_bit 64 x + int a) = take_bit 32 (take_bit 32 (take_bit 64 x) + take_bit 32 (int a))"
    by (rule take_bit_add [symmetric])
  also have "\<dots> = take_bit 32 (take_bit 32 x + take_bit 32 (int a))" by (simp add: take_bit_take_bit)
  also have "\<dots> = take_bit 32 (x + int a)" by (rule take_bit_add)
  finally show "take_bit LENGTH(32) (take_bit LENGTH(64) (x + int a)) =
      take_bit LENGTH(32) (take_bit LENGTH(64) x + int a)"
    by (simp add: take_bit_take_bit)
qed

lemma set_time_count:
  assumes "rtc_now d \<le> t"
  shows "rtc_count (set_time t d) = rtc_count d + of_nat (unat t - unat (rtc_now d))"
proof -
  have "t = rtc_now d + of_nat (unat t - unat (rtc_now d))"
    using assms by (simp add: word_le_nat_alt of_nat_diff)
  then have "(ucast t :: u32) = ucast (rtc_now d + of_nat (unat t - unat (rtc_now d)))"
    by (rule arg_cong)
  also have "\<dots> = ucast (rtc_now d) + of_nat (unat t - unat (rtc_now d))" by (rule ucast_add_of_nat)
  finally have t: "(ucast t :: u32) = ucast (rtc_now d) + of_nat (unat t - unat (rtc_now d))" .
  show ?thesis unfolding rtc_count_def set_time_fields t by (simp only: ac_simps)
qed

text \<open>
  C29. The alarm does not depend on how often the host updates the time, and is exact: after any
  non-decreasing sequence of updates the interrupt is set if one of the values the counter took
  after the initial one, wrap-around included, is the match value, and is otherwise as it was.
\<close>

theorem set_time_alarm:
  assumes "sorted (rtc_now d # ts)"
  shows "rtc_ris (fold set_time ts d) =
    (if passes (unat (last (rtc_now d # ts)) - unat (rtc_now d)) (rtc_count d) (rtc_mr d) then 1 else rtc_ris d)"
  using assms
proof (induction ts arbitrary: d)
  case Nil
  then show ?case by simp
next
  case (Cons t ts)
  let ?n = "unat (rtc_now d)" and ?l = "unat (last (t # ts))"
  have le: "rtc_now d \<le> t" "t \<le> last (t # ts)" using Cons.prems sorted_map_last [of id "t # ts" t] by auto
  then have l: "?l - ?n = (unat t - ?n) + (?l - unat t)" by (simp add: word_le_nat_alt)
  have "rtc_ris (fold set_time ts (set_time t d)) =
      (if passes (?l - unat t) (rtc_count (set_time t d)) (rtc_mr d) then 1 else rtc_ris (set_time t d))"
    using Cons.IH [of "set_time t d"] Cons.prems by (simp add: set_time_fields)
  also have "\<dots> = (if passes (?l - ?n) (rtc_count d) (rtc_mr d) then 1 else rtc_ris d)"
    unfolding l passes_add by (simp add: set_time_ris set_time_count [OF le(1)])
  finally show ?case by simp
qed

theorem set_time_alarm_witness:
  "rtc_ris (fold set_time [7, 9, 14] ((rtc_new 5)\<lparr>rtc_mr := 10\<rparr>)) = 1"
proof -
  have "passes 9 (rtc_count ((rtc_new 5)\<lparr>rtc_mr := 10\<rparr>)) 10"
    unfolding passes_def by (rule exI [of _ 5]) (simp add: rtc_count_def rtc_new_def)
  then show ?thesis
    using set_time_alarm [of "(rtc_new 5)\<lparr>rtc_mr := 10\<rparr>" "[7, 9, 14]"] by (simp add: rtc_new_def)
qed

text \<open>
  C30. The host's schedule for the alarm is right: while the interrupt is not set, bringing the
  time forward to \<open>t\<close> sets it exactly when \<open>seconds_to_alarm\<close> seconds have passed, or a full turn of
  the counter when it returns nothing.
\<close>

theorem seconds_to_alarm_exact:
  assumes "rtc_ris d = 0"
  shows "rtc_ris (set_time t d) \<noteq> 0 \<longleftrightarrow>
    (case seconds_to_alarm d of Some s \<Rightarrow> unat s | None \<Rightarrow> 2 ^ 32) \<le> unat t - unat (rtc_now d)"
  using assms by (simp add: set_time_cases seconds_to_alarm_def)

theorem seconds_to_alarm_exact_witness:
  "seconds_to_alarm ((rtc_new 5)\<lparr>rtc_mr := 10\<rparr>) = Some 5 \<and>
    rtc_ris (set_time 9 ((rtc_new 5)\<lparr>rtc_mr := 10\<rparr>)) = 0 \<and> rtc_ris (set_time 10 ((rtc_new 5)\<lparr>rtc_mr := 10\<rparr>)) \<noteq> 0"
proof -
  let ?d = "(rtc_new 5)\<lparr>rtc_mr := 10\<rparr>"
  have s: "seconds_to_alarm ?d = Some 5" by (simp add: seconds_to_alarm_def rtc_new_def rtc_count_def)
  have d: "rtc_ris ?d = 0" "rtc_now ?d = 5" by (simp_all add: rtc_new_def)
  show ?thesis
    using seconds_to_alarm_exact [OF d(1), of 9] seconds_to_alarm_exact [OF d(1), of 10] s d(2) by simp
qed

end
