(* ===== verification/Pl061.thy ===== *)
theory Pl061
  imports Mmio_Bus Snapshot
begin

text \<open>
  The PL061 GPIO controller, \<^verbatim>\<open>crates/vetro-platform/src/pl061.rs\<close>: eight lines, the inputs driven
  by the host, with edge and level interrupts.
\<close>

unbundle bit_operations_syntax

subsection \<open>Model\<close>

definition gpio_DATA :: u64 where [simp]: "gpio_DATA = 0x000"
definition gpio_DIR :: u64 where [simp]: "gpio_DIR = 0x400"
definition gpio_IS :: u64 where [simp]: "gpio_IS = 0x404"
definition gpio_IBE :: u64 where [simp]: "gpio_IBE = 0x408"
definition gpio_IEV :: u64 where [simp]: "gpio_IEV = 0x40C"
definition gpio_IE :: u64 where [simp]: "gpio_IE = 0x410"
definition gpio_RIS :: u64 where [simp]: "gpio_RIS = 0x414"
definition gpio_MIS :: u64 where [simp]: "gpio_MIS = 0x418"
definition gpio_IC :: u64 where [simp]: "gpio_IC = 0x41C"
definition gpio_AFSEL :: u64 where [simp]: "gpio_AFSEL = 0x420"
definition gpio_PERIPH_ID0 :: u64 where [simp]: "gpio_PERIPH_ID0 = 0xFE0"

definition power_key_line :: u32 where "power_key_line = 3"

definition gpio_ID :: "u8 list" where
  "gpio_ID = [0x61, 0x10, 0x04, 0x00, 0x0D, 0xF0, 0x05, 0xB1]"

record pl061 =
  g_data :: u8
  g_old_in :: u8
  g_dir :: u8
  g_is :: u8
  g_ibe :: u8
  g_iev :: u8
  g_ie :: u8
  g_ris :: u8
  g_afsel :: u8

definition gpio_new :: pl061 where
  "gpio_new = \<lparr>g_data = 0, g_old_in = 0, g_dir = 0, g_is = 0, g_ibe = 0, g_iev = 0, g_ie = 0, g_ris = 0,
    g_afsel = 0\<rparr>"

definition gpio_update :: "pl061 \<Rightarrow> pl061" where
  "gpio_update d =
    (let changed = (g_old_in d XOR g_data d) AND NOT (g_dir d);
         d = (if changed \<noteq> 0
           then let edge = changed AND NOT (g_is d)
             in d\<lparr>g_old_in := g_data d,
                  g_ris := g_ris d OR (edge AND (g_ibe d OR NOT (g_data d XOR g_iev d)))\<rparr>
           else d)
     in d\<lparr>g_ris := g_ris d OR (NOT (g_data d XOR g_iev d) AND g_is d)\<rparr>)"

definition set_input :: "u32 \<Rightarrow> bool \<Rightarrow> pl061 \<Rightarrow> pl061" where
  "set_input line level d =
    (let m = push_bit (unat (line AND 7)) 1
     in if g_dir d AND m = 0
        then gpio_update (d\<lparr>g_data := (g_data d AND NOT m) OR (if level then m else 0)\<rparr>)
        else d)"

definition gpio_outputs :: "pl061 \<Rightarrow> u8" where
  "gpio_outputs d = g_data d AND g_dir d"

definition gpio_irq_level :: "pl061 \<Rightarrow> bool" where
  "gpio_irq_level d \<longleftrightarrow> g_ris d AND g_ie d \<noteq> 0"

definition gpio_read_reg :: "u64 \<Rightarrow> pl061 \<Rightarrow> u8" where
  "gpio_read_reg reg d =
    (if reg \<le> 0x3FC then g_data d AND ucast (drop_bit 2 reg)
     else if reg = gpio_DIR then g_dir d
     else if reg = gpio_IS then g_is d
     else if reg = gpio_IBE then g_ibe d
     else if reg = gpio_IEV then g_iev d
     else if reg = gpio_IE then g_ie d
     else if reg = gpio_RIS then g_ris d
     else if reg = gpio_MIS then g_ris d AND g_ie d
     else if reg = gpio_AFSEL then g_afsel d
     else if 0xFE0 \<le> reg \<and> reg \<le> 0xFFC then gpio_ID ! unat ((reg - gpio_PERIPH_ID0) div 4)
     else 0)"

definition gpio_write_reg :: "u64 \<Rightarrow> u8 \<Rightarrow> pl061 \<Rightarrow> pl061" where
  "gpio_write_reg reg v d =
    (if reg \<le> 0x3FC then
       let m = ucast (drop_bit 2 reg) AND g_dir d
       in gpio_update (d\<lparr>g_data := (g_data d AND NOT m) OR (v AND m)\<rparr>)
     else if reg = gpio_DIR then gpio_update (d\<lparr>g_dir := v\<rparr>)
     else if reg = gpio_IS then gpio_update (d\<lparr>g_is := v\<rparr>)
     else if reg = gpio_IBE then gpio_update (d\<lparr>g_ibe := v\<rparr>)
     else if reg = gpio_IEV then gpio_update (d\<lparr>g_iev := v\<rparr>)
     else if reg = gpio_IE then gpio_update (d\<lparr>g_ie := v\<rparr>)
     else if reg = gpio_IC then gpio_update (d\<lparr>g_ris := g_ris d AND NOT v\<rparr>)
     else if reg = gpio_AFSEL then gpio_update (d\<lparr>g_afsel := v\<rparr>)
     else d)"

definition gpio_read :: "u64 \<Rightarrow> u8 \<Rightarrow> pl061 \<Rightarrow> u64 \<times> pl061" where
  "gpio_read offset sz d =
    (if 0x1000 \<le> offset \<or> 4 < sz then (0, d)
     else (sub_word (ucast (gpio_read_reg (offset AND NOT 3) d)) offset sz, d))"

definition gpio_write :: "u64 \<Rightarrow> u8 \<Rightarrow> u64 \<Rightarrow> pl061 \<Rightarrow> pl061" where
  "gpio_write offset sz v d =
    (if 0x1000 \<le> offset \<or> 4 < sz \<or> offset AND 3 \<noteq> 0 then d else gpio_write_reg offset (ucast v) d)"

definition gpio_save :: "pl061 \<Rightarrow> writer \<Rightarrow> writer" where
  "gpio_save d = w_raw [g_data d, g_old_in d, g_dir d, g_is d, g_ibe d, g_iev d, g_ie d, g_ris d, g_afsel d]"

definition gpio_restore :: "pl061 \<Rightarrow> reader \<Rightarrow> snap_error + pl061 \<times> reader" where
  "gpio_restore d r =
    rbind (r_raw 9 r) (\<lambda>(b, r).
      Inr (d\<lparr>g_data := b ! 0, g_old_in := b ! 1, g_dir := b ! 2, g_is := b ! 3, g_ibe := b ! 4,
        g_iev := b ! 5, g_ie := b ! 6, g_ris := b ! 7, g_afsel := b ! 8\<rparr>, r))"

subsection \<open>Device and snapshot\<close>

text \<open>Between operations the interrupt logic has seen every input.\<close>

definition gpio_ok :: "pl061 \<Rightarrow> bool" where
  "gpio_ok d \<longleftrightarrow> (g_old_in d XOR g_data d) AND NOT (g_dir d) = 0"

lemma gpio_ok_ops [simp]:
  "gpio_ok gpio_new" "gpio_ok (gpio_update d)" "gpio_ok d \<Longrightarrow> gpio_ok (gpio_write_reg r v d)"
  "gpio_ok d \<Longrightarrow> gpio_ok (set_input n l d)"
proof -
  show u: "gpio_ok (gpio_update d)" for d by (simp add: gpio_ok_def gpio_update_def Let_def)
  show "gpio_ok gpio_new" by (simp add: gpio_ok_def gpio_new_def)
  show "gpio_ok d \<Longrightarrow> gpio_ok (gpio_write_reg r v d)" "gpio_ok d \<Longrightarrow> gpio_ok (set_input n l d)"
    by (simp_all add: gpio_write_reg_def set_input_def Let_def u)
qed

interpretation gpio: mmio_page gpio_read gpio_write gpio_ok
proof
  show "gpio_ok (snd (gpio_read off sz d))" if "gpio_ok d" for off sz d
    using that by (simp add: gpio_read_def)
  show "gpio_ok (gpio_write off sz v d)" if "gpio_ok d" for off sz v d
    using that by (simp add: gpio_write_def)
  show "gpio_read off sz d = (0, d)" if "0x1000 \<le> off \<or> 4 < sz" for off sz d
    using that by (simp add: gpio_read_def)
  show "gpio_write off sz v d = d" if "0x1000 \<le> off \<or> 4 < sz \<or> off AND 3 \<noteq> 0" for off sz v d
    using that by (auto simp: gpio_write_def)
  show "fst (gpio_read off sz d) AND size_mask sz = fst (gpio_read off sz d)" for off sz d
    by (simp add: gpio_read_def)
qed

definition gpio_img :: "pl061 \<Rightarrow> bytes" where
  "gpio_img d = [g_data d, g_old_in d, g_dir d, g_is d, g_ibe d, g_iev d, g_ie d, g_ris d, g_afsel d]"

interpretation gpios: snapshot gpio_save gpio_restore gpio_img "\<lambda>d0 d. True" "\<lambda>d0 d. d"
proof
  show "gpio_save d w = w_raw (gpio_img d) w" for d w
    by (simp add: gpio_save_def gpio_img_def)
  show "gpio_restore d0 (reader_at t pre (gpio_img d @ xs)) = Inr (d, reader_at t (pre @ gpio_img d) xs)"
    for d0 d t pre xs
    using r_raw_append [of "gpio_img d" 9 t pre xs] by (simp add: gpio_restore_def gpio_img_def)
qed simp

subsection \<open>Interrupts\<close>

lemma line_less: "unat (line AND 7 :: u32) < 8"
proof -
  have "line AND 7 \<le> 7" by (rule word_and_le1)
  then show ?thesis by (simp add: word_le_nat_alt)
qed

lemma gpio_update_ris:
  assumes "i < 8"
  shows "bit (g_ris (gpio_update d)) i \<longleftrightarrow> bit (g_ris d) i \<or>
    (if bit (g_is d) i then bit (g_data d) i = bit (g_iev d) i
     else bit (g_old_in d) i \<noteq> bit (g_data d) i \<and> \<not> bit (g_dir d) i \<and>
       (bit (g_ibe d) i \<or> bit (g_data d) i = bit (g_iev d) i))"
proof -
  let ?c = "(g_old_in d XOR g_data d) AND NOT (g_dir d)"
  have "\<not> (bit (g_old_in d) i \<noteq> bit (g_data d) i \<and> \<not> bit (g_dir d) i)" if "?c = 0"
    using arg_cong [OF that, of "\<lambda>w. bit w i"] assms by (simp add: bit_simps)
  then show ?thesis
    using assms by (cases "?c = 0") (auto simp: gpio_update_def Let_def bit_simps)
qed

text \<open>
  C31. Driving an input line raises exactly the interrupts the configuration asks for: on an edge
  sensitive line, when the level changes and the change is the chosen edge (or both are); on
  level sensitive lines, when the level is the active one. Nothing is ever cleared.
\<close>

theorem set_input_interrupts:
  assumes "gpio_ok d" "i < 8" "n = unat (line AND 7)" "\<not> bit (g_dir d) n"
  shows "bit (g_ris (set_input line level d)) i \<longleftrightarrow> bit (g_ris d) i \<or>
    (if bit (g_is d) i then (if i = n then level else bit (g_data d) i) = bit (g_iev d) i
     else i = n \<and> level \<noteq> bit (g_data d) n \<and> (bit (g_ibe d) n \<or> level = bit (g_iev d) n))"
proof -
  let ?m = "push_bit n 1 :: u8"
  let ?d = "d\<lparr>g_data := (g_data d AND NOT ?m) OR (if level then ?m else 0)\<rparr>"
  have "g_dir d AND ?m = 0" using assms(4) word_ne_zero_test [of "g_dir d" n] by blast
  then have s: "set_input line level d = gpio_update ?d"
    unfolding set_input_def Let_def assms(3) [symmetric] by (simp only: if_True refl)
  have data: "bit (g_data ?d) i = (if i = n then level else bit (g_data d) i)"
    using assms(2) line_less [of line] unfolding assms(3) by (auto simp: bit_simps)
  have seen: "bit (g_old_in d) i = bit (g_data d) i" if "\<not> bit (g_dir d) i"
    using arg_cong [OF assms(1) [unfolded gpio_ok_def], of "\<lambda>w. bit w i"] that assms(2)
    by (simp add: bit_simps)
  show ?thesis
    unfolding s gpio_update_ris [OF assms(2)] data using seen assms(4) by auto
qed

theorem set_input_interrupts_witness:
  "bit (g_ris (set_input power_key_line True (gpio_new\<lparr>g_iev := 8, g_ie := 8\<rparr>))) 3 \<and>
    \<not> bit (g_ris (set_input power_key_line True (gpio_new\<lparr>g_iev := 8, g_ie := 8\<rparr>))) 2"
proof -
  let ?d = "gpio_new\<lparr>g_iev := 8, g_ie := 8\<rparr>"
  have "gpio_ok ?d" "\<not> bit (g_dir ?d) 3" "3 = unat (power_key_line AND 7)"
    by (simp_all add: gpio_ok_def gpio_new_def power_key_line_def)
  moreover have "bit (g_iev ?d) 3" "\<not> bit (g_is ?d) i" "\<not> bit (g_ris ?d) i" "\<not> bit (g_data ?d) 3" for i
    by (simp_all add: gpio_new_def bit_numeral_rec numeral_eq_Suc)
  ultimately have d: "gpio_ok ?d" "\<not> bit (g_dir ?d) 3" "3 = unat (power_key_line AND 7)"
    "bit (g_iev ?d) 3" "\<not> bit (g_is ?d) i" "\<not> bit (g_ris ?d) i" "\<not> bit (g_data ?d) 3" for i by blast+
  show ?thesis
    using set_input_interrupts [OF d(1) _ d(3) d(2), of 3 True]
      set_input_interrupts [OF d(1) _ d(3) d(2), of 2 True] d(4-7) by simp
qed

lemma gpio_update_data [simp]: "g_data (gpio_update d) = g_data d" "g_dir (gpio_update d) = g_dir d"
  by (simp_all add: gpio_update_def Let_def)

text \<open>
  DATA accesses reach only the lines their address selects: a write gives the selected outputs
  the written value and changes no other line, and a read of the same selection then shows it,
  with zeros for the lines not selected.
\<close>

theorem data_masked:
  assumes "reg \<le> 0x3FC" "m = (ucast (drop_bit 2 reg) :: u8)" "i < 8"
  shows "bit (g_data (gpio_write_reg reg v d)) i =
      (if bit m i \<and> bit (g_dir d) i then bit v i else bit (g_data d) i) \<and>
    bit (gpio_read_reg reg (gpio_write_reg reg v d)) i =
      (bit m i \<and> (if bit (g_dir d) i then bit v i else bit (g_data d) i))"
  using assms by (auto simp: gpio_write_reg_def gpio_read_reg_def Let_def bit_simps)

end
