(* ===== verification/Gic.thy ===== *)
theory Gic
  imports Mmio_Bus Snapshot
begin

text \<open>
  The GICv3 interrupt controller, \<^verbatim>\<open>crates/vetro-platform/src/gic.rs\<close>: distributor,
  redistributors and the system-register CPU interface of each core, with their snapshot.
  INTIDs and core numbers used as indices are natural numbers. Where the source indexes the
  cores (\<^verbatim>\<open>self.cpus[cpu]\<close>) it panics outside of them; the model is used with core numbers below the
  number of cores, which every reachable state keeps (\<open>gic_ok\<close>).
\<close>

unbundle bit_operations_syntax

subsection \<open>Constants\<close>

definition NUM_SPIS :: nat where "NUM_SPIS = 256"
definition NUM_INTIDS :: nat where "NUM_INTIDS = 32 + NUM_SPIS"
definition INTID_SPURIOUS :: u32 where "INTID_SPURIOUS = 1023"
definition PRI_BITS :: nat where "PRI_BITS = 5"
definition PRI_MASK :: u8 where "PRI_MASK = ucast (drop_bit PRI_BITS (0xFF00 :: u16))"
definition MIN_BPR1 :: u8 where "MIN_BPR1 = of_nat (8 - PRI_BITS)"

definition GICD_BASE :: u64 where "GICD_BASE = 0x08000000"
definition GICD_SIZE :: u64 where [simp]: "GICD_SIZE = 0x10000"
definition GICR_BASE :: u64 where "GICR_BASE = 0x080A0000"
definition GICR_SIZE_PER_CPU :: u64 where [simp]: "GICR_SIZE_PER_CPU = 0x20000"
definition SPI_BASE :: u32 where "SPI_BASE = 32"
definition GICR_OFFSET :: u64 where "GICR_OFFSET = GICR_BASE - GICD_BASE"

definition GICD_CTLR :: u64 where [simp]: "GICD_CTLR = 0x0000"
definition GICD_TYPER :: u64 where [simp]: "GICD_TYPER = 0x0004"
definition GICD_IIDR :: u64 where [simp]: "GICD_IIDR = 0x0008"
definition GICD_TYPER2 :: u64 where [simp]: "GICD_TYPER2 = 0x000C"
definition GICD_IGROUPR :: u64 where [simp]: "GICD_IGROUPR = 0x0080"
definition GICD_ISENABLER :: u64 where [simp]: "GICD_ISENABLER = 0x0100"
definition GICD_ICENABLER :: u64 where [simp]: "GICD_ICENABLER = 0x0180"
definition GICD_ISPENDR :: u64 where [simp]: "GICD_ISPENDR = 0x0200"
definition GICD_ICPENDR :: u64 where [simp]: "GICD_ICPENDR = 0x0280"
definition GICD_ISACTIVER :: u64 where [simp]: "GICD_ISACTIVER = 0x0300"
definition GICD_ICACTIVER :: u64 where [simp]: "GICD_ICACTIVER = 0x0380"
definition GICD_IPRIORITYR :: u64 where [simp]: "GICD_IPRIORITYR = 0x0400"
definition GICD_ICFGR :: u64 where [simp]: "GICD_ICFGR = 0x0C00"
definition GICD_IGRPMODR :: u64 where [simp]: "GICD_IGRPMODR = 0x0D00"
definition GICD_IROUTER :: u64 where [simp]: "GICD_IROUTER = 0x6000"

definition GICD_CTLR_ENABLE_GRP0 :: u32 where "GICD_CTLR_ENABLE_GRP0 = push_bit 0 1"
definition GICD_CTLR_ENABLE_GRP1 :: u32 where "GICD_CTLR_ENABLE_GRP1 = push_bit 1 1"
definition GICD_CTLR_ARE :: u32 where "GICD_CTLR_ARE = push_bit 4 1"
definition GICD_CTLR_DS :: u32 where "GICD_CTLR_DS = push_bit 6 1"

definition GICR_IIDR :: u64 where [simp]: "GICR_IIDR = 0x0004"
definition GICR_TYPER :: u64 where [simp]: "GICR_TYPER = 0x0008"
definition GICR_WAKER :: u64 where [simp]: "GICR_WAKER = 0x0014"
definition GICR_WAKER_PROCESSOR_SLEEP :: u32 where "GICR_WAKER_PROCESSOR_SLEEP = push_bit 1 1"
definition GICR_WAKER_CHILDREN_ASLEEP :: u32 where "GICR_WAKER_CHILDREN_ASLEEP = push_bit 2 1"
definition GICR_SGI_BASE :: u64 where [simp]: "GICR_SGI_BASE = 0x10000"
definition GICR_IGROUPR0 :: u64 where [simp]: "GICR_IGROUPR0 = 0x0080"
definition GICR_ISENABLER0 :: u64 where [simp]: "GICR_ISENABLER0 = 0x0100"
definition GICR_ICENABLER0 :: u64 where [simp]: "GICR_ICENABLER0 = 0x0180"
definition GICR_ISPENDR0 :: u64 where [simp]: "GICR_ISPENDR0 = 0x0200"
definition GICR_ICPENDR0 :: u64 where [simp]: "GICR_ICPENDR0 = 0x0280"
definition GICR_ISACTIVER0 :: u64 where [simp]: "GICR_ISACTIVER0 = 0x0300"
definition GICR_ICACTIVER0 :: u64 where [simp]: "GICR_ICACTIVER0 = 0x0380"
definition GICR_IPRIORITYR :: u64 where [simp]: "GICR_IPRIORITYR = 0x0400"
definition GICR_ICFGR0 :: u64 where [simp]: "GICR_ICFGR0 = 0x0C00"
definition GICR_ICFGR1 :: u64 where [simp]: "GICR_ICFGR1 = 0x0C04"

definition GIC_IIDR :: u32 where "GIC_IIDR = 0x43B"
definition GICD_IDS :: "u8 list" where
  "GICD_IDS = [0x44, 0x00, 0x00, 0x00, 0x92, 0xB4, 0x3B, 0x00, 0x0D, 0xF0, 0x05, 0xB1]"
definition GICR_IDS :: "u8 list" where
  "GICR_IDS = [0x44, 0x00, 0x00, 0x00, 0x93, 0xB4, 0x3B, 0x00, 0x0D, 0xF0, 0x05, 0xB1]"

definition ICC_CTLR_EOIMODE :: u64 where "ICC_CTLR_EOIMODE = push_bit 1 1"
definition ICC_CTLR_PRIBITS :: u64 where "ICC_CTLR_PRIBITS = push_bit 8 (of_nat (PRI_BITS - 1))"
definition ICC_CTLR_A3V :: u64 where "ICC_CTLR_A3V = push_bit 15 1"

subsection \<open>State\<close>

record irq =
  i_enabled :: bool
  i_pending :: bool
  i_level :: bool
  i_active :: bool
  i_group1 :: bool
  i_edge :: bool
  i_priority :: u8
  i_router :: u64

definition irq_default :: irq where
  "irq_default = \<lparr>i_enabled = False, i_pending = False, i_level = False, i_active = False, i_group1 = False,
    i_edge = False, i_priority = 0, i_router = 0\<rparr>"

definition is_pending :: "irq \<Rightarrow> bool" where
  "is_pending i \<longleftrightarrow> i_pending i \<or> \<not> i_edge i \<and> i_level i"

datatype bit_op = OpGroup | SetEnable | ClearEnable | SetPending | ClearPending | SetActive | ClearActive

record cpuif =
  c_processor_sleep :: bool
  c_pmr :: u8
  c_bpr1 :: u8
  c_igrpen1 :: bool
  c_eoimode :: bool
  c_active_prio :: "(u32 \<times> u8) list"

definition cpuif_new :: cpuif where
  "cpuif_new = \<lparr>c_processor_sleep = True, c_pmr = 0, c_bpr1 = MIN_BPR1, c_igrpen1 = False,
    c_eoimode = False, c_active_prio = []\<rparr>"

definition group_prio :: "u8 \<Rightarrow> cpuif \<Rightarrow> u8" where
  "group_prio prio c = prio AND push_bit (unat (c_bpr1 c)) 0xFF"

definition running :: "cpuif \<Rightarrow> u16" where
  "running c = (if c_active_prio c = [] then 0x100 else ucast (snd (last (c_active_prio c))))"

definition private_irqs :: "irq list" where
  "private_irqs = replicate 16 (irq_default\<lparr>i_edge := True\<rparr>) @ replicate 16 irq_default"

definition cpu_affinity :: "nat \<Rightarrow> u64" where
  "cpu_affinity cpu = push_bit 8 (of_nat (cpu div 16)) OR of_nat (cpu mod 16)"

definition router_affinity :: "u64 \<Rightarrow> u64" where
  "router_affinity aff = aff AND 0xFF00FFFFFF"

record gic =
  gic_irqs :: "irq list"
  gic_banked :: "irq list list"
  gicd_ctlr :: u32
  gic_cpus :: "cpuif list"
  gic_cur :: nat

definition gic_with_cpus :: "nat \<Rightarrow> gic option" where
  "gic_with_cpus n =
    (if 1 \<le> n \<and> n \<le> 16
     then Some \<lparr>gic_irqs = private_irqs @ replicate (NUM_INTIDS - 32) irq_default,
       gic_banked = replicate (n - 1) private_irqs, gicd_ctlr = 0, gic_cpus = replicate n cpuif_new,
       gic_cur = 0\<rparr>
     else None)"

definition gic_mmio_size :: "nat \<Rightarrow> u64" where
  "gic_mmio_size n = GICR_BASE + of_nat n * GICR_SIZE_PER_CPU - GICD_BASE"

definition set_current :: "nat \<Rightarrow> gic \<Rightarrow> gic option" where
  "set_current cpu g = (if cpu < length (gic_cpus g) then Some (g\<lparr>gic_cur := cpu\<rparr>) else None)"

definition gic_irq :: "nat \<Rightarrow> nat \<Rightarrow> gic \<Rightarrow> irq option" where
  "gic_irq cpu intid g =
    (if intid < 32 \<and> 0 < cpu
     then if cpu - 1 < length (gic_banked g) then Some (gic_banked g ! (cpu - 1) ! intid) else None
     else if intid < length (gic_irqs g) then Some (gic_irqs g ! intid) else None)"

definition gic_irq_mut :: "nat \<Rightarrow> nat \<Rightarrow> (irq \<Rightarrow> irq) \<Rightarrow> gic \<Rightarrow> gic" where
  "gic_irq_mut cpu intid f g =
    (if intid < 32 \<and> 0 < cpu
     then g\<lparr>gic_banked := (gic_banked g)[cpu - 1 :=
       (gic_banked g ! (cpu - 1))[intid := f (gic_banked g ! (cpu - 1) ! intid)]]\<rparr>
     else g\<lparr>gic_irqs := (gic_irqs g)[intid := f (gic_irqs g ! intid)]\<rparr>)"

definition gic_cpu_mut :: "nat \<Rightarrow> (cpuif \<Rightarrow> cpuif) \<Rightarrow> gic \<Rightarrow> gic" where
  "gic_cpu_mut cpu f g = g\<lparr>gic_cpus := (gic_cpus g)[cpu := f (gic_cpus g ! cpu)]\<rparr>"

abbreviation cur_cpu :: "gic \<Rightarrow> cpuif" where
  "cur_cpu g \<equiv> gic_cpus g ! gic_cur g"

subsection \<open>Input lines and software interrupts\<close>

definition set_private_level :: "nat \<Rightarrow> u32 \<Rightarrow> bool \<Rightarrow> gic \<Rightarrow> gic" where
  "set_private_level cpu intid level g =
    (if gic_irq cpu (unat intid) g = None \<or> intid < 16 then g
     else gic_irq_mut cpu (unat intid)
       (\<lambda>i. (if i_edge i \<and> level \<and> \<not> i_level i then i\<lparr>i_pending := True\<rparr> else i)\<lparr>i_level := level\<rparr>) g)"

definition set_irq_level :: "u32 \<Rightarrow> bool \<Rightarrow> gic \<Rightarrow> gic" where
  "set_irq_level intid level = set_private_level 0 intid level"

definition set_spi_level :: "u32 \<Rightarrow> bool \<Rightarrow> gic \<Rightarrow> gic" where
  "set_spi_level spi level = set_irq_level (SPI_BASE + spi) level"

definition send_sgi_to :: "nat \<Rightarrow> u32 \<Rightarrow> gic \<Rightarrow> gic" where
  "send_sgi_to cpu intid g =
    (if intid < 16 \<and> gic_irq cpu (unat intid) g \<noteq> None
     then gic_irq_mut cpu (unat intid) (\<lambda>i. i\<lparr>i_pending := True\<rparr>) g else g)"

definition send_sgi :: "u32 \<Rightarrow> gic \<Rightarrow> gic" where
  "send_sgi intid = send_sgi_to 0 intid"

definition irq_state :: "u32 \<Rightarrow> gic \<Rightarrow> (bool \<times> bool \<times> bool) option" where
  "irq_state intid g = map_option (\<lambda>i. (i_enabled i, is_pending i, i_active i)) (gic_irq 0 (unat intid) g)"

subsection \<open>Selection\<close>

definition routed_to :: "nat \<Rightarrow> irq \<Rightarrow> bool" where
  "routed_to cpu i =
    (if i_router i AND push_bit 31 1 \<noteq> 0 then cpu = 0
     else router_affinity (i_router i) = router_affinity (cpu_affinity cpu))"

definition signalable :: "irq \<Rightarrow> bool" where
  "signalable i \<longleftrightarrow> i_enabled i \<and> is_pending i \<and> \<not> i_active i \<and> i_group1 i"

fun scan_best :: "(irq \<Rightarrow> bool) \<Rightarrow> nat \<Rightarrow> irq list \<Rightarrow> (u32 \<times> u8) option \<Rightarrow> (u32 \<times> u8) option" where
  "scan_best ok k [] best = best"
| "scan_best ok k (i # is) best =
    scan_best ok (Suc k) is
      (if ok i \<and> (case best of None \<Rightarrow> True | Some (_, p) \<Rightarrow> i_priority i < p)
       then Some (of_nat k, i_priority i) else best)"

definition highest_pending_of :: "nat \<Rightarrow> gic \<Rightarrow> (u32 \<times> u8) option" where
  "highest_pending_of cpu g =
    (if gicd_ctlr g AND GICD_CTLR_ENABLE_GRP1 = 0 then None
     else let priv = (if cpu = 0 then take 32 (gic_irqs g) else gic_banked g ! (cpu - 1));
              best = scan_best signalable 0 priv None
       in scan_best (\<lambda>i. signalable i \<and> routed_to cpu i) 32 (drop 32 (gic_irqs g)) best)"

definition highest_pending :: "gic \<Rightarrow> (u32 \<times> u8) option" where
  "highest_pending = highest_pending_of 0"

definition deliverable :: "nat \<Rightarrow> gic \<Rightarrow> (u32 \<times> u8) option" where
  "deliverable cpu g = (case highest_pending_of cpu g of
      None \<Rightarrow> None
    | Some (intid, prio) \<Rightarrow>
        let c = gic_cpus g ! cpu
        in if c_igrpen1 c \<and> prio < c_pmr c \<and> ucast (group_prio prio c) < running c
           then Some (intid, prio) else None)"

definition irq_line_of :: "nat \<Rightarrow> gic \<Rightarrow> bool" where
  "irq_line_of cpu g \<longleftrightarrow> deliverable cpu g \<noteq> None"

definition irq_line :: "gic \<Rightarrow> bool" where
  "irq_line g \<longleftrightarrow> deliverable (gic_cur g) g \<noteq> None"

subsection \<open>CPU interface\<close>

definition read_iar1 :: "gic \<Rightarrow> u64 \<times> gic" where
  "read_iar1 g = (let cpu = gic_cur g in
    case deliverable cpu g of
      None \<Rightarrow> (ucast INTID_SPURIOUS, g)
    | Some (intid, prio) \<Rightarrow>
        let gp = group_prio prio (gic_cpus g ! cpu);
            g = gic_irq_mut cpu (unat intid) (\<lambda>i. i\<lparr>i_active := True, i_pending := False\<rparr>) g
        in (ucast intid, gic_cpu_mut cpu (\<lambda>c. c\<lparr>c_active_prio := c_active_prio c @ [(intid, gp)]\<rparr>) g))"

definition read_hppir1 :: "gic \<Rightarrow> u64" where
  "read_hppir1 g = ucast (case highest_pending_of (gic_cur g) g of None \<Rightarrow> INTID_SPURIOUS | Some (i, _) \<Rightarrow> i)"

definition deactivate :: "u32 \<Rightarrow> gic \<Rightarrow> gic" where
  "deactivate intid g =
    (if gic_irq (gic_cur g) (unat intid) g = None then g
     else gic_irq_mut (gic_cur g) (unat intid) (\<lambda>i. i\<lparr>i_active := False\<rparr>) g)"

definition write_eoir1 :: "u64 \<Rightarrow> gic \<Rightarrow> gic" where
  "write_eoir1 v g = (let intid = ucast (v AND 0xFFFFFF) :: u32 in
    if 1020 \<le> intid \<and> intid < 1024 then g
    else let g = gic_cpu_mut (gic_cur g) (\<lambda>c. c\<lparr>c_active_prio := butlast (c_active_prio c)\<rparr>) g
      in if \<not> c_eoimode (cur_cpu g) then deactivate intid g else g)"

definition write_dir :: "u64 \<Rightarrow> gic \<Rightarrow> gic" where
  "write_dir v g = deactivate (ucast (v AND 0xFFFFFF)) g"

definition sgi_hit :: "u64 \<Rightarrow> nat \<Rightarrow> nat \<Rightarrow> bool" where
  "sgi_hit v cur cpu =
    (let irm = v AND push_bit 40 1 \<noteq> 0;
         targets = v AND 0xFFFF;
         rs = drop_bit 44 v AND 0xF;
         cluster = push_bit 32 (drop_bit 48 v AND 0xFF) OR push_bit 16 (drop_bit 32 v AND 0xFF)
           OR push_bit 8 (drop_bit 16 v AND 0xFF);
         aff = cpu_affinity cpu
     in if irm then cpu \<noteq> cur
        else let aff0 = aff AND 0xFF
          in aff AND NOT 0xFF = cluster \<and> drop_bit 4 aff0 = rs \<and> targets AND push_bit (unat (aff0 AND 0xF)) 1 \<noteq> 0)"

definition write_sgi1r :: "u64 \<Rightarrow> gic \<Rightarrow> gic" where
  "write_sgi1r v g =
    (let intid = ucast (drop_bit 24 v AND 0xF) :: u32
     in fold (\<lambda>cpu g. if sgi_hit v (gic_cur g) cpu then send_sgi_to cpu intid g else g) [0..<length (gic_cpus g)] g)"

definition read_pmr :: "gic \<Rightarrow> u64" where
  "read_pmr g = ucast (c_pmr (cur_cpu g))"
definition write_pmr :: "u64 \<Rightarrow> gic \<Rightarrow> gic" where
  "write_pmr v g = gic_cpu_mut (gic_cur g) (\<lambda>c. c\<lparr>c_pmr := ucast v AND PRI_MASK\<rparr>) g"
definition read_bpr1 :: "gic \<Rightarrow> u64" where
  "read_bpr1 g = ucast (c_bpr1 (cur_cpu g))"
definition write_bpr1 :: "u64 \<Rightarrow> gic \<Rightarrow> gic" where
  "write_bpr1 v g = gic_cpu_mut (gic_cur g) (\<lambda>c. c\<lparr>c_bpr1 := max (ucast v AND 7) MIN_BPR1\<rparr>) g"
definition read_rpr :: "gic \<Rightarrow> u64" where
  "read_rpr g = ucast (min (running (cur_cpu g)) 0xFF)"
definition icc_read_ctlr :: "gic \<Rightarrow> u64" where
  "icc_read_ctlr g = ICC_CTLR_A3V OR ICC_CTLR_PRIBITS OR (if c_eoimode (cur_cpu g) then ICC_CTLR_EOIMODE else 0)"
definition icc_write_ctlr :: "u64 \<Rightarrow> gic \<Rightarrow> gic" where
  "icc_write_ctlr v g = gic_cpu_mut (gic_cur g) (\<lambda>c. c\<lparr>c_eoimode := v AND ICC_CTLR_EOIMODE \<noteq> 0\<rparr>) g"
definition read_igrpen1 :: "gic \<Rightarrow> u64" where
  "read_igrpen1 g = (if c_igrpen1 (cur_cpu g) then 1 else 0)"
definition write_igrpen1 :: "u64 \<Rightarrow> gic \<Rightarrow> gic" where
  "write_igrpen1 v g = gic_cpu_mut (gic_cur g) (\<lambda>c. c\<lparr>c_igrpen1 := v AND 1 \<noteq> 0\<rparr>) g"
definition read_sre :: "gic \<Rightarrow> u64" where
  "read_sre g = 0x7"
definition write_sre :: "u64 \<Rightarrow> gic \<Rightarrow> gic" where
  "write_sre v g = g"
definition read_ap1r0 :: "gic \<Rightarrow> u64" where
  "read_ap1r0 g = fold (\<lambda>(_, p) acc. acc OR push_bit (unat (drop_bit 3 p)) 1) (c_active_prio (cur_cpu g)) 0"
definition ap1r0_stack :: "u64 \<Rightarrow> (u32 \<times> u8) list" where
  "ap1r0_stack v =
    map (\<lambda>b. (INTID_SPURIOUS, of_nat (b * 8))) (filter (\<lambda>b. v AND push_bit b 1 \<noteq> 0) (rev [0..<32]))"
definition write_ap1r0 :: "u64 \<Rightarrow> gic \<Rightarrow> gic" where
  "write_ap1r0 v g = gic_cpu_mut (gic_cur g) (\<lambda>c. c\<lparr>c_active_prio := ap1r0_stack v\<rparr>) g"

subsection \<open>Bitmap, priority and configuration registers\<close>

definition bit_sel :: "bit_op \<Rightarrow> irq \<Rightarrow> bool" where
  "bit_sel op i = (case op of
      OpGroup \<Rightarrow> i_group1 i
    | SetEnable \<Rightarrow> i_enabled i | ClearEnable \<Rightarrow> i_enabled i
    | SetPending \<Rightarrow> is_pending i | ClearPending \<Rightarrow> is_pending i
    | SetActive \<Rightarrow> i_active i | ClearActive \<Rightarrow> i_active i)"

fun read_bits_loop :: "nat \<Rightarrow> nat \<Rightarrow> bit_op \<Rightarrow> gic \<Rightarrow> nat list \<Rightarrow> u32 \<Rightarrow> u32" where
  "read_bits_loop cpu w op g [] v = v"
| "read_bits_loop cpu w op g (b # bs) v = (case gic_irq cpu (w * 32 + b) g of
      None \<Rightarrow> v
    | Some i \<Rightarrow> read_bits_loop cpu w op g bs (v OR push_bit b (if bit_sel op i then 1 else 0)))"

definition read_bits :: "nat \<Rightarrow> nat \<Rightarrow> bit_op \<Rightarrow> gic \<Rightarrow> u32" where
  "read_bits cpu w op g = read_bits_loop cpu w op g [0..<32] 0"

definition bit_write :: "bit_op \<Rightarrow> bool \<Rightarrow> irq \<Rightarrow> irq" where
  "bit_write op one i = (case op of
      OpGroup \<Rightarrow> i\<lparr>i_group1 := one\<rparr>
    | _ \<Rightarrow> if \<not> one then i else (case op of
          SetEnable \<Rightarrow> i\<lparr>i_enabled := True\<rparr>
        | ClearEnable \<Rightarrow> i\<lparr>i_enabled := False\<rparr>
        | SetPending \<Rightarrow> i\<lparr>i_pending := True\<rparr>
        | ClearPending \<Rightarrow> i\<lparr>i_pending := False\<rparr>
        | SetActive \<Rightarrow> i\<lparr>i_active := True\<rparr>
        | ClearActive \<Rightarrow> i\<lparr>i_active := False\<rparr>
        | OpGroup \<Rightarrow> i))"

fun write_bits_loop :: "nat \<Rightarrow> nat \<Rightarrow> bit_op \<Rightarrow> u32 \<Rightarrow> nat list \<Rightarrow> gic \<Rightarrow> gic" where
  "write_bits_loop cpu w op v [] g = g"
| "write_bits_loop cpu w op v (b # bs) g =
    (if gic_irq cpu (w * 32 + b) g = None then g
     else write_bits_loop cpu w op v bs
       (gic_irq_mut cpu (w * 32 + b) (bit_write op (v AND push_bit b 1 \<noteq> 0)) g))"

definition write_bits :: "nat \<Rightarrow> nat \<Rightarrow> bit_op \<Rightarrow> u32 \<Rightarrow> gic \<Rightarrow> gic" where
  "write_bits cpu w op v g = write_bits_loop cpu w op v [0..<32] g"

definition bit_op_of :: "u64 \<Rightarrow> bit_op option" where
  "bit_op_of reg = (let r = reg AND NOT 0x7F in
     if r = GICD_IGROUPR then Some OpGroup
     else if r = GICD_ISENABLER then Some SetEnable
     else if r = GICD_ICENABLER then Some ClearEnable
     else if r = GICD_ISPENDR then Some SetPending
     else if r = GICD_ICPENDR then Some ClearPending
     else if r = GICD_ISACTIVER then Some SetActive
     else if r = GICD_ICACTIVER then Some ClearActive
     else None)"

definition read_prio :: "nat \<Rightarrow> nat \<Rightarrow> u8 \<Rightarrow> gic \<Rightarrow> u64" where
  "read_prio cpu fst_id sz g =
    fold (\<lambda>i acc. acc OR push_bit (8 * i) (case gic_irq cpu (fst_id + i) g of None \<Rightarrow> 0 | Some q \<Rightarrow> ucast (i_priority q)))
      [0..<unat sz] 0"

definition write_prio :: "nat \<Rightarrow> nat \<Rightarrow> u8 \<Rightarrow> u64 \<Rightarrow> gic \<Rightarrow> gic" where
  "write_prio cpu fst_id sz v g =
    fold (\<lambda>i g. if gic_irq cpu (fst_id + i) g = None then g
        else gic_irq_mut cpu (fst_id + i) (\<lambda>q. q\<lparr>i_priority := ucast (drop_bit (8 * i) v)\<rparr>) g)
      [0..<unat sz] g"

fun read_cfg_loop :: "nat \<Rightarrow> nat \<Rightarrow> gic \<Rightarrow> nat list \<Rightarrow> u32 \<Rightarrow> u32" where
  "read_cfg_loop cpu w g [] v = v"
| "read_cfg_loop cpu w g (i # is) v = (case gic_irq cpu (w * 16 + i) g of
      None \<Rightarrow> v
    | Some q \<Rightarrow> read_cfg_loop cpu w g is (v OR push_bit (2 * i + 1) (if i_edge q then 1 else 0)))"

definition read_cfg :: "nat \<Rightarrow> nat \<Rightarrow> gic \<Rightarrow> u32" where
  "read_cfg cpu w g = read_cfg_loop cpu w g [0..<16] 0"

fun write_cfg_loop :: "nat \<Rightarrow> nat \<Rightarrow> u32 \<Rightarrow> nat list \<Rightarrow> gic \<Rightarrow> gic" where
  "write_cfg_loop cpu w v [] g = g"
| "write_cfg_loop cpu w v (i # is) g =
    (if gic_irq cpu (w * 16 + i) g = None then g
     else write_cfg_loop cpu w v is
       (gic_irq_mut cpu (w * 16 + i) (\<lambda>q. q\<lparr>i_edge := v AND push_bit (2 * i + 1) 1 \<noteq> 0\<rparr>) g))"

definition write_cfg :: "nat \<Rightarrow> nat \<Rightarrow> u32 \<Rightarrow> gic \<Rightarrow> gic" where
  "write_cfg cpu w v g = write_cfg_loop cpu w v [0..<16] g"

subsection \<open>Distributor\<close>

definition gic_words :: u64 where "gic_words = of_nat NUM_INTIDS div 32"

definition dist_read :: "u64 \<Rightarrow> u8 \<Rightarrow> gic \<Rightarrow> u64" where
  "dist_read offset sz g =
    (if GICD_IPRIORITYR \<le> offset \<and> offset < 0x0800 \<and> sz \<in> {1, 2, 4} \<and> GICD_IPRIORITYR + 32 \<le> offset
     then read_prio 0 (unat (offset - GICD_IPRIORITYR)) sz g
     else if GICD_IROUTER \<le> offset \<and> offset < 0x8000 \<and> sz \<in> {4, 8} \<and> GICD_IROUTER + 32 * 8 \<le> offset
     then let n = unat ((offset - GICD_IROUTER) div 8);
              r = (if n < length (gic_irqs g) then i_router (gic_irqs g ! n) else 0)
       in if sz = 8 then r else drop_bit (unat ((offset AND 4) * 8)) r AND 0xFFFFFFFF
     else if sz = 4 \<and> offset AND 3 = 0
     then ucast (
       if offset = GICD_CTLR then gicd_ctlr g OR GICD_CTLR_ARE OR GICD_CTLR_DS
       else if offset = GICD_TYPER
       then (ucast gic_words - 1) OR push_bit 5 (min (of_nat (length (gic_cpus g)) - 1) 7) OR push_bit 19 9
       else if offset = GICD_IIDR then GIC_IIDR
       else if offset = GICD_TYPER2 then 0
       else if 0x0080 \<le> offset \<and> offset < 0x0400
       then let n = (offset AND 0x7F) div 4
         in (case bit_op_of offset of
               Some op \<Rightarrow> if 1 \<le> n \<and> n < gic_words then read_bits 0 (unat n) op g else 0
             | None \<Rightarrow> 0)
       else if GICD_ICFGR \<le> offset \<and> offset < GICD_IGRPMODR
       then let n = (offset - GICD_ICFGR) div 4
         in if 2 \<le> n \<and> n < gic_words * 2 then read_cfg 0 (unat n) g else 0
       else if 0xFFD0 \<le> offset \<and> offset \<le> 0xFFFC then ucast (GICD_IDS ! unat ((offset - 0xFFD0) div 4))
       else 0 :: u32)
     else 0)"

definition dist_write :: "u64 \<Rightarrow> u8 \<Rightarrow> u64 \<Rightarrow> gic \<Rightarrow> gic" where
  "dist_write offset sz v g =
    (if GICD_IPRIORITYR \<le> offset \<and> offset < 0x0800 \<and> sz \<in> {1, 2, 4} \<and> GICD_IPRIORITYR + 32 \<le> offset
     then write_prio 0 (unat (offset - GICD_IPRIORITYR)) sz v g
     else if GICD_IROUTER \<le> offset \<and> offset < 0x8000 \<and> sz \<in> {4, 8} \<and> GICD_IROUTER + 32 * 8 \<le> offset
     then let n = unat ((offset - GICD_IROUTER) div 8)
       in if n < length (gic_irqs g)
          then let old = i_router (gic_irqs g ! n);
                   r = (if sz = 8 then v
                     else if offset AND 4 = 0 then (old AND NOT 0xFFFFFFFF) OR v
                     else (old AND 0xFFFFFFFF) OR push_bit 32 v)
            in g\<lparr>gic_irqs := (gic_irqs g)[n := (gic_irqs g ! n)\<lparr>i_router := r AND 0xFF80FFFFFF\<rparr>]\<rparr>
          else g
     else if sz = 4 \<and> offset AND 3 = 0
     then let v = ucast v :: u32
       in if offset = GICD_CTLR then g\<lparr>gicd_ctlr := v AND (GICD_CTLR_ENABLE_GRP0 OR GICD_CTLR_ENABLE_GRP1)\<rparr>
          else if 0x0080 \<le> offset \<and> offset < 0x0400
          then let n = (offset AND 0x7F) div 4
            in (case bit_op_of offset of
                  Some op \<Rightarrow> if 1 \<le> n \<and> n < gic_words then write_bits 0 (unat n) op v g else g
                | None \<Rightarrow> g)
          else if GICD_ICFGR \<le> offset \<and> offset < GICD_IGRPMODR
          then let n = (offset - GICD_ICFGR) div 4
            in if 2 \<le> n \<and> n < gic_words * 2 then write_cfg 0 (unat n) v g else g
          else g
     else g)"

subsection \<open>Redistributors\<close>

definition sgi_frame_bits :: "u64 set" where
  "sgi_frame_bits = {GICR_IGROUPR0, GICR_ISENABLER0, GICR_ICENABLER0, GICR_ISPENDR0, GICR_ICPENDR0,
    GICR_ISACTIVER0, GICR_ICACTIVER0}"

definition redist_typer :: "nat \<Rightarrow> gic \<Rightarrow> u64" where
  "redist_typer cpu g = push_bit 32 (cpu_affinity cpu) OR push_bit 8 (of_nat cpu)
    OR push_bit 4 (if cpu + 1 = length (gic_cpus g) then 1 else 0)"

definition redist_read :: "u64 \<Rightarrow> u8 \<Rightarrow> gic \<Rightarrow> u64" where
  "redist_read offset sz g =
    (let cpu = unat (offset div GICR_SIZE_PER_CPU); offset = offset mod GICR_SIZE_PER_CPU
     in if length (gic_cpus g) \<le> cpu then 0
        else if GICR_SGI_BASE \<le> offset
        then let off = offset - GICR_SGI_BASE
          in if GICR_IPRIORITYR \<le> off \<and> off < 0x0420 \<and> sz \<in> {1, 2, 4}
             then read_prio cpu (unat (off - GICR_IPRIORITYR)) sz g
             else if sz = 4
             then ucast (if off \<in> sgi_frame_bits then read_bits cpu 0 (the (bit_op_of off)) g
                    else if off = GICR_ICFGR0 then read_cfg cpu 0 g
                    else if off = GICR_ICFGR1 then read_cfg cpu 1 g
                    else 0)
             else 0
        else let typer = redist_typer cpu g
          in if offset = GICR_TYPER \<and> sz = 8 then typer
             else if sz = 4
             then ucast (if offset = GICR_IIDR then GIC_IIDR
                    else if offset = GICR_TYPER then ucast typer
                    else if offset = GICR_TYPER + 4 then ucast (drop_bit 32 typer)
                    else if offset = GICR_WAKER
                    then if c_processor_sleep (gic_cpus g ! cpu)
                      then GICR_WAKER_PROCESSOR_SLEEP OR GICR_WAKER_CHILDREN_ASLEEP else 0
                    else if 0xFFD0 \<le> offset \<and> offset \<le> 0xFFFC
                    then ucast (GICR_IDS ! unat ((offset - 0xFFD0) div 4))
                    else 0 :: u32)
             else 0)"

definition redist_write :: "u64 \<Rightarrow> u8 \<Rightarrow> u64 \<Rightarrow> gic \<Rightarrow> gic" where
  "redist_write offset sz v g =
    (let cpu = unat (offset div GICR_SIZE_PER_CPU); offset = offset mod GICR_SIZE_PER_CPU
     in if length (gic_cpus g) \<le> cpu then g
        else if GICR_SGI_BASE \<le> offset
        then let off = offset - GICR_SGI_BASE
          in if GICR_IPRIORITYR \<le> off \<and> off < 0x0420 \<and> sz \<in> {1, 2, 4}
             then write_prio cpu (unat (off - GICR_IPRIORITYR)) sz v g
             else if off \<in> sgi_frame_bits \<and> sz = 4 then write_bits cpu 0 (the (bit_op_of off)) (ucast v) g
             else if off = GICR_ICFGR1 \<and> sz = 4 then write_cfg cpu 1 (ucast v) g
             else g
        else if offset = GICR_WAKER \<and> sz = 4
        then gic_cpu_mut cpu (\<lambda>c. c\<lparr>c_processor_sleep := (ucast v :: u32) AND GICR_WAKER_PROCESSOR_SLEEP \<noteq> 0\<rparr>) g
        else g)"

definition gic_read :: "u64 \<Rightarrow> u8 \<Rightarrow> gic \<Rightarrow> u64 \<times> gic" where
  "gic_read offset sz g =
    (if offset < GICD_SIZE then (dist_read offset sz g, g)
     else if GICR_OFFSET \<le> offset \<and> offset < gic_mmio_size (length (gic_cpus g))
     then (redist_read (offset - GICR_OFFSET) sz g, g)
     else (0, g))"

definition gic_write :: "u64 \<Rightarrow> u8 \<Rightarrow> u64 \<Rightarrow> gic \<Rightarrow> gic" where
  "gic_write offset sz v g =
    (if offset < GICD_SIZE then dist_write offset sz v g
     else if GICR_OFFSET \<le> offset \<and> offset < gic_mmio_size (length (gic_cpus g))
     then redist_write (offset - GICR_OFFSET) sz v g
     else g)"

subsection \<open>Snapshot\<close>

fun hex :: "nat \<Rightarrow> string" where
  "hex n = (if n < 16 then [''0123456789abcdef'' ! n] else hex (n div 16) @ [''0123456789abcdef'' ! (n mod 16)])"

declare hex.simps [simp del]

definition save_irq :: "irq \<Rightarrow> writer \<Rightarrow> writer" where
  "save_irq i w =
    (let flags = of_bool (i_enabled i) OR push_bit 1 (of_bool (i_pending i)) OR push_bit 2 (of_bool (i_level i))
       OR push_bit 3 (of_bool (i_active i)) OR push_bit 4 (of_bool (i_group1 i)) OR push_bit 5 (of_bool (i_edge i))
     in w_u64 (i_router i) (w_u8 (i_priority i) (w_u8 flags w)))"

definition restore_irq :: "irq read" where
  "restore_irq r = rbind (r_u8 r) (\<lambda>(f, r).
    if drop_bit 6 f \<noteq> 0 then Inl (Invalid (''interrupt state 0x'' @ hex (unat f)))
    else rbind (r_u8 r) (\<lambda>(prio, r). rbind (r_u64 r) (\<lambda>(router, r).
      Inr (\<lparr>i_enabled = (f AND 1 \<noteq> 0), i_pending = (f AND 2 \<noteq> 0), i_level = (f AND 4 \<noteq> 0), i_active = (f AND 8 \<noteq> 0),
        i_group1 = (f AND 16 \<noteq> 0), i_edge = (f AND 32 \<noteq> 0), i_priority = prio, i_router = router\<rparr>, r))))"

definition save_prio :: "u32 \<times> u8 \<Rightarrow> writer \<Rightarrow> writer" where
  "save_prio p w = w_u8 (snd p) (w_u32 (fst p) w)"

definition restore_prio :: "(u32 \<times> u8) read" where
  "restore_prio r = rbind (r_u32 r) (\<lambda>(i, r). rbind (r_u8 r) (\<lambda>(p, r). Inr ((i, p), r)))"

definition save_cpuif :: "cpuif \<Rightarrow> bool \<Rightarrow> writer \<Rightarrow> writer" where
  "save_cpuif c with_sleep w =
    w_seq save_prio (c_active_prio c) (w_bool (c_eoimode c) (w_bool (c_igrpen1 c) (w_u8 (c_bpr1 c) (w_u8 (c_pmr c)
      (if with_sleep then w_bool (c_processor_sleep c) w else w)))))"

definition restore_cpuif :: "cpuif \<Rightarrow> bool \<Rightarrow> cpuif read" where
  "restore_cpuif c with_sleep r =
    rbind (if with_sleep then r_bool r else Inr (c_processor_sleep c, r)) (\<lambda>(sleep, r).
    rbind (r_u8 r) (\<lambda>(pmr, r). rbind (r_u8 r) (\<lambda>(bpr1, r). rbind (r_bool r) (\<lambda>(igrpen1, r).
    rbind (r_bool r) (\<lambda>(eoimode, r). rbind (r_seq 5 restore_prio r) (\<lambda>(stack, r).
      Inr (\<lparr>c_processor_sleep = sleep, c_pmr = pmr, c_bpr1 = bpr1, c_igrpen1 = igrpen1, c_eoimode = eoimode,
        c_active_prio = stack\<rparr>, r)))))))"

definition save_bank :: "irq list \<times> cpuif \<Rightarrow> writer \<Rightarrow> writer" where
  "save_bank bc w = save_cpuif (snd bc) True (fold save_irq (fst bc) w)"

definition gic_save :: "gic \<Rightarrow> writer \<Rightarrow> writer" where
  "gic_save g w =
    (let c0 = gic_cpus g ! 0;
         w = fold save_irq (gic_irqs g) (w_len_of (length (gic_irqs g)) w);
         w = save_cpuif c0 False (w_bool (c_processor_sleep c0) (w_u32 (gicd_ctlr g) w))
     in fold save_bank (zip (gic_banked g) (drop 1 (gic_cpus g))) w)"

fun restore_banks :: "(irq list \<times> cpuif) list \<Rightarrow> (irq list \<times> cpuif) list read" where
  "restore_banks [] r = Inr ([], r)"
| "restore_banks ((b, c) # bs) r = rbind (r_times (length b) restore_irq r) (\<lambda>(b', r).
    rbind (restore_cpuif c True r) (\<lambda>(c', r).
    rbind (restore_banks bs r) (\<lambda>(bs', r). Inr ((b', c') # bs', r))))"

definition gic_restore :: "gic \<Rightarrow> reader \<Rightarrow> snap_error + gic \<times> reader" where
  "gic_restore g r =
    rbind (expect_u64 ''GIC INTIDs'' (of_nat (length (gic_irqs g))) r) (\<lambda>(_, r).
    rbind (r_times (length (gic_irqs g)) restore_irq r) (\<lambda>(irqs, r).
    rbind (r_u32 r) (\<lambda>(ctlr, r). rbind (r_bool r) (\<lambda>(sleep, r).
    rbind (restore_cpuif ((gic_cpus g ! 0)\<lparr>c_processor_sleep := sleep\<rparr>) False r) (\<lambda>(c0, r).
    rbind (restore_banks (zip (gic_banked g) (drop 1 (gic_cpus g))) r) (\<lambda>(bs, r).
      Inr (g\<lparr>gic_irqs := irqs, gicd_ctlr := ctlr,
        gic_cpus := c0 # map snd bs @ drop (length bs) (drop 1 (gic_cpus g)),
        gic_banked := map fst bs @ drop (length bs) (gic_banked g)\<rparr>, r)))))))"

subsection \<open>The interrupts of a controller\<close>

text \<open>
  The shape every reachable controller has: all INTIDs, one bank per core after the first, a
  binary point in its range, and active priorities that are group priorities, each higher than
  the one it preempted.
\<close>

definition cpuif_ok :: "cpuif \<Rightarrow> bool" where
  "cpuif_ok c \<longleftrightarrow> 3 \<le> c_bpr1 c \<and> c_bpr1 c \<le> 7 \<and>
    sorted_wrt (\<lambda>x y. snd y < snd x) (c_active_prio c) \<and> (\<forall>x \<in> set (c_active_prio c). 8 dvd unat (snd x))"

definition gic_ok :: "gic \<Rightarrow> bool" where
  "gic_ok g \<longleftrightarrow> length (gic_irqs g) = NUM_INTIDS \<and> length (gic_cpus g) = Suc (length (gic_banked g)) \<and>
    length (gic_cpus g) \<le> 16 \<and> (\<forall>b \<in> set (gic_banked g). length b = 32) \<and> gic_cur g < length (gic_cpus g) \<and>
    (\<forall>c \<in> set (gic_cpus g). cpuif_ok c)"

lemma NUM_INTIDS_simp [simp]: "NUM_INTIDS = 288"
  by (simp add: NUM_INTIDS_def NUM_SPIS_def)

lemma gic_irq_mut_fields [simp]:
  "gic_cpus (gic_irq_mut cpu i f g) = gic_cpus g" "gicd_ctlr (gic_irq_mut cpu i f g) = gicd_ctlr g"
  "gic_cur (gic_irq_mut cpu i f g) = gic_cur g" "length (gic_irqs (gic_irq_mut cpu i f g)) = length (gic_irqs g)"
  "length (gic_banked (gic_irq_mut cpu i f g)) = length (gic_banked g)"
  by (simp_all add: gic_irq_mut_def)

lemma gic_cpu_mut_fields [simp]:
  "gic_irqs (gic_cpu_mut cpu h g) = gic_irqs g" "gicd_ctlr (gic_cpu_mut cpu h g) = gicd_ctlr g"
  "gic_banked (gic_cpu_mut cpu h g) = gic_banked g" "gic_cur (gic_cpu_mut cpu h g) = gic_cur g"
  "length (gic_cpus (gic_cpu_mut cpu h g)) = length (gic_cpus g)"
  "gic_irq cpu' i (gic_cpu_mut cpu h g) = gic_irq cpu' i g"
  by (simp_all add: gic_cpu_mut_def gic_irq_def)

lemma gic_banked_mut:
  assumes "\<forall>b \<in> set (gic_banked g). length b = 32" "b \<in> set (gic_banked (gic_irq_mut cpu i f g))"
  shows "length b = 32"
proof -
  let ?b = "gic_banked g ! (cpu - 1)"
  have "b \<in> set (gic_banked g) \<or> (cpu - 1 < length (gic_banked g) \<and> b = ?b[i := f (?b ! i)])"
  proof (cases "cpu - 1 < length (gic_banked g)")
    case True
    then show ?thesis
      using assms(2) set_update_subset_insert [of "gic_banked g" "cpu - 1" "?b[i := f (?b ! i)]"]
      by (auto simp: gic_irq_mut_def split: if_splits)
  next
    case False
    then show ?thesis using assms(2) by (simp add: gic_irq_mut_def list_update_beyond split: if_splits)
  qed
  then show ?thesis using assms(1) by auto
qed

lemma gic_ok_irq_mut: "gic_ok g \<Longrightarrow> gic_ok (gic_irq_mut cpu i f g)"
  using gic_banked_mut [of g] by (simp add: gic_ok_def)

lemma gic_ok_cpu_mut:
  assumes "gic_ok g" "\<And>c. cpuif_ok c \<Longrightarrow> cpuif_ok (h c)"
  shows "gic_ok (gic_cpu_mut cpu h g)"
proof (cases "cpu < length (gic_cpus g)")
  case True
  then have "cpuif_ok (h (gic_cpus g ! cpu))" using assms by (auto simp: gic_ok_def)
  then have "\<forall>c \<in> set (gic_cpus (gic_cpu_mut cpu h g)). cpuif_ok c"
    using assms(1) set_update_subset_insert [of "gic_cpus g" cpu "h (gic_cpus g ! cpu)"]
    by (auto simp: gic_cpu_mut_def gic_ok_def)
  then show ?thesis using assms(1) by (simp add: gic_ok_def)
next
  case False
  then show ?thesis using assms(1) by (simp add: gic_ok_def gic_cpu_mut_def list_update_beyond)
qed

lemma gic_irq_Some:
  assumes "gic_ok g" "cpu < length (gic_cpus g)"
  shows "gic_irq cpu i g \<noteq> None \<longleftrightarrow> i < 288"
  using assms by (auto simp: gic_irq_def gic_ok_def)

lemma gic_irq_mut_get:
  assumes ok: "gic_ok g" and cpu: "cpu < length (gic_cpus g)" "cpu' < length (gic_cpus g)" and i: "i < 288"
  shows "gic_irq cpu' j (gic_irq_mut cpu i f g) =
    (if j = i \<and> (i < 32 \<longrightarrow> cpu' = cpu) then map_option f (gic_irq cpu' j g) else gic_irq cpu' j g)"
proof (cases "i < 32 \<and> 0 < cpu")
  case True
  have b: "cpu - 1 < length (gic_banked g)" "length (gic_banked g ! (cpu - 1)) = 32"
    using ok cpu True by (auto simp: gic_ok_def)
  show ?thesis
  proof (cases "j < 32 \<and> 0 < cpu'")
    case j: True
    have "cpu' - 1 < length (gic_banked g)" "(cpu - 1 = cpu' - 1) = (cpu = cpu')"
      using ok cpu j True by (auto simp: gic_ok_def)
    then show ?thesis
      using True j b by (auto simp: gic_irq_def gic_irq_mut_def nth_list_update)
  qed (use True in \<open>auto simp: gic_irq_def gic_irq_mut_def\<close>)
next
  case False
  then show ?thesis using i ok cpu by (auto simp: gic_irq_def gic_irq_mut_def nth_list_update gic_ok_def)
qed

subsection \<open>Every operation keeps the shape\<close>

lemma dvd8_iff: "8 dvd unat w \<longleftrightarrow> take_bit 3 w = 0" for w :: u8
proof -
  have "take_bit 3 w = 0 \<longleftrightarrow> unat (take_bit 3 w) = 0" by (simp add: unat_eq_zero)
  also have "\<dots> \<longleftrightarrow> unat w mod 8 = 0"
    unfolding unsigned_take_bit_eq by (simp add: take_bit_eq_mod)
  finally show ?thesis by (simp add: dvd_eq_mod_eq_0)
qed

lemma group_prio_dvd:
  assumes "cpuif_ok c"
  shows "8 dvd unat (group_prio prio c)"
proof -
  have "3 \<le> unat (c_bpr1 c)" using assms by (simp add: cpuif_ok_def word_le_nat_alt)
  then show ?thesis
    unfolding dvd8_iff group_prio_def by (intro bit_word_eqI) (auto simp: bit_simps)
qed

lemma cpuif_ok_new: "cpuif_ok cpuif_new"
  by (simp add: cpuif_ok_def cpuif_new_def MIN_BPR1_def PRI_BITS_def)

lemma gic_ok_new: "gic_with_cpus n = Some g \<Longrightarrow> gic_ok g"
  by (auto simp: gic_with_cpus_def gic_ok_def private_irqs_def cpuif_ok_new split: if_splits)

lemma cpuif_ok_push:
  assumes "cpuif_ok c" "ucast (group_prio prio c) < running c"
  shows "cpuif_ok (c\<lparr>c_active_prio := c_active_prio c @ [(i, group_prio prio c)]\<rparr>)"
proof -
  have "group_prio prio c < snd x" if "x \<in> set (c_active_prio c)" for x
  proof -
    have ne: "c_active_prio c \<noteq> []" using that by auto
    then have "group_prio prio c < snd (last (c_active_prio c))"
      using assms(2) by (simp add: running_def word_less_nat_alt unat_ucast_up)
    moreover have "snd (last (c_active_prio c)) \<le> snd x"
    proof -
      obtain ys y where ys: "c_active_prio c = ys @ [y]" using ne by (cases "c_active_prio c" rule: rev_cases) auto
      then have "\<forall>z \<in> set ys. snd y < snd z" using assms(1) by (simp add: cpuif_ok_def sorted_wrt_append)
      then show ?thesis using that ys by (auto simp: less_imp_le)
    qed
    ultimately show ?thesis by (rule order_less_le_trans)
  qed
  then show ?thesis
    using assms(1) group_prio_dvd [OF assms(1)] by (auto simp: cpuif_ok_def sorted_wrt_append)
qed

lemma cpuif_ok_pop: "cpuif_ok c \<Longrightarrow> cpuif_ok (c\<lparr>c_active_prio := butlast (c_active_prio c)\<rparr>)"
  by (cases "c_active_prio c" rule: rev_cases) (auto simp: cpuif_ok_def sorted_wrt_append)

lemma ap1r0_stack_ok:
  "sorted_wrt (\<lambda>x y. snd y < snd x) (ap1r0_stack v)" "\<forall>x \<in> set (ap1r0_stack v). 8 dvd unat (snd x)"
proof -
  have n: "unat (of_nat n :: u8) = n" if "n < 256" for n
    using that by (simp add: unat_of_nat take_bit_nat_eq_self)
  have u: "unat (of_nat (b * 8) :: u8) = b * 8" if "b < 32" for b
    by (rule n) (use that in simp)
  then show "\<forall>x \<in> set (ap1r0_stack v). 8 dvd unat (snd x)"
    by (auto simp: ap1r0_stack_def simp del: of_nat_mult)
  have "sorted_wrt (\<lambda>a b. (b :: nat) < a) (rev [0..<32])"
    by (simp add: sorted_wrt_rev)
  then have "sorted_wrt (\<lambda>a b. b < a) (filter (\<lambda>b. v AND push_bit b 1 \<noteq> 0) (rev [0..<32]))"
    by (rule sorted_wrt_filter)
  then show "sorted_wrt (\<lambda>x y. snd y < snd x) (ap1r0_stack v)"
    unfolding ap1r0_stack_def sorted_wrt_map
    by (rule sorted_wrt_mono_rel [rotated]) (simp add: word_less_nat_alt u del: of_nat_mult)
qed

lemma gic_ok_fold: "(\<And>x g. gic_ok g \<Longrightarrow> gic_ok (h x g)) \<Longrightarrow> gic_ok g \<Longrightarrow> gic_ok (fold h xs g)"
  by (induction xs arbitrary: g) auto

lemma gic_ok_lines:
  assumes "gic_ok g"
  shows "gic_ok (set_private_level cpu intid level g)" "gic_ok (send_sgi_to cpu intid g)"
    "gic_ok (deactivate intid g)" "gic_ok (write_bits cpu w op v32 g)" "gic_ok (write_prio cpu k sz v g)"
    "gic_ok (write_cfg cpu w v32 g)" "gic_ok (write_sgi1r v g)"
proof -
  have sgi: "gic_ok (send_sgi_to cpu intid g)" if "gic_ok g" for cpu intid g
    using that by (simp add: send_sgi_to_def gic_ok_irq_mut)
  then show "gic_ok (send_sgi_to cpu intid g)" using assms .
  show "gic_ok (set_private_level cpu intid level g)" "gic_ok (deactivate intid g)"
    using assms by (simp_all add: set_private_level_def deactivate_def gic_ok_irq_mut)
  have "gic_ok (write_bits_loop cpu w op v32 bs g)" for bs
    using assms by (induction bs arbitrary: g) (simp_all add: gic_ok_irq_mut)
  then show "gic_ok (write_bits cpu w op v32 g)" by (simp add: write_bits_def)
  have "gic_ok (write_cfg_loop cpu w v32 bs g)" for bs
    using assms by (induction bs arbitrary: g) (simp_all add: gic_ok_irq_mut)
  then show "gic_ok (write_cfg cpu w v32 g)" by (simp add: write_cfg_def)
  show "gic_ok (write_prio cpu k sz v g)"
    unfolding write_prio_def by (rule gic_ok_fold) (simp_all add: assms gic_ok_irq_mut)
  show "gic_ok (write_sgi1r v g)"
    unfolding write_sgi1r_def Let_def by (rule gic_ok_fold) (simp_all add: assms sgi)
qed

lemma gic_ok_branches:
  "gic_ok a \<Longrightarrow> gic_ok b \<Longrightarrow> gic_ok (if c then a else b)"
  "gic_ok a \<Longrightarrow> (\<And>x. gic_ok (h x)) \<Longrightarrow> gic_ok (case y of None \<Rightarrow> a | Some x \<Rightarrow> h x)"
  by (auto split: option.split)

lemma gic_ok_dist_write:
  assumes "gic_ok g"
  shows "gic_ok (dist_write off sz v g)"
proof -
  have "gic_ok (g\<lparr>gic_irqs := (gic_irqs g)[n := q]\<rparr>)" "gic_ok (g\<lparr>gicd_ctlr := x\<rparr>)" for n q x
    using assms by (simp_all add: gic_ok_def)
  then show ?thesis
    unfolding dist_write_def Let_def by (intro gic_ok_branches gic_ok_lines assms)
qed

lemma gic_ok_redist_write:
  assumes "gic_ok g"
  shows "gic_ok (redist_write off sz v g)"
proof -
  have "gic_ok (gic_cpu_mut cpu (\<lambda>c. c\<lparr>c_processor_sleep := b\<rparr>) g)" for cpu b
    by (rule gic_ok_cpu_mut [OF assms]) (simp add: cpuif_ok_def)
  then show ?thesis
    unfolding redist_write_def Let_def by (intro gic_ok_branches gic_ok_lines assms)
qed

interpretation gicd: mmio_device gic_read gic_write gic_ok
  by unfold_locales (auto simp: gic_read_def gic_write_def gic_ok_dist_write gic_ok_redist_write)

lemma deliverable_Some:
  assumes "deliverable cpu g = Some (i, p)"
  shows "highest_pending_of cpu g = Some (i, p)" "c_igrpen1 (gic_cpus g ! cpu)" "p < c_pmr (gic_cpus g ! cpu)"
    "ucast (group_prio p (gic_cpus g ! cpu)) < running (gic_cpus g ! cpu)"
  using assms by (auto simp: deliverable_def Let_def split: option.splits if_splits)

lemma gic_ok_iar1: "gic_ok g \<Longrightarrow> gic_ok (snd (read_iar1 g))"
proof (cases "deliverable (gic_cur g) g")
  case None
  assume "gic_ok g"
  then show ?thesis using None by (simp add: read_iar1_def Let_def)
next
  case (Some d)
  obtain i p where d: "d = (i, p)" by (cases d)
  let ?c = "cur_cpu g"
  let ?g = "gic_irq_mut (gic_cur g) (unat i) (\<lambda>q. q\<lparr>i_active := True, i_pending := False\<rparr>) g"
  let ?c' = "?c\<lparr>c_active_prio := c_active_prio ?c @ [(i, group_prio p ?c)]\<rparr>"
  assume ok: "gic_ok g"
  then have cur: "gic_cur g < length (gic_cpus g)" "cpuif_ok ?c" by (auto simp: gic_ok_def)
  have "cpuif_ok ?c'" using cur(2) deliverable_Some(4) [OF Some [unfolded d]] by (rule cpuif_ok_push)
  moreover have "gic_cpu_mut (gic_cur g) (\<lambda>c. c\<lparr>c_active_prio := c_active_prio c @ [(i, group_prio p ?c)]\<rparr>) ?g =
      ?g\<lparr>gic_cpus := (gic_cpus g)[gic_cur g := ?c']\<rparr>" by (simp add: gic_cpu_mut_def)
  moreover have "gic_ok ?g" using ok by (rule gic_ok_irq_mut)
  ultimately show ?thesis
    using Some d set_update_subset_insert [of "gic_cpus g" "gic_cur g" ?c']
    by (auto simp: read_iar1_def Let_def gic_ok_def)
qed

lemma max_bpr1: "3 \<le> max (w AND 7 :: u8) MIN_BPR1 \<and> max (w AND 7 :: u8) MIN_BPR1 \<le> 7"
proof -
  have m: "MIN_BPR1 = 3" by (simp add: MIN_BPR1_def PRI_BITS_def)
  have "w AND 7 \<le> 7" by (rule word_and_le1)
  then show ?thesis unfolding m by simp
qed

lemma gic_ok_cpu_regs:
  assumes "gic_ok g"
  shows "gic_ok (write_eoir1 v g)" "gic_ok (write_dir v g)" "gic_ok (write_pmr v g)" "gic_ok (write_bpr1 v g)"
    "gic_ok (icc_write_ctlr v g)" "gic_ok (write_igrpen1 v g)" "gic_ok (write_ap1r0 v g)"
proof -
  show "gic_ok (write_eoir1 v g)"
    using assms by (auto simp: write_eoir1_def Let_def intro!: gic_ok_lines gic_ok_cpu_mut cpuif_ok_pop)
  show "gic_ok (write_dir v g)" using assms by (simp add: write_dir_def gic_ok_lines)
  show "gic_ok (write_pmr v g)" "gic_ok (icc_write_ctlr v g)" "gic_ok (write_igrpen1 v g)"
    unfolding write_pmr_def icc_write_ctlr_def write_igrpen1_def
    by (rule gic_ok_cpu_mut [OF assms], simp add: cpuif_ok_def)+
  show "gic_ok (write_bpr1 v g)"
    unfolding write_bpr1_def by (rule gic_ok_cpu_mut [OF assms]) (use max_bpr1 in \<open>simp add: cpuif_ok_def\<close>)
  show "gic_ok (write_ap1r0 v g)"
    unfolding write_ap1r0_def
    by (rule gic_ok_cpu_mut [OF assms]) (use ap1r0_stack_ok in \<open>simp add: cpuif_ok_def\<close>)
qed

text \<open>Everything the machine and the guest can do to a controller.\<close>

datatype gic_op =
    Line nat u32 bool | Current nat | Iar1 | Eoir1 u64 | Dir u64 | Sgi1r u64 | Pmr u64 | Bpr1 u64
  | Ctlr u64 | Igrpen1 u64 | Ap1r0 u64 | MmioWrite u64 u8 u64

fun gic_step :: "gic_op \<Rightarrow> gic \<Rightarrow> gic option" where
  "gic_step (Line cpu intid level) g = Some (set_private_level cpu intid level g)"
| "gic_step (Current cpu) g = set_current cpu g"
| "gic_step Iar1 g = Some (snd (read_iar1 g))"
| "gic_step (Eoir1 v) g = Some (write_eoir1 v g)"
| "gic_step (Dir v) g = Some (write_dir v g)"
| "gic_step (Sgi1r v) g = Some (write_sgi1r v g)"
| "gic_step (Pmr v) g = Some (write_pmr v g)"
| "gic_step (Bpr1 v) g = Some (write_bpr1 v g)"
| "gic_step (Ctlr v) g = Some (icc_write_ctlr v g)"
| "gic_step (Igrpen1 v) g = Some (write_igrpen1 v g)"
| "gic_step (Ap1r0 v) g = Some (write_ap1r0 v g)"
| "gic_step (MmioWrite off sz v) g = Some (gic_write off sz v g)"

inductive gic_reach :: "nat \<Rightarrow> gic \<Rightarrow> bool" for n :: nat where
  init: "gic_with_cpus n = Some g \<Longrightarrow> gic_reach n g"
| step: "gic_reach n g \<Longrightarrow> gic_step op g = Some g' \<Longrightarrow> gic_reach n g'"

lemma gic_reach_ok: "gic_reach n g \<Longrightarrow> gic_ok g"
proof (induction rule: gic_reach.induct)
  case (init g)
  then show ?case by (rule gic_ok_new)
next
  case (step g op g')
  have "gic_ok (g\<lparr>gic_cur := cpu\<rparr>)" if "cpu < length (gic_cpus g)" for cpu
    using step.IH that by (simp add: gic_ok_def)
  then show ?case
    using step.hyps(2) step.IH
    by (cases op) (auto simp: gic_ok_lines gic_ok_cpu_regs gic_ok_iar1 gicd.wr_inv set_current_def split: if_splits)
qed

subsection \<open>Selection of the highest priority\<close>

definition first_le :: "u32 \<times> u8 \<Rightarrow> u32 \<times> u8 \<Rightarrow> bool" where
  "first_le x y \<longleftrightarrow> snd x < snd y \<or> snd x = snd y \<and> fst x \<le> fst y"

definition scan_cands :: "(irq \<Rightarrow> bool) \<Rightarrow> nat \<Rightarrow> irq list \<Rightarrow> (u32 \<times> u8) set" where
  "scan_cands ok k is = (\<lambda>j. (of_nat (k + j), i_priority (is ! j))) ` {j. j < length is \<and> ok (is ! j)}"

lemma scan_cands_Cons:
  "scan_cands ok k (i # is) = (if ok i then {(of_nat k, i_priority i)} else {}) \<union> scan_cands ok (Suc k) is"
proof -
  have "{j. j < length (i # is) \<and> ok ((i # is) ! j)} =
      (if ok i then {0} else {}) \<union> Suc ` {j. j < length is \<and> ok (is ! j)}" (is "?A = ?B")
  proof (rule set_eqI)
    fix j show "j \<in> ?A \<longleftrightarrow> j \<in> ?B" by (cases j) auto
  qed
  then show ?thesis by (simp add: scan_cands_def image_Un image_image ac_simps)
qed

lemma scan_best_spec:
  assumes "k + length is \<le> 2 ^ 32" "\<And>x. best = Some x \<Longrightarrow> unat (fst x) < k"
  shows "case scan_best ok k is best of
      None \<Rightarrow> best = None \<and> scan_cands ok k is = {}
    | Some x \<Rightarrow> x \<in> set_option best \<union> scan_cands ok k is \<and>
        (\<forall>y \<in> set_option best \<union> scan_cands ok k is. first_le x y)"
  using assms
proof (induction "is" arbitrary: k best)
  case Nil
  then show ?case by (auto simp: scan_cands_def first_le_def split: option.split)
next
  case (Cons i "is")
  have k: "unat (of_nat k :: u32) = k" using Cons.prems(1) by (simp add: unat_of_nat take_bit_nat_eq_self)
  let ?new = "(of_nat k :: u32, i_priority i)"
  define best' where "best' = (if ok i \<and> (case best of None \<Rightarrow> True | Some (_, p) \<Rightarrow> i_priority i < p)
    then Some ?new else best)"
  have b': "unat (fst x) < Suc k" if "best' = Some x" for x
    using that Cons.prems(2) [of x] k by (auto simp: best'_def less_SucI split: if_splits)
  have eq: "scan_best ok k (i # is) best = scan_best ok (Suc k) is best'" by (simp add: best'_def)
  let ?C = "set_option best \<union> scan_cands ok k (i # is)"
  have sub: "set_option best' \<union> scan_cands ok (Suc k) is \<subseteq> ?C"
    by (auto simp: best'_def scan_cands_Cons split: if_splits)
  have "fst x \<le> of_nat k" if "best = Some x" for x
    using Cons.prems(2) [OF that] k by (simp add: word_le_nat_alt)
  then have dom: "\<exists>z \<in> set_option best'. first_le z y" if "y \<in> set_option best \<or> ok i \<and> y = ?new" for y
    using that by (cases best) (auto simp: best'_def first_le_def not_less)
  have tr: "first_le x z \<Longrightarrow> first_le z y \<Longrightarrow> first_le x y" for x y z by (auto simp: first_le_def)
  have IH: "case scan_best ok (Suc k) is best' of
      None \<Rightarrow> best' = None \<and> scan_cands ok (Suc k) is = {}
    | Some x \<Rightarrow> x \<in> set_option best' \<union> scan_cands ok (Suc k) is \<and>
        (\<forall>y \<in> set_option best' \<union> scan_cands ok (Suc k) is. first_le x y)"
    by (rule Cons.IH) (use Cons.prems(1) b' in auto)
  show ?case
  proof (cases "scan_best ok (Suc k) is best'")
    case None
    then have "best' = None" "scan_cands ok (Suc k) is = {}" using IH by simp_all
    moreover have no: "\<not> (y \<in> set_option best \<or> ok i \<and> y = ?new)" for y using dom [of y] \<open>best' = None\<close> by auto
    have "best = None" using no by (cases best) auto
    moreover have "\<not> ok i" using no [of ?new] by simp
    ultimately show ?thesis using None unfolding eq by (simp add: scan_cands_Cons)
  next
    case (Some x)
    then have "x \<in> set_option best' \<union> scan_cands ok (Suc k) is"
      and all: "\<forall>y \<in> set_option best' \<union> scan_cands ok (Suc k) is. first_le x y" using IH by simp_all
    then have "x \<in> ?C" using sub by blast
    moreover have "first_le x y" if "y \<in> ?C" for y
    proof (cases "y \<in> scan_cands ok (Suc k) is")
      case False
      then have "y \<in> set_option best \<or> ok i \<and> y = ?new" using that by (auto simp: scan_cands_Cons split: if_splits)
      then obtain z where z: "z \<in> set_option best'" "first_le z y" using dom by blast
      then have "first_le x z" using all by blast
      then show ?thesis using z(2) by (rule tr)
    qed (use all in blast)
    ultimately show ?thesis unfolding eq Some by simp
  qed
qed

end
