(* ===== verification/Gic_Delivery.thy ===== *)
theory Gic_Delivery
  imports Gic
begin

text \<open>
  What the interrupt controller of \<^verbatim>\<open>gic.rs\<close> promises: the interrupt it selects, acknowledgement and
  end of interrupt, the nesting of active priorities, the targets of software interrupts, and
  its snapshot.
\<close>

unbundle bit_operations_syntax

subsection \<open>Candidates\<close>

definition candidate :: "nat \<Rightarrow> gic \<Rightarrow> nat \<Rightarrow> irq \<Rightarrow> bool" where
  "candidate cpu g i q \<longleftrightarrow> gic_irq cpu i g = Some q \<and> signalable q \<and> (32 \<le> i \<longrightarrow> routed_to cpu q)"

definition cands :: "nat \<Rightarrow> gic \<Rightarrow> (u32 \<times> u8) set" where
  "cands cpu g = {(of_nat i, i_priority q) |i q. candidate cpu g i q}"

definition priv_irqs :: "nat \<Rightarrow> gic \<Rightarrow> irq list" where
  "priv_irqs cpu g = (if cpu = 0 then take 32 (gic_irqs g) else gic_banked g ! (cpu - 1))"

lemma priv_irqs_get:
  assumes "gic_ok g" "cpu < length (gic_cpus g)"
  shows "length (priv_irqs cpu g) = 32" "i < 32 \<Longrightarrow> gic_irq cpu i g = Some (priv_irqs cpu g ! i)"
  using assms by (auto simp: priv_irqs_def gic_ok_def gic_irq_def)

lemma spi_get:
  assumes "gic_ok g" "32 \<le> i"
  shows "gic_irq cpu i g = (if i < 288 then Some (drop 32 (gic_irqs g) ! (i - 32)) else None)"
  using assms by (simp add: gic_irq_def gic_ok_def)

lemma cands_scan:
  assumes "gic_ok g" "cpu < length (gic_cpus g)"
  shows "cands cpu g = scan_cands signalable 0 (priv_irqs cpu g) \<union>
    scan_cands (\<lambda>q. signalable q \<and> routed_to cpu q) 32 (drop 32 (gic_irqs g))" (is "?L = ?P \<union> ?S")
proof
  have len: "length (drop 32 (gic_irqs g)) = 256" using assms(1) by (simp add: gic_ok_def)
  show "?L \<subseteq> ?P \<union> ?S"
  proof
    fix x assume "x \<in> ?L"
    then obtain i q where x: "x = (of_nat i, i_priority q)" and c: "candidate cpu g i q"
      by (auto simp: cands_def)
    show "x \<in> ?P \<union> ?S"
    proof (cases "i < 32")
      case True
      then have "q = priv_irqs cpu g ! i" "signalable q"
        using c priv_irqs_get(2) [OF assms True] by (auto simp: candidate_def)
      then have "x \<in> ?P" unfolding scan_cands_def x using True priv_irqs_get(1) [OF assms]
        by (intro image_eqI [of _ _ i]) auto
      then show ?thesis by blast
    next
      case False
      then have "i < 288" "q = drop 32 (gic_irqs g) ! (i - 32)" "signalable q" "routed_to cpu q"
        using c spi_get [OF assms(1), of i cpu] by (auto simp: candidate_def split: if_splits)
      then have "x \<in> ?S" unfolding scan_cands_def x using False len
        by (intro image_eqI [of _ _ "i - 32"]) (auto simp del: length_drop)
      then show ?thesis by blast
    qed
  qed
  show "?P \<union> ?S \<subseteq> ?L"
  proof
    fix x assume "x \<in> ?P \<union> ?S"
    then show "x \<in> ?L"
    proof
      assume "x \<in> ?P"
      then obtain j where j: "j < 32" "signalable (priv_irqs cpu g ! j)"
          "x = (of_nat j, i_priority (priv_irqs cpu g ! j))"
        using priv_irqs_get(1) [OF assms] by (auto simp: scan_cands_def)
      then have "candidate cpu g j (priv_irqs cpu g ! j)"
        using priv_irqs_get(2) [OF assms j(1)] by (simp add: candidate_def)
      then show ?thesis using j(3) by (auto simp: cands_def)
    next
      assume "x \<in> ?S"
      then obtain j where j: "j < 256" "signalable (drop 32 (gic_irqs g) ! j)" "routed_to cpu (drop 32 (gic_irqs g) ! j)"
          "x = (of_nat (32 + j), i_priority (drop 32 (gic_irqs g) ! j))"
        unfolding scan_cands_def len by blast
      then have "candidate cpu g (32 + j) (drop 32 (gic_irqs g) ! j)"
        using spi_get [OF assms(1), of "32 + j" cpu] by (simp add: candidate_def)
      then show ?thesis using j(4) unfolding cands_def by blast
    qed
  qed
qed

lemma highest_pending_cands:
  assumes "gic_ok g" "cpu < length (gic_cpus g)" "gicd_ctlr g AND GICD_CTLR_ENABLE_GRP1 \<noteq> 0"
  shows "case highest_pending_of cpu g of
      None \<Rightarrow> cands cpu g = {}
    | Some x \<Rightarrow> x \<in> cands cpu g \<and> (\<forall>y \<in> cands cpu g. first_le x y)"
proof -
  let ?P = "scan_cands signalable 0 (priv_irqs cpu g)"
  let ?ok = "\<lambda>q. signalable q \<and> routed_to cpu q"
  let ?S = "scan_cands ?ok 32 (drop 32 (gic_irqs g))"
  define best where "best = scan_best signalable 0 (priv_irqs cpu g) None"
  have b: "case best of None \<Rightarrow> ?P = {} | Some x \<Rightarrow> x \<in> ?P \<and> (\<forall>y \<in> ?P. first_le x y)"
    using scan_best_spec [of 0 "priv_irqs cpu g" None signalable] priv_irqs_get(1) [OF assms(1,2)]
    by (auto simp: best_def split: option.splits)
  have small: "unat (fst x) < 32" if "best = Some x" for x
  proof -
    have "x \<in> ?P" using b that by simp
    then show ?thesis using priv_irqs_get(1) [OF assms(1,2)]
      by (auto simp: scan_cands_def unat_of_nat take_bit_nat_eq_self)
  qed
  have h: "highest_pending_of cpu g = scan_best ?ok 32 (drop 32 (gic_irqs g)) best"
    using assms(3) by (simp add: highest_pending_of_def Let_def best_def priv_irqs_def)
  have s: "case highest_pending_of cpu g of
      None \<Rightarrow> best = None \<and> ?S = {}
    | Some x \<Rightarrow> x \<in> set_option best \<union> ?S \<and> (\<forall>y \<in> set_option best \<union> ?S. first_le x y)"
    unfolding h by (rule scan_best_spec) (use assms(1) small in \<open>auto simp: gic_ok_def\<close>)
  have tr: "first_le x z \<Longrightarrow> first_le z y \<Longrightarrow> first_le x y" for x y z by (auto simp: first_le_def)
  show ?thesis
  proof (cases "highest_pending_of cpu g")
    case None
    then show ?thesis using s b by (simp add: cands_scan [OF assms(1,2)])
  next
    case (Some x)
    have x: "x \<in> set_option best \<union> ?S" "\<forall>y \<in> set_option best \<union> ?S. first_le x y" using s Some by simp_all
    have "x \<in> ?P \<union> ?S" using x(1) b by (cases best) auto
    moreover have "first_le x y" if y: "y \<in> ?P" for y
    proof (cases best)
      case None
      then show ?thesis using b y by simp
    next
      case (Some z)
      then have "first_le z y" "first_le x z" using b y x(2) by simp_all
      then show ?thesis using tr by blast
    qed
    ultimately show ?thesis using x(2) unfolding Some cands_scan [OF assms(1,2)] by auto
  qed
qed

subsection \<open>A controller in use\<close>

text \<open>
  One core, group 1 on, every SPI in group 1, INTIDs 33 and 34 enabled and their lines high,
  the priority mask open: a run of the operations a driver does.
\<close>

fun gic_run :: "gic_op list \<Rightarrow> gic \<Rightarrow> gic option" where
  "gic_run [] g = Some g"
| "gic_run (op # ops) g = (case gic_step op g of None \<Rightarrow> None | Some g' \<Rightarrow> gic_run ops g')"

lemma gic_run_reach: "gic_reach n g \<Longrightarrow> gic_run ops g = Some g' \<Longrightarrow> gic_reach n g'"
  by (induction ops arbitrary: g) (auto split: option.splits intro: gic_reach.step)

definition demo_gic_ops :: "gic_op list" where
  "demo_gic_ops = [MmioWrite 0 4 2, MmioWrite 0x84 4 0xFFFFFFFF, MmioWrite 0x104 4 6, MmioWrite 0x421 1 0x80,
    Pmr 0xF0, Igrpen1 1, Line 0 33 True, Line 0 34 True]"

definition demo_gic :: gic where
  "demo_gic = the (gic_run demo_gic_ops (the (gic_with_cpus 1)))"

lemma demo_gic_reach: "gic_reach 1 demo_gic"
proof -
  obtain g0 where g0: "gic_with_cpus 1 = Some g0" by (simp add: gic_with_cpus_def)
  have "gic_run demo_gic_ops g \<noteq> None" for g by (simp add: demo_gic_ops_def)
  then have "gic_run demo_gic_ops g0 = Some demo_gic" by (auto simp: demo_gic_def g0 simp del: One_nat_def)
  then show ?thesis using gic_run_reach gic_reach.init [OF g0] by blast
qed

definition demo_facts :: "gic \<Rightarrow> bool" where
  "demo_facts g \<longleftrightarrow> deliverable (gic_cur g) g = Some (34, 0) \<and> highest_pending_of 0 g = Some (34, 0) \<and>
    length (gic_cpus g) = 1 \<and> \<not> c_eoimode (cur_cpu g) \<and> gic_cur g = 0"

lemma demo_gic_facts: "demo_facts demo_gic"
  by code_simp

lemma demo_gic_deliverable:
  "deliverable (gic_cur demo_gic) demo_gic = Some (34, 0)" "highest_pending_of 0 demo_gic = Some (34, 0)"
  "length (gic_cpus demo_gic) = 1" "\<not> c_eoimode (cur_cpu demo_gic)" "gic_cur demo_gic = 0"
  using demo_gic_facts unfolding demo_facts_def by blast+

text \<open>
  C8. The controller signals the right interrupt: on every reachable controller the highest
  pending interrupt of a core is, among the enabled, pending, inactive group 1 interrupts that
  are private to the core or routed to it, the one of highest priority, the lowest INTID on a
  tie; there is none exactly when there is no such interrupt or the group is off.
\<close>

theorem highest_pending_exact:
  assumes "gic_reach n g" "cpu < length (gic_cpus g)"
  shows "case highest_pending_of cpu g of
      None \<Rightarrow> gicd_ctlr g AND GICD_CTLR_ENABLE_GRP1 = 0 \<or> (\<forall>i q. \<not> candidate cpu g i q)
    | Some (intid, prio) \<Rightarrow> gicd_ctlr g AND GICD_CTLR_ENABLE_GRP1 \<noteq> 0 \<and>
        (\<exists>q. candidate cpu g (unat intid) q \<and> i_priority q = prio) \<and>
        (\<forall>i q. candidate cpu g i q \<longrightarrow> prio < i_priority q \<or> prio = i_priority q \<and> unat intid \<le> i)"
proof (cases "gicd_ctlr g AND GICD_CTLR_ENABLE_GRP1 = 0")
  case True
  then show ?thesis by (simp add: highest_pending_of_def)
next
  case False
  have ok: "gic_ok g" using assms(1) by (rule gic_reach_ok)
  have id: "unat (of_nat i :: u32) = i" if "candidate cpu g i q" for i q
  proof -
    have "i < 288" using that gic_irq_Some [OF ok assms(2), of i] by (auto simp: candidate_def)
    then show ?thesis by (simp add: unat_of_nat take_bit_nat_eq_self)
  qed
  note h = highest_pending_cands [OF ok assms(2) False]
  show ?thesis
  proof (cases "highest_pending_of cpu g")
    case None
    then show ?thesis using h by (auto simp: cands_def)
  next
    case (Some x)
    obtain intid prio where x: "x = (intid, prio)" by (cases x)
    have "x \<in> cands cpu g" "\<And>y. y \<in> cands cpu g \<Longrightarrow> first_le x y" using h Some by simp_all
    then obtain i q where iq: "candidate cpu g i q" "intid = of_nat i" "prio = i_priority q"
      and le: "\<And>i q. candidate cpu g i q \<Longrightarrow> first_le x (of_nat i, i_priority q)"
      unfolding cands_def x by blast
    have "prio < i_priority q' \<or> prio = i_priority q' \<and> unat intid \<le> i'" if "candidate cpu g i' q'" for i' q'
      using le [OF that] id [OF that] by (auto simp: first_le_def x word_le_nat_alt)
    then show ?thesis using False iq id [OF iq(1)] unfolding Some x by auto
  qed
qed

theorem highest_pending_exact_witness:
  "\<exists>q. candidate 0 demo_gic 34 q \<and> i_priority q = 0"
  using highest_pending_exact [OF demo_gic_reach, of 0] demo_gic_deliverable(2,3) by auto

subsection \<open>Acknowledgement and end of interrupt\<close>

lemma deliverable_candidate:
  assumes "gic_ok g" "cpu < length (gic_cpus g)" "deliverable cpu g = Some (i, p)"
  shows "\<exists>q. candidate cpu g (unat i) q \<and> i_priority q = p"
proof -
  have h: "highest_pending_of cpu g = Some (i, p)" using deliverable_Some(1) [OF assms(3)] .
  then have "gicd_ctlr g AND GICD_CTLR_ENABLE_GRP1 \<noteq> 0" by (auto simp: highest_pending_of_def)
  then have "(i, p) \<in> cands cpu g" using highest_pending_cands [OF assms(1,2)] h by simp
  then obtain k q where k: "i = of_nat k" "p = i_priority q" "candidate cpu g k q" by (auto simp: cands_def)
  then have "k < 288" using gic_irq_Some [OF assms(1,2), of k] by (auto simp: candidate_def)
  then have "unat i = k" using k(1) by (simp add: unat_of_nat take_bit_nat_eq_self)
  then show ?thesis using k by blast
qed

lemma irq_mut_irq_mut:
  assumes "gic_ok g" "cpu < length (gic_cpus g)" "i < 288"
  shows "gic_irq_mut cpu i f (gic_irq_mut cpu i h g) = gic_irq_mut cpu i (\<lambda>q. f (h q)) g"
  using assms by (auto simp: gic_irq_mut_def gic_ok_def nth_list_update)

lemma irq_mut_cong:
  assumes "gic_irq cpu i g = Some q" "f q = h q"
  shows "gic_irq_mut cpu i f g = gic_irq_mut cpu i h g"
  using assms by (auto simp: gic_irq_mut_def gic_irq_def split: if_splits)

lemma irq_cpu_mut_commute: "gic_irq_mut cpu i f (gic_cpu_mut c h g) = gic_cpu_mut c h (gic_irq_mut cpu i f g)"
  by (simp add: gic_irq_mut_def gic_cpu_mut_def)

lemma cpu_mut_cpu_mut:
  "gic_cpu_mut c k (gic_cpu_mut c h g) = gic_cpu_mut c (\<lambda>x. k (h x)) g"
  by (cases "c < length (gic_cpus g)") (simp_all add: gic_cpu_mut_def list_update_beyond)

lemma cpu_mut_id: "(\<And>x. h x = x) \<Longrightarrow> gic_cpu_mut c h g = g"
  by (simp add: gic_cpu_mut_def)

lemma intid_field:
  assumes "unat i < 288"
  shows "ucast (ucast (i :: u32) AND 0xFFFFFF :: u64) = i"
proof -
  have "take_bit 24 i = i" using assms by (simp add: take_bit_word_self_iff)
  moreover have "(0xFFFFFF :: u64) = mask 24" by (simp add: mask_eq_exp_minus_1)
  moreover have "(ucast (ucast i AND mask 24 :: u64) :: u32) = take_bit 24 i"
    by (rule bit_word_eqI) (auto simp: bit_simps)
  ultimately show ?thesis by metis
qed

lemma cur_cpu_mut:
  "gic_cur g < length (gic_cpus g) \<Longrightarrow> cur_cpu (gic_cpu_mut (gic_cur g) h g) = h (cur_cpu g)"
  by (simp add: gic_cpu_mut_def)

text \<open>
  C9. Acknowledging and ending an interrupt restores the controller: when core \<open>cur\<close> is signalled,
  IAR returns the selected INTID, makes it active with its group priority running, above every
  priority that was, and it is not signalled again; the matching EOI (EOImode 0) then leaves the
  controller exactly as before, with the interrupt's pending latch consumed.
\<close>

theorem ack_eoi_roundtrip:
  assumes "gic_reach n g" "deliverable (gic_cur g) g = Some (i, p)" "\<not> c_eoimode (cur_cpu g)"
    "read_iar1 g = (v, g1)"
  shows "v = ucast i \<and> map_option i_active (gic_irq (gic_cur g) (unat i) g1) = Some True \<and>
    running (cur_cpu g1) = ucast (group_prio p (cur_cpu g)) \<and> running (cur_cpu g1) < running (cur_cpu g) \<and>
    (\<forall>p'. deliverable (gic_cur g) g1 \<noteq> Some (i, p')) \<and>
    write_eoir1 v g1 = gic_irq_mut (gic_cur g) (unat i) (\<lambda>q. q\<lparr>i_pending := False\<rparr>) g"
proof -
  let ?cur = "gic_cur g" and ?c = "cur_cpu g"
  let ?ack = "\<lambda>q. q\<lparr>i_active := True, i_pending := False\<rparr>"
  let ?push = "\<lambda>c. c\<lparr>c_active_prio := c_active_prio c @ [(i, group_prio p ?c)]\<rparr>"
  have ok: "gic_ok g" using assms(1) by (rule gic_reach_ok)
  then have cur: "?cur < length (gic_cpus g)" by (simp add: gic_ok_def)
  obtain q where q: "candidate ?cur g (unat i) q" "i_priority q = p"
    using deliverable_candidate [OF ok cur assms(2)] by blast
  then have irq: "gic_irq ?cur (unat i) g = Some q" "\<not> i_active q" by (auto simp: candidate_def signalable_def)
  have i: "unat i < 288" using gic_irq_Some [OF ok cur, of "unat i"] irq(1) by simp
  have g1: "v = ucast i" "g1 = gic_cpu_mut ?cur ?push (gic_irq_mut ?cur (unat i) ?ack g)"
    using assms(2,4) by (auto simp: read_iar1_def Let_def)
  have c1: "cur_cpu g1 = ?push ?c" using cur by (simp add: g1(2) gic_cpu_mut_def)
  have act: "gic_irq ?cur (unat i) g1 = Some (?ack q)"
    using irq(1) gic_irq_mut_get [OF ok cur cur i] by (simp add: g1(2))
  have run: "running (cur_cpu g1) = ucast (group_prio p ?c)" unfolding c1 by (simp add: running_def)
  have less: "running (cur_cpu g1) < running ?c" unfolding run using deliverable_Some(4) [OF assms(2)] .
  have "gic_ok g1" using gic_ok_iar1 [OF ok] assms(4) by simp
  then have again: "deliverable ?cur g1 \<noteq> Some (i, p')" for p'
    using deliverable_candidate [of g1 ?cur i p'] act cur g1(2) by (auto simp: candidate_def signalable_def)
  have "\<not> (1020 \<le> i \<and> i < 1024)" using i by (simp add: word_le_nat_alt)
  moreover have "ucast (v AND 0xFFFFFF) = i" unfolding g1(1) by (rule intid_field [OF i])
  moreover have cur1: "gic_cur g1 = ?cur" by (simp add: g1(2))
  ultimately have "write_eoir1 v g1 =
      deactivate i (gic_cpu_mut ?cur (\<lambda>c. c\<lparr>c_active_prio := butlast (c_active_prio c)\<rparr>) g1)"
    using assms(3) cur by (auto simp: write_eoir1_def Let_def g1(2) gic_cpu_mut_def)
  also have "gic_cpu_mut ?cur (\<lambda>c. c\<lparr>c_active_prio := butlast (c_active_prio c)\<rparr>) g1 = gic_irq_mut ?cur (unat i) ?ack g"
    unfolding g1(2) cpu_mut_cpu_mut by (rule cpu_mut_id) simp
  also have "deactivate i \<dots> = gic_irq_mut ?cur (unat i) (\<lambda>q. (?ack q)\<lparr>i_active := False\<rparr>) g"
    using irq(1) gic_irq_mut_get [OF ok cur cur i] irq_mut_irq_mut [OF ok cur i]
    by (simp add: deactivate_def)
  also have "\<dots> = gic_irq_mut ?cur (unat i) (\<lambda>q. q\<lparr>i_pending := False\<rparr>) g"
    by (rule irq_mut_cong [OF irq(1)]) (use irq(2) in \<open>simp\<close>)
  finally show ?thesis using g1(1) act run less again by simp
qed

theorem ack_eoi_roundtrip_witness:
  "fst (read_iar1 demo_gic) = 34 \<and>
    write_eoir1 34 (snd (read_iar1 demo_gic)) = gic_irq_mut 0 34 (\<lambda>q. q\<lparr>i_pending := False\<rparr>) demo_gic"
proof -
  obtain v g1 where vg: "read_iar1 demo_gic = (v, g1)" by (cases "read_iar1 demo_gic")
  have "unat (34 :: u32) = 34" "(ucast (34 :: u32) :: u64) = 34" by simp_all
  then have "v = 34" "write_eoir1 v g1 = gic_irq_mut 0 34 (\<lambda>q. q\<lparr>i_pending := False\<rparr>) demo_gic"
    using ack_eoi_roundtrip [OF demo_gic_reach demo_gic_deliverable(1,4) vg]
    unfolding demo_gic_deliverable(5) by metis+
  then show ?thesis using vg by simp
qed

subsection \<open>Nesting\<close>

lemma cpuif_ok_depth:
  assumes ok: "cpuif_ok c"
  shows "length (c_active_prio c) \<le> 32"
proof -
  let ?ps = "map (\<lambda>x. unat (snd x) div 8) (c_active_prio c)"
  have lt: "unat (snd y) div 8 < unat (snd x) div 8"
    if "x \<in> set (c_active_prio c)" "y \<in> set (c_active_prio c)" "snd y < snd x" for x y
  proof -
    have "8 dvd unat (snd x)" "8 dvd unat (snd y)" "unat (snd y) < unat (snd x)"
      using ok that by (auto simp: cpuif_ok_def word_less_nat_alt)
    then show ?thesis by (auto elim!: dvdE)
  qed
  have "sorted_wrt (\<lambda>x y. snd y < snd x) (c_active_prio c)" using ok by (simp add: cpuif_ok_def)
  then have "sorted_wrt (\<lambda>x y. unat (snd y) div 8 < unat (snd x) div 8) (c_active_prio c)"
    by (rule sorted_wrt_mono_rel [rotated]) (rule lt)
  then have "sorted_wrt (<) (rev ?ps)" by (simp only: sorted_wrt_rev sorted_wrt_map)
  then have "distinct (rev ?ps)" by (simp only: strict_sorted_iff)
  then have "distinct ?ps" by (simp only: distinct_rev)
  moreover have "unat (snd x) div 8 < 32" for x :: "u32 \<times> u8"
  proof -
    have "unat (snd x) < 2 ^ LENGTH(8)" by (rule unsigned_less)
    then show ?thesis by simp
  qed
  then have "set ?ps \<subseteq> {..<32}" by auto
  then have "card (set ?ps) \<le> card {..<32 :: nat}" by (rule card_mono [OF finite_lessThan])
  ultimately have "length ?ps \<le> 32" by (simp only: distinct_card card_lessThan)
  then show ?thesis by simp
qed

text \<open>
  C33. Preemption nests strictly and never deeper than 32 levels: on every reachable controller
  the active priorities of each core are strictly increasing in urgency from the first taken to
  the running one.
\<close>

theorem active_priorities_nest:
  assumes "gic_reach n g" "c \<in> set (gic_cpus g)"
  shows "sorted_wrt (\<lambda>x y. snd y < snd x) (c_active_prio c) \<and> length (c_active_prio c) \<le> 32"
proof -
  have "cpuif_ok c" using gic_reach_ok [OF assms(1)] assms(2) by (simp add: gic_ok_def)
  then show ?thesis using cpuif_ok_depth by (simp add: cpuif_ok_def)
qed

theorem active_priorities_nest_witness:
  "cur_cpu demo_gic \<in> set (gic_cpus demo_gic) \<and> length (c_active_prio (cur_cpu demo_gic)) \<le> 32"
proof -
  have "cur_cpu demo_gic \<in> set (gic_cpus demo_gic)" using demo_gic_deliverable(3,5) by simp
  then show ?thesis using active_priorities_nest [OF demo_gic_reach] by blast
qed

subsection \<open>Software interrupts\<close>

lemma affinity_small: "cpu < 16 \<Longrightarrow> cpu_affinity cpu = of_nat cpu"
  by (simp add: cpu_affinity_def)

lemma small_nat_bits:
  assumes "cpu < 16"
  shows "(of_nat cpu :: u64) AND NOT 0xFF = 0" "(of_nat cpu :: u64) AND 0xFF = of_nat cpu"
    "drop_bit 4 (of_nat cpu :: u64) = 0" "unat ((of_nat cpu :: u64) AND 0xF) = cpu"
proof -
  have u: "unat (of_nat cpu :: u64) = cpu" using assms by (simp add: unat_of_nat take_bit_nat_eq_self)
  then have t: "take_bit 8 (of_nat cpu :: u64) = of_nat cpu" "take_bit 4 (of_nat cpu :: u64) = of_nat cpu"
    using assms by (simp_all add: take_bit_word_self_iff)
  have m: "(0xFF :: u64) = mask 8" "(0xF :: u64) = mask 4" by (simp_all add: mask_eq_exp_minus_1)
  show a: "(of_nat cpu :: u64) AND 0xFF = of_nat cpu" using t(1) by (simp add: m take_bit_eq_mask)
  show "unat ((of_nat cpu :: u64) AND 0xF) = cpu" unfolding m(2) take_bit_eq_mask [symmetric] t(2) by (rule u)
  show "(of_nat cpu :: u64) AND NOT 0xFF = 0" by (metis a and.assoc and.right_idem bit.conj_cancel_right bit.conj_zero_right)
  have "drop_bit 4 (take_bit 4 (of_nat cpu :: u64)) = 0" by (simp only: drop_bit_take_bit) simp
  then show "drop_bit 4 (of_nat cpu :: u64) = 0" by (simp only: t(2))
qed

lemma push_small_zero: "push_bit k (x AND 0xFF :: u64) = 0 \<longleftrightarrow> x AND 0xFF = 0" if "k \<le> 32"
proof
  assume z: "push_bit k (x AND 0xFF) = 0"
  have m: "(0xFF :: u64) = mask 8" by (simp add: mask_eq_exp_minus_1)
  show "x AND 0xFF = 0"
  proof (rule bit_word_eqI)
    fix n assume n: "n < LENGTH(64)"
    show "bit (x AND 0xFF) n = bit (0 :: u64) n"
    proof (cases "n < 8")
      case True
      then show ?thesis using arg_cong [OF z, of "\<lambda>w. bit w (k + n)"] that by (simp add: bit_simps)
    qed (simp add: m bit_simps)
  qed
qed simp

definition sgi_target :: "u64 \<Rightarrow> nat \<Rightarrow> nat \<Rightarrow> bool" where
  "sgi_target v cur cpu \<longleftrightarrow> (if bit v 40 then cpu \<noteq> cur
    else bit v cpu \<and> drop_bit 16 v AND 0xFF = 0 \<and> drop_bit 32 v AND 0xFF = 0 \<and> drop_bit 48 v AND 0xFF = 0 \<and>
      drop_bit 44 v AND 0xF = 0)"

lemma sgi_hit_iff:
  assumes "cpu < 16"
  shows "sgi_hit v cur cpu \<longleftrightarrow> sgi_target v cur cpu"
proof -
  have m: "(0xFFFF :: u64) = mask 16" by (simp add: mask_eq_exp_minus_1)
  have t: "(v AND 0xFFFF) AND push_bit cpu 1 \<noteq> 0 \<longleftrightarrow> bit v cpu"
    unfolding word_ne_zero_test m using assms by (simp add: bit_simps)
  have c: "0 = push_bit 32 (a AND 0xFF :: u64) OR push_bit 16 (b AND 0xFF) OR push_bit 8 (c AND 0xFF) \<longleftrightarrow>
      a AND 0xFF = 0 \<and> b AND 0xFF = 0 \<and> c AND 0xFF = 0" for a b c
    unfolding eq_commute [of 0] or_eq_0_iff by (simp add: push_small_zero del: push_bit_and)
  have i: "(v AND push_bit 40 1 \<noteq> 0) = bit v 40" by (rule word_ne_zero_test)
  show ?thesis
    unfolding sgi_hit_def Let_def affinity_small [OF assms] small_nat_bits [OF assms] t c i sgi_target_def
    by auto
qed

text \<open>The interrupts \<open>l\<close> with number \<open>i\<close> pending.\<close>

definition pend_in :: "nat \<Rightarrow> irq list \<Rightarrow> irq list" where
  "pend_in i l = l[i := (l ! i)\<lparr>i_pending := True\<rparr>]"

lemma map_upd_nth: "n < N \<Longrightarrow> (map h [0..<N])[n := x] = map (\<lambda>k. if k = n then x else h k) [0..<N]"
  by (rule nth_equalityI) (auto simp: nth_list_update)

lemma sgi_fold_state:
  assumes "gic_ok g" "intid < 16" "m \<le> length (gic_cpus g)"
  shows "fold (\<lambda>c g. if sgi_hit v (gic_cur g) c then send_sgi_to c intid g else g) [0..<m] g =
    g\<lparr>gic_irqs := if 0 < m \<and> sgi_hit v (gic_cur g) 0 then pend_in (unat intid) (gic_irqs g) else gic_irqs g,
      gic_banked := map (\<lambda>k. if Suc k < m \<and> sgi_hit v (gic_cur g) (Suc k)
        then pend_in (unat intid) (gic_banked g ! k) else gic_banked g ! k) [0..<length (gic_banked g)]\<rparr>"
  using assms(3)
proof (induction m)
  case 0
  then show ?case by (simp add: map_nth)
next
  case (Suc m)
  have i: "unat intid < 16" using assms(2) by (simp add: word_less_nat_alt)
  have len: "length (gic_irqs g) = 288" "length (gic_cpus g) = Suc (length (gic_banked g))"
    using assms(1) by (simp_all add: gic_ok_def)
  let ?f = "\<lambda>c g. if sgi_hit v (gic_cur g) c then send_sgi_to c intid g else g"
  have step: "fold ?f [0..<Suc m] g = ?f m (fold ?f [0..<m] g)" by simp
  show ?case
  proof (cases m)
    case 0
    then show ?thesis using i len assms(2)
      by (simp add: send_sgi_to_def gic_irq_def gic_irq_mut_def pend_in_def map_nth)
  next
    case (Suc n)
    have n: "n < length (gic_banked g)" "m \<le> length (gic_cpus g)" using Suc Suc.prems len by auto
    have e: "k < n \<or> k = n \<longleftrightarrow> k < Suc n" for k by auto
    show ?thesis
      unfolding step Suc.IH [OF n(2)] unfolding Suc using n(1) i len assms(2)
      by (auto simp: send_sgi_to_def gic_irq_def gic_irq_mut_def pend_in_def [of _ "_ ! n"] map_upd_nth less_Suc_eq
          intro!: arg_cong [where f = "\<lambda>x. gic_banked_update (\<lambda>_. x) y" for y] map_cong)
  qed
qed
text \<open>
  C34. A software interrupt reaches exactly the cores ICC_SGI1R_EL1 names: those in the target list
  of the only cluster, or every core but the sender. The whole state of the controller after the write
  is the state before it in which that one interrupt is pending in the private bank of each named core
  (core 0's are the first entries of the shared array), and everything else is as it was.
\<close>

theorem write_sgi1r_targets:
  assumes "gic_reach n g"
  shows "write_sgi1r v g =
    (let i = unat (drop_bit 24 v AND 0xF)
     in g\<lparr>gic_irqs := if sgi_target v (gic_cur g) 0 then pend_in i (gic_irqs g) else gic_irqs g,
          gic_banked := map (\<lambda>k. if sgi_target v (gic_cur g) (Suc k) then pend_in i (gic_banked g ! k)
            else gic_banked g ! k) [0..<length (gic_banked g)]\<rparr>)"
proof -
  have ok: "gic_ok g" using assms by (rule gic_reach_ok)
  then have n: "length (gic_cpus g) = Suc (length (gic_banked g))" "length (gic_cpus g) \<le> 16" by (simp_all add: gic_ok_def)
  let ?w = "drop_bit 24 v AND 0xF"
  have "?w \<le> 0xF" by (rule word_and_le1)
  then have w: "unat ?w < 16" by (simp add: word_le_nat_alt)
  then have u: "unat (ucast ?w :: u32) = unat ?w" by (simp add: unsigned_ucast_eq unsigned_take_bit_eq take_bit_nat_eq_self)
  then have "(ucast ?w :: u32) < 16" using w by (simp add: word_less_nat_alt)
  note state = sgi_fold_state [OF ok this order_refl]
  show ?thesis
    unfolding write_sgi1r_def Let_def state u
    using n by (auto simp: sgi_hit_iff intro!: map_cong arg_cong [where f = "\<lambda>x. gic_banked_update (\<lambda>_. x) y" for y])
qed

theorem write_sgi1r_targets_witness:
  "write_sgi1r 0x3000001 demo_gic = demo_gic\<lparr>gic_irqs := pend_in 3 (gic_irqs demo_gic)\<rparr>"
proof -
  have "sgi_target 0x3000001 0 0" by code_simp
  moreover have "unat (drop_bit 24 (0x3000001 :: u64) AND 0xF) = 3" by simp
  moreover have "gic_banked demo_gic = []" using gic_reach_ok [OF demo_gic_reach] demo_gic_deliverable(3) by (simp add: gic_ok_def)
  ultimately show ?thesis
    using write_sgi1r_targets [OF demo_gic_reach, of "0x3000001"] demo_gic_deliverable(3,5) by simp
qed

subsection \<open>Snapshot\<close>

definition irq_flags :: "irq \<Rightarrow> u8" where
  "irq_flags i = of_bool (i_enabled i) OR push_bit 1 (of_bool (i_pending i)) OR push_bit 2 (of_bool (i_level i))
    OR push_bit 3 (of_bool (i_active i)) OR push_bit 4 (of_bool (i_group1 i)) OR push_bit 5 (of_bool (i_edge i))"

definition irq_img :: "irq \<Rightarrow> bytes" where
  "irq_img i = [irq_flags i, i_priority i] @ le_bytes 8 (i_router i)"

lemma irq_flags_bits:
  "drop_bit 6 (irq_flags i) = 0" "irq_flags i AND 1 \<noteq> 0 \<longleftrightarrow> i_enabled i" "irq_flags i AND 2 \<noteq> 0 \<longleftrightarrow> i_pending i"
  "irq_flags i AND 4 \<noteq> 0 \<longleftrightarrow> i_level i" "irq_flags i AND 8 \<noteq> 0 \<longleftrightarrow> i_active i"
  "irq_flags i AND 16 \<noteq> 0 \<longleftrightarrow> i_group1 i" "irq_flags i AND 32 \<noteq> 0 \<longleftrightarrow> i_edge i"
  unfolding irq_flags_def
  by (cases "i_enabled i"; cases "i_pending i"; cases "i_level i"; cases "i_active i"; cases "i_group1 i";
      cases "i_edge i"; simp)+

interpretation irqc: codec save_irq restore_irq irq_img 10
proof
  show "save_irq i w = w_raw (irq_img i) w" for i w
    by (simp add: save_irq_def irq_img_def irq_flags_def codec_simps)
  show "restore_irq (reader_at t pre (irq_img i @ xs)) = Inr (i, reader_at t (pre @ irq_img i) xs)" for t pre i xs
  proof -
    have "\<lparr>i_enabled = irq_flags i AND 1 \<noteq> 0, i_pending = irq_flags i AND 2 \<noteq> 0, i_level = irq_flags i AND 4 \<noteq> 0,
        i_active = irq_flags i AND 8 \<noteq> 0, i_group1 = irq_flags i AND 16 \<noteq> 0, i_edge = irq_flags i AND 32 \<noteq> 0,
        i_priority = i_priority i, i_router = i_router i\<rparr> = i"
      unfolding irq_flags_bits by simp
    then show ?thesis
      by (simp add: restore_irq_def irq_img_def codec_simps irq_flags_bits(1) del: One_nat_def)
  qed
  show "10 \<le> length (irq_img i)" for i by (simp add: irq_img_def)
qed

interpretation prioc: codec save_prio restore_prio "\<lambda>p. le_bytes 4 (fst p) @ [snd p]" 5
  by unfold_locales (simp_all add: save_prio_def restore_prio_def codec_simps)

definition cpuif_img :: "cpuif \<Rightarrow> bytes" where
  "cpuif_img c = [c_pmr c, c_bpr1 c, of_bool (c_igrpen1 c), of_bool (c_eoimode c)] @
    seq_img (\<lambda>p. le_bytes 4 (fst p) @ [snd p]) (c_active_prio c)"

lemma of_bool_byte: "(if b then 1 else 0) = (of_bool b :: u8)"
  by simp

lemma save_cpuif_img:
  "save_cpuif c False w = w_raw (cpuif_img c) w"
  "save_cpuif c True w = w_raw (of_bool (c_processor_sleep c) # cpuif_img c) w"
  by (simp_all add: save_cpuif_def cpuif_img_def prioc.write_seq codec_simps)

lemma restore_cpuif_at:
  assumes "length (c_active_prio c) < 2 ^ 64"
  shows "restore_cpuif c0 False (reader_at t pre (cpuif_img c @ xs)) =
      Inr (c\<lparr>c_processor_sleep := c_processor_sleep c0\<rparr>, reader_at t (pre @ cpuif_img c) xs)"
    "restore_cpuif c0 True (reader_at t pre (of_bool (c_processor_sleep c) # cpuif_img c @ xs)) =
      Inr (c, reader_at t (pre @ of_bool (c_processor_sleep c) # cpuif_img c) xs)"
  using assms by (simp_all add: restore_cpuif_def cpuif_img_def prioc.read_seq r_bool_of_bool codec_simps)

definition bank_img :: "irq list \<times> cpuif \<Rightarrow> bytes" where
  "bank_img bc = concat (map irq_img (fst bc)) @ of_bool (c_processor_sleep (snd bc)) # cpuif_img (snd bc)"

definition gic_banks :: "gic \<Rightarrow> (irq list \<times> cpuif) list" where
  "gic_banks g = zip (gic_banked g) (drop 1 (gic_cpus g))"

definition gic_img :: "gic \<Rightarrow> bytes" where
  "gic_img g = le_bytes 8 (of_nat (length (gic_irqs g)) :: u64) @ concat (map irq_img (gic_irqs g)) @
    le_bytes 4 (gicd_ctlr g) @ of_bool (c_processor_sleep (gic_cpus g ! 0)) # cpuif_img (gic_cpus g ! 0) @
    concat (map bank_img (gic_banks g))"

definition gic_fits :: "gic \<Rightarrow> gic \<Rightarrow> bool" where
  "gic_fits g0 g \<longleftrightarrow> gic_ok g0 \<and> gic_ok g \<and> length (gic_cpus g0) = length (gic_cpus g)"

lemma fold_save_irq: "fold save_irq is w = w_raw (concat (map irq_img is)) w"
  using fold_w_raw [of "is" save_irq irq_img] by (simp add: irqc.write_img)

lemma fold_save_bank: "fold save_bank bs w = w_raw (concat (map bank_img bs)) w"
  by (rule fold_w_raw) (simp add: save_bank_def bank_img_def fold_save_irq save_cpuif_img codec_simps)

lemma restore_banks_at:
  assumes "length bs0 = length bs"
    "\<And>k. k < length bs \<Longrightarrow> length (fst (bs0 ! k)) = length (fst (bs ! k)) \<and> cpuif_ok (snd (bs ! k))"
  shows "restore_banks bs0 (reader_at t pre (concat (map bank_img bs) @ xs)) =
    Inr (bs, reader_at t (pre @ concat (map bank_img bs)) xs)"
  using assms
proof (induction bs0 bs arbitrary: pre rule: list_induct2)
  case Nil
  then show ?case by simp
next
  case (Cons bc0 bs0 bc bs)
  obtain b0 c0 b c where bc: "bc0 = (b0, c0)" "bc = (b, c)" by (cases bc0; cases bc)
  have len: "length b0 = length b" and ok: "cpuif_ok c" using Cons.prems [of 0] by (simp_all add: bc)
  have c64: "length (c_active_prio c) < 2 ^ 64" using cpuif_ok_depth [OF ok] by simp
  have "length (fst (bs0 ! k)) = length (fst (bs ! k)) \<and> cpuif_ok (snd (bs ! k))" if "k < length bs" for k
    using Cons.prems [of "Suc k"] that by simp
  then have IH: "restore_banks bs0 (reader_at t pre' (concat (map bank_img bs) @ xs)) =
      Inr (bs, reader_at t (pre' @ concat (map bank_img bs)) xs)" for pre' by (rule Cons.IH)
  show ?case
    by (simp add: bc bank_img_def [of "(b, c)"] len irqc.read_times restore_cpuif_at(2) [OF c64] IH)
qed

interpretation gics: snapshot gic_save gic_restore gic_img gic_fits "\<lambda>g0 g. g\<lparr>gic_cur := gic_cur g0\<rparr>"
proof
  show "gic_save g w = w_raw (gic_img g) w" for g w
    by (simp add: gic_save_def gic_img_def gic_banks_def Let_def fold_save_irq fold_save_bank save_cpuif_img codec_simps
        of_bool_def)
  show "gic_img (g\<lparr>gic_cur := gic_cur g0\<rparr>) = gic_img g" for g g0
    by (simp add: gic_img_def gic_banks_def)
  show "gic_restore g0 (reader_at t pre (gic_img g @ xs)) =
      Inr (g\<lparr>gic_cur := gic_cur g0\<rparr>, reader_at t (pre @ gic_img g) xs)" if fits: "gic_fits g0 g" for g0 g t pre xs
  proof -
    have ok: "gic_ok g0" "gic_ok g" and len: "length (gic_cpus g0) = length (gic_cpus g)"
      using fits by (simp_all add: gic_fits_def)
    obtain c0 cs where cs: "gic_cpus g = c0 # cs" using ok(2) by (cases "gic_cpus g") (auto simp: gic_ok_def)
    have l: "length (gic_banked g) = length cs" "length (gic_banked g0) = length cs"
        "length (drop 1 (gic_cpus g0)) = length cs" "length (gic_irqs g0) = length (gic_irqs g)"
      using ok len cs by (simp_all add: gic_ok_def)
    have bs: "restore_banks (zip (gic_banked g0) (drop 1 (gic_cpus g0)))
        (reader_at t pre' (concat (map bank_img (gic_banks g)) @ xs)) =
        Inr (gic_banks g, reader_at t (pre' @ concat (map bank_img (gic_banks g))) xs)" for pre'
    proof (rule restore_banks_at)
      fix k assume "k < length (gic_banks g)"
      then have k: "k < length cs" using l by (simp add: gic_banks_def cs)
      then show "length (fst (zip (gic_banked g0) (drop 1 (gic_cpus g0)) ! k)) = length (fst (gic_banks g ! k)) \<and>
          cpuif_ok (snd (gic_banks g ! k))"
        using ok l by (simp add: gic_banks_def cs gic_ok_def)
    qed (use l len cs in \<open>simp add: gic_banks_def\<close>)
    have c0: "length (c_active_prio c0) < 2 ^ 64"
      using cpuif_ok_depth [of c0] ok(2) cs by (simp add: gic_ok_def)
    have "map fst (gic_banks g) = gic_banked g" "map snd (gic_banks g) = cs" "length (gic_banks g) = length cs"
      using l(1) by (simp_all add: gic_banks_def cs)
    moreover have "g0\<lparr>gic_irqs := gic_irqs g, gicd_ctlr := gicd_ctlr g, gic_cpus := c0 # cs,
        gic_banked := gic_banked g\<rparr> = g\<lparr>gic_cur := gic_cur g0\<rparr>"
      by (rule gic.equality) (simp_all add: cs)
    ultimately show ?thesis
      using l by (simp add: gic_restore_def gic_img_def codec_simps irqc.read_times r_bool_of_bool
          restore_cpuif_at(1) [OF c0] bs cs del: One_nat_def)
  qed
qed

end
