(* ===== verification/Guest_Ram.thy ===== *)
theory Guest_Ram
  imports Snapshot
begin

text \<open>
  Guest RAM as devices see it, \<^verbatim>\<open>crates/vetro-platform/src/virtio/mod.rs\<close>. The trait object
  \<^verbatim>\<open>dyn GuestRam\<close> is a record of its two operations, an argument of what uses it; \<^verbatim>\<open>VecRam\<close>, the
  implementation in the sources, is modelled too. The locale \<open>guest_ram_laws\<close> is what a device
  relies on, interpreted on \<^verbatim>\<open>VecRam\<close>.
\<close>

unbundle bit_operations_syntax

subsection \<open>Guest RAM\<close>

datatype ram_error = RamError (re_addr: u64) (re_len: nat)

record 'm guest_ram =
  ram_read :: "'m \<Rightarrow> u64 \<Rightarrow> nat \<Rightarrow> ram_error + bytes"
  ram_write :: "'m \<Rightarrow> u64 \<Rightarrow> bytes \<Rightarrow> (ram_error + unit) \<times> 'm"

definition read_u16 :: "'m guest_ram \<Rightarrow> 'm \<Rightarrow> u64 \<Rightarrow> ram_error + u16" where
  "read_u16 R m addr = rmap of_le (ram_read R m addr 2)"
definition read_u32 :: "'m guest_ram \<Rightarrow> 'm \<Rightarrow> u64 \<Rightarrow> ram_error + u32" where
  "read_u32 R m addr = rmap of_le (ram_read R m addr 4)"
definition read_u64 :: "'m guest_ram \<Rightarrow> 'm \<Rightarrow> u64 \<Rightarrow> ram_error + u64" where
  "read_u64 R m addr = rmap of_le (ram_read R m addr 8)"
definition write_u16 :: "'m guest_ram \<Rightarrow> 'm \<Rightarrow> u64 \<Rightarrow> u16 \<Rightarrow> (ram_error + unit) \<times> 'm" where
  "write_u16 R m addr v = ram_write R m addr (le_bytes 2 v)"
definition write_u32 :: "'m guest_ram \<Rightarrow> 'm \<Rightarrow> u64 \<Rightarrow> u32 \<Rightarrow> (ram_error + unit) \<times> 'm" where
  "write_u32 R m addr v = ram_write R m addr (le_bytes 4 v)"

record vec_ram =
  vr_base :: u64
  vr_bytes :: bytes

definition vec_ram_new :: "u64 \<Rightarrow> nat \<Rightarrow> vec_ram" where
  "vec_ram_new base sz = \<lparr>vr_base = base, vr_bytes = replicate sz 0\<rparr>"

definition vr_range :: "vec_ram \<Rightarrow> u64 \<Rightarrow> nat \<Rightarrow> ram_error + nat \<times> nat" where
  "vr_range m addr len =
    (if addr < vr_base m then Inl (RamError addr len)
     else let start = unat (addr - vr_base m); en = start + len
       in if 2 ^ 64 \<le> en then Inl (RamError addr len)
          else if length (vr_bytes m) < en then Inl (RamError addr len) else Inr (start, en))"

definition vec_ram_read :: "vec_ram \<Rightarrow> u64 \<Rightarrow> nat \<Rightarrow> ram_error + bytes" where
  "vec_ram_read m addr len = rmap (\<lambda>(a, b). take (b - a) (drop a (vr_bytes m))) (vr_range m addr len)"

definition vec_ram_write :: "vec_ram \<Rightarrow> u64 \<Rightarrow> bytes \<Rightarrow> (ram_error + unit) \<times> vec_ram" where
  "vec_ram_write m addr d = sbind (vr_range m addr (length d), m) (\<lambda>(a, b) m.
    (Inr (), m\<lparr>vr_bytes := take a (vr_bytes m) @ d @ drop b (vr_bytes m)\<rparr>))"

definition vec_ram_ops :: "vec_ram guest_ram" where
  "vec_ram_ops = \<lparr>ram_read = vec_ram_read, ram_write = vec_ram_write\<rparr>"

lemma of_le_zeros [simp]: "of_le (replicate n 0) = 0"
  by (induction n) simp_all

subsection \<open>The contract of guest RAM\<close>

text \<open>
  What the queue relies on of an implementation of \<^verbatim>\<open>GuestRam\<close>: a read gives the bytes asked for, a
  part of a readable range reads as that part, and a write changes the bytes it names and no others.
\<close>

definition over :: "u64 \<Rightarrow> bytes \<Rightarrow> u64 \<Rightarrow> bytes \<Rightarrow> bytes" where
  "over a d b x = map (\<lambda>i. let k = unat (b + of_nat i - a) in if k < length d then d ! k else x ! i) [0..<length x]"

locale guest_ram_laws =
  fixes R :: "'m guest_ram" and ok :: "'m \<Rightarrow> bool"
  assumes read_len: "ok m \<Longrightarrow> ram_read R m a n = Inr x \<Longrightarrow> length x = n"
    and read_sub: "ok m \<Longrightarrow> ram_read R m a n = Inr x \<Longrightarrow> i + k \<le> n \<Longrightarrow>
      ram_read R m (a + of_nat i) k = Inr (take k (drop i x))"
    and write_ok: "ok m \<Longrightarrow> ram_write R m a d = (r, m') \<Longrightarrow> ok m'"
    and write_read: "ok m \<Longrightarrow> ram_write R m a d = (Inr (), m') \<Longrightarrow> ram_read R m b n = Inr x \<Longrightarrow>
      ram_read R m' b n = Inr (over a d b x)"
    and write_fails: "ok m \<Longrightarrow> ram_write R m a d = (Inr (), m') \<Longrightarrow> ram_read R m b n = Inl e \<Longrightarrow>
      ram_read R m' b n = Inl e"
    and write_readable: "ok m \<Longrightarrow> ram_write R m a d = (Inr (), m') \<Longrightarrow> \<exists>x. ram_read R m a (length d) = Inr x"
begin

text \<open>Bytes at least \<open>length d\<close> past \<open>a\<close>, counting around the address space, are not touched.\<close>

lemma write_other:
  assumes "ok m" "ram_write R m a d = (Inr (), m')" "\<And>i. i < n \<Longrightarrow> length d \<le> unat (b + of_nat i - a)"
  shows "ram_read R m' b n = ram_read R m b n"
proof (cases "ram_read R m b n")
  case (Inl e)
  then show ?thesis using write_fails [OF assms(1,2)] by simp
next
  case (Inr x)
  have "\<not> unat (b + of_nat i - a) < length d" if "i < length x" for i
    using assms(3) [of i] that read_len [OF assms(1) Inr] by simp
  then have "over a d b x = x" by (intro nth_equalityI) (simp_all add: over_def Let_def)
  then show ?thesis using write_read [OF assms(1,2) Inr] Inr by simp
qed

lemma write_same:
  assumes "ok m" "ram_write R m a d = (Inr (), m')" "length d < 2 ^ 64"
  shows "ram_read R m' a (length d) = Inr d"
proof -
  obtain x where x: "ram_read R m a (length d) = Inr x" using write_readable [OF assms(1,2)] by blast
  have "over a d a x = d" using assms(3) read_len [OF assms(1) x]
    by (intro nth_equalityI) (auto simp: over_def Let_def unsigned_of_nat take_bit_nat_eq_self)
  then show ?thesis using write_read [OF assms(1,2) x] by simp
qed

end

text \<open>A \<^verbatim>\<open>VecRam\<close> that ends below the top of the address space keeps the contract.\<close>

definition vec_ram_ok :: "vec_ram \<Rightarrow> bool" where
  "vec_ram_ok m \<longleftrightarrow> unat (vr_base m) + length (vr_bytes m) < 2 ^ 64"

definition vr_fits :: "vec_ram \<Rightarrow> u64 \<Rightarrow> nat \<Rightarrow> bool" where
  "vr_fits m a n \<longleftrightarrow> vr_base m \<le> a \<and> unat (a - vr_base m) + n < 2 ^ 64 \<and>
    unat (a - vr_base m) + n \<le> length (vr_bytes m)"

lemma vr_range_eq:
  "vr_range m a n = (let s = unat (a - vr_base m) in if vr_fits m a n then Inr (s, s + n) else Inl (RamError a n))"
  by (auto simp: vr_range_def vr_fits_def Let_def not_less not_le)

lemma vec_ram_read_eq:
  "vec_ram_read m a n =
    (if vr_fits m a n then Inr (take n (drop (unat (a - vr_base m)) (vr_bytes m))) else Inl (RamError a n))"
  by (simp add: vec_ram_read_def vr_range_eq Let_def)

lemma vec_ram_write_eq:
  "vec_ram_write m a d = (let s = unat (a - vr_base m) in
    if vr_fits m a (length d) then (Inr (), m\<lparr>vr_bytes := take s (vr_bytes m) @ d @ drop (s + length d) (vr_bytes m)\<rparr>)
    else (Inl (RamError a (length d)), m))"
  by (simp add: vec_ram_write_def vr_range_eq Let_def)

lemma unat_of_nat64: "k < 2 ^ 64 \<Longrightarrow> unat (of_nat k :: u64) = k"
  by (simp add: unsigned_of_nat take_bit_nat_eq_self)

lemma unat_sub_of_nat:
  assumes "p < 2 ^ 64" "q < 2 ^ 64"
  shows "unat (of_nat p - of_nat q :: u64) = (if q \<le> p then p - q else 2 ^ 64 + p - q)"
proof (cases "q \<le> p")
  case True
  then have "of_nat p - of_nat q = (of_nat (p - q) :: u64)" by (simp add: of_nat_diff)
  then have "unat (of_nat p - of_nat q :: u64) = p - q" using assms by (simp only: unat_of_nat64 less_imp_diff_less)
  then show ?thesis using True by simp
next
  case False
  have "of_nat (2 ^ 64 + p - q) = (of_nat (2 ^ 64 + p) - of_nat q :: u64)" using assms by (intro of_nat_diff) simp
  also have "\<dots> = of_nat p - of_nat q" by simp
  finally have e: "of_nat (2 ^ 64 + p - q) = (of_nat p - of_nat q :: u64)" .
  have "2 ^ 64 + p - q < 2 ^ 64" using False assms by linarith
  from unat_of_nat64 [OF this] show ?thesis unfolding e using False by simp
qed

lemma vr_fits_part:
  assumes "vec_ram_ok m" "vr_fits m a n" "i + k \<le> n"
  shows "unat (a + of_nat i - vr_base m) = unat (a - vr_base m) + i" "vr_fits m (a + of_nat i) k"
proof -
  let ?s = "unat (a - vr_base m)"
  have s: "?s + n \<le> length (vr_bytes m)" "vr_base m \<le> a" "?s + n < 2 ^ 64" using assms(2) by (auto simp: vr_fits_def)
  have "a + of_nat i - vr_base m = of_nat (?s + i)" by simp
  moreover have "?s + i < 2 ^ 64" using s(3) assms(3) by linarith
  ultimately show u: "unat (a + of_nat i - vr_base m) = ?s + i" by (simp only: unat_of_nat64)
  have "unat (vr_base m) + ?s = unat a" using s(2) by (simp add: unat_sub word_le_nat_alt)
  then have "unat a + i < 2 ^ 64" using assms(1,3) s(1) by (simp add: vec_ram_ok_def)
  then have "unat (a + of_nat i) = unat a + i"
    using unat_of_nat64 [of i] unat_add_lem [of a "of_nat i"] by simp
  then have "vr_base m \<le> a + of_nat i" using s(2) by (simp add: word_le_nat_alt)
  then show "vr_fits m (a + of_nat i) k" using u s assms(3) by (simp add: vr_fits_def)
qed

lemma over_splice:
  assumes "unat (a - base) + length d \<le> length B \<and> unat (b - base) + n \<le> length B \<and> length B < 2 ^ 64"
    and "B' = take (unat (a - base)) B @ d @ drop (unat (a - base) + length d) B"
    and "x = take n (drop (unat (b - base)) B)"
  shows "take n (drop (unat (b - base)) B') = over a d b x"
proof (rule nth_equalityI)
  let ?s = "unat (a - base)" and ?t = "unat (b - base)"
  have B: "length B' = length B" using assms(1,2) by simp
  then have l: "length x = n" "length (take n (drop ?t B')) = n" using assms(1,3) by auto
  then show "length (take n (drop ?t B')) = length (over a d b x)" by (simp add: over_def)
  fix i assume "i < length (take n (drop ?t B'))"
  then have i: "i < n" using l by simp
  have e: "b + of_nat i - a = of_nat (?t + i) - of_nat ?s" by simp
  have k: "unat (b + of_nat i - a) = (if ?s \<le> ?t + i then ?t + i - ?s else 2 ^ 64 + (?t + i) - ?s)"
    unfolding e by (rule unat_sub_of_nat) (use assms(1) i in linarith)+
  have "B' ! (?t + i) = (if ?s \<le> ?t + i \<and> ?t + i < ?s + length d then d ! (?t + i - ?s) else B ! (?t + i))"
    using assms(1,2) i by (auto simp: nth_append min_def)
  moreover have "unat (b + of_nat i - a) < length d \<longleftrightarrow> ?s \<le> ?t + i \<and> ?t + i < ?s + length d"
    unfolding k using assms(1) i by auto
  ultimately show "take n (drop ?t B') ! i = over a d b x ! i"
    using i l assms(1,3) k by (auto simp: over_def Let_def)
qed

interpretation vram: guest_ram_laws vec_ram_ops vec_ram_ok
proof unfold_locales
  fix m m' :: vec_ram and a b :: u64 and n i k :: nat and x d :: bytes and e :: ram_error
  assume ok: "vec_ram_ok m"
  note defs = vec_ram_ops_def vec_ram_read_eq vec_ram_write_eq Let_def
  show "length x = n" if "ram_read vec_ram_ops m a n = Inr x"
    using that by (auto simp: defs vr_fits_def split: if_splits)
  show "ram_read vec_ram_ops m (a + of_nat i) k = Inr (take k (drop i x))"
    if "ram_read vec_ram_ops m a n = Inr x" "i + k \<le> n"
    using that vr_fits_part [OF ok, of a n i k]
    by (auto simp: defs drop_take add.commute min_def split: if_splits)
  show "vec_ram_ok m'" if "ram_write vec_ram_ops m a d = (r, m')" for r
    using that ok by (auto simp: defs vec_ram_ok_def vr_fits_def split: if_splits)
  assume w: "ram_write vec_ram_ops m a d = (Inr (), m')"
  let ?s = "unat (a - vr_base m)"
  have f: "vr_fits m a (length d)" "vr_base m' = vr_base m"
      "vr_bytes m' = take ?s (vr_bytes m) @ d @ drop (?s + length d) (vr_bytes m)"
    using w by (auto simp: defs split: if_splits)
  have len: "length (vr_bytes m') = length (vr_bytes m)" using f by (simp add: vr_fits_def)
  have fits: "vr_fits m' b n = vr_fits m b n" for b n using f(2) len by (simp add: vr_fits_def)
  show "\<exists>x. ram_read vec_ram_ops m a (length d) = Inr x" using f(1) by (simp add: defs)
  show "ram_read vec_ram_ops m' b n = Inl e" if "ram_read vec_ram_ops m b n = Inl e"
    using that fits by (auto simp: defs split: if_splits)
  show "ram_read vec_ram_ops m' b n = Inr (over a d b x)" if r: "ram_read vec_ram_ops m b n = Inr x"
  proof -
    let ?t = "unat (b - vr_base m)"
    have g: "vr_fits m b n" "x = take n (drop ?t (vr_bytes m))" using r by (auto simp: defs split: if_splits)
    have "take n (drop ?t (vr_bytes m')) = over a d b x"
      by (rule over_splice [OF _ f(3) g(2)]) (use f(1) g(1) ok in \<open>auto simp: vr_fits_def vec_ram_ok_def\<close>)
    then show ?thesis using fits g(1) f(2) by (simp add: defs)
  qed
qed

end
