(* ===== verification/Virtqueue.thy ===== *)
theory Virtqueue
  imports Guest_Ram
begin

text \<open>
  The split virtqueue, \<^verbatim>\<open>crates/vetro-platform/src/virtio/queue.rs\<close>: extracting descriptor chains,
  returning them through the used ring, notification and the snapshot of a queue. Address sums are
  64-bit and wrap, as in release builds.
\<close>

unbundle bit_operations_syntax

subsection \<open>Descriptor chains\<close>

definition DESC_F_NEXT :: u16 where "DESC_F_NEXT = 1"
definition DESC_F_WRITE :: u16 where "DESC_F_WRITE = 2"
definition DESC_F_INDIRECT :: u16 where "DESC_F_INDIRECT = 4"
definition AVAIL_F_NO_INTERRUPT :: u16 where "AVAIL_F_NO_INTERRUPT = 1"
definition MAX_QUEUE_SIZE :: u16 where "MAX_QUEUE_SIZE = 32768"

datatype queue_error =
    Ram ram_error
  | AvailIdx u16 u16
  | HeadOutOfRange u16
  | NextOutOfRange u16
  | ChainLoop
  | ReadableAfterWritable
  | IndirectNotNegotiated
  | IndirectLen u32
  | IndirectMisplaced
  | Malformed bytes

record buf =
  b_addr :: u64
  b_len :: u32

record desc_chain =
  ch_head :: u16
  ch_readable :: "buf list"
  ch_writable :: "buf list"

definition bufs_total :: "buf list \<Rightarrow> u64" where
  "bufs_total bs = sum_list (map (\<lambda>b. ucast (b_len b)) bs)"

fun for_each_piece ::
  "buf list \<Rightarrow> u64 \<Rightarrow> nat \<Rightarrow> nat \<Rightarrow> (u64 \<Rightarrow> nat \<Rightarrow> nat \<Rightarrow> 's \<Rightarrow> (ram_error + unit) \<times> 's) \<Rightarrow> 's \<Rightarrow> (ram_error + nat) \<times> 's" where
  "for_each_piece [] offset len fin f s = (Inr fin, s)"
| "for_each_piece (b # bs) offset len fin f s =
    (if fin = len then (Inr fin, s)
     else let blen = ucast (b_len b) :: u64
       in if blen \<le> offset then for_each_piece bs (offset - blen) len fin f s
          else let n = min (unat (blen - offset)) (len - fin)
            in sbind (case f (b_addr b + offset) fin (fin + n) s of (r, s) \<Rightarrow> (rmap (\<lambda>_. fin + n) r, s)) (\<lambda>fin s.
                 for_each_piece bs 0 len fin f s))"

definition readable_len :: "desc_chain \<Rightarrow> u64" where
  "readable_len c = bufs_total (ch_readable c)"

definition writable_len :: "desc_chain \<Rightarrow> u64" where
  "writable_len c = bufs_total (ch_writable c)"

definition chain_read :: "'m guest_ram \<Rightarrow> 'm \<Rightarrow> u64 \<Rightarrow> bytes \<Rightarrow> desc_chain \<Rightarrow> (ram_error + nat) \<times> bytes" where
  "chain_read R m offset out c =
    for_each_piece (ch_readable c) offset (length out) 0
      (\<lambda>addr a b out. sbind (ram_read R m addr (b - a), out) (\<lambda>d out. (Inr (), take a out @ d @ drop b out))) out"

definition chain_read_to_vec :: "'m guest_ram \<Rightarrow> 'm \<Rightarrow> u64 \<Rightarrow> desc_chain \<Rightarrow> ram_error + bytes" where
  "chain_read_to_vec R m offset c =
    (let rl = readable_len c; len = unat (if offset \<le> rl then rl - offset else 0)
     in case chain_read R m offset (replicate len 0) c of (r, out) \<Rightarrow> rmap (\<lambda>_. out) r)"

definition chain_write :: "'m guest_ram \<Rightarrow> 'm \<Rightarrow> u64 \<Rightarrow> bytes \<Rightarrow> desc_chain \<Rightarrow> (ram_error + nat) \<times> 'm" where
  "chain_write R m offset d c =
    for_each_piece (ch_writable c) offset (length d) 0
      (\<lambda>addr a b m. ram_write R m addr (take (b - a) (drop a d))) m"

record desc =
  d_addr :: u64
  d_len :: u32
  d_flags :: u16
  d_next :: u16

definition read_desc :: "'m guest_ram \<Rightarrow> 'm \<Rightarrow> u64 \<Rightarrow> u16 \<Rightarrow> ram_error + desc" where
  "read_desc R m table i = rmap (\<lambda>b.
      \<lparr>d_addr = of_le (take 8 b), d_len = of_le (take 4 (drop 8 b)), d_flags = of_le (take 2 (drop 12 b)),
       d_next = of_le (take 2 (drop 14 b))\<rparr>)
    (ram_read R m (table + 16 * ucast i) 16)"

definition need_event :: "u16 \<Rightarrow> u16 \<Rightarrow> u16 \<Rightarrow> bool" where
  "need_event event new old \<longleftrightarrow> new - event - 1 < new - old"

subsection \<open>The queue\<close>

record virtqueue =
  q_max_size :: u16
  q_size :: u16
  q_ready :: bool
  q_desc :: u64
  q_driver :: u64
  q_device :: u64
  q_last_avail :: u16
  q_used_idx :: u16
  q_signalled_used :: u16
  q_event_idx :: bool
  q_indirect :: bool

definition vq_new :: "u16 \<Rightarrow> virtqueue" where
  "vq_new n = \<lparr>q_max_size = n, q_size = n, q_ready = False, q_desc = 0, q_driver = 0, q_device = 0,
    q_last_avail = 0, q_used_idx = 0, q_signalled_used = 0, q_event_idx = False, q_indirect = False\<rparr>"

definition vq_reset :: "virtqueue \<Rightarrow> virtqueue" where
  "vq_reset q = vq_new (q_max_size q)"

definition pow2_u16 :: "u16 \<Rightarrow> bool" where
  "pow2_u16 n \<longleftrightarrow> n \<noteq> 0 \<and> n AND (n - 1) = 0"

definition set_ready :: "bool \<Rightarrow> virtqueue \<Rightarrow> virtqueue" where
  "set_ready ready q =
    (let valid = q_size q \<noteq> 0 \<and> pow2_u16 (q_size q) \<and> q_size q \<le> q_max_size q \<and> q_desc q mod 16 = 0 \<and>
           q_driver q mod 2 = 0 \<and> q_device q mod 4 = 0;
         q = q\<lparr>q_ready := ready \<and> valid\<rparr>
     in if q_ready q then q\<lparr>q_last_avail := 0, q_used_idx := 0, q_signalled_used := 0\<rparr> else q)"

definition avail_idx :: "'m guest_ram \<Rightarrow> 'm \<Rightarrow> virtqueue \<Rightarrow> queue_error + u16" where
  "avail_idx R m q = rbind (map_err Ram (read_u16 R m (q_driver q + 2))) (\<lambda>idx.
    if q_size q < idx - q_last_avail q then Inl (AvailIdx (q_last_avail q) idx) else Inr idx)"

definition available :: "'m guest_ram \<Rightarrow> 'm \<Rightarrow> virtqueue \<Rightarrow> queue_error + u16" where
  "available R m q = (if \<not> q_ready q then Inr 0 else rmap (\<lambda>idx. idx - q_last_avail q) (avail_idx R m q))"

definition publish_avail_event :: "'m guest_ram \<Rightarrow> 'm \<Rightarrow> virtqueue \<Rightarrow> (ram_error + unit) \<times> 'm" where
  "publish_avail_event R m q =
    (if q_event_idx q then write_u16 R m (q_device q + 4 + 8 * ucast (q_size q)) (q_last_avail q) else (Inr (), m))"

function vq_walk_loop ::
  "'m guest_ram \<Rightarrow> 'm \<Rightarrow> u64 \<Rightarrow> u16 \<Rightarrow> nat \<Rightarrow> desc \<Rightarrow> desc_chain \<Rightarrow> queue_error + desc_chain" where
  "vq_walk_loop R m table table_len visited d chain =
    (let visited = visited + 1
     in if unat table_len < visited then Inl ChainLoop
        else if d_flags d AND DESC_F_INDIRECT \<noteq> 0 then Inl IndirectMisplaced
        else let buf = \<lparr>b_addr = d_addr d, b_len = d_len d\<rparr>
          in rbind (if d_flags d AND DESC_F_WRITE \<noteq> 0 then Inr (chain\<lparr>ch_writable := ch_writable chain @ [buf]\<rparr>)
                    else if ch_writable chain = [] then Inr (chain\<lparr>ch_readable := ch_readable chain @ [buf]\<rparr>)
                    else Inl ReadableAfterWritable) (\<lambda>chain.
             if d_flags d AND DESC_F_NEXT = 0 then Inr chain
             else if table_len \<le> d_next d then Inl (NextOutOfRange (d_next d))
             else rbind (map_err Ram (read_desc R m table (d_next d))) (\<lambda>d.
               vq_walk_loop R m table table_len visited d chain)))"
  by pat_completeness auto
termination by (relation "measure (\<lambda>(R, m, table, table_len, visited, d, chain). Suc (unat table_len) - visited)") auto

definition walk :: "'m guest_ram \<Rightarrow> 'm \<Rightarrow> u16 \<Rightarrow> virtqueue \<Rightarrow> queue_error + desc_chain" where
  "walk R m head q =
    (if q_size q \<le> head then Inl (HeadOutOfRange head)
     else let chain = \<lparr>ch_head = head, ch_readable = [], ch_writable = []\<rparr>
       in rbind (map_err Ram (read_desc R m (q_desc q) head)) (\<lambda>d.
          if d_flags d AND DESC_F_INDIRECT \<noteq> 0
          then if \<not> q_indirect q then Inl IndirectNotNegotiated
            else if d_len d = 0 \<or> d_len d mod 16 \<noteq> 0 \<or> ucast MAX_QUEUE_SIZE < d_len d div 16
            then Inl (IndirectLen (d_len d))
            else rbind (map_err Ram (read_desc R m (d_addr d) 0)) (\<lambda>d'.
              vq_walk_loop R m (d_addr d) (ucast (d_len d div 16)) 0 d' chain)
          else vq_walk_loop R m (q_desc q) (q_size q) 0 d chain))"

definition pop :: "'m guest_ram \<Rightarrow> 'm \<Rightarrow> virtqueue \<Rightarrow> (queue_error + desc_chain option) \<times> virtqueue \<times> 'm" where
  "pop R m q =
    (if \<not> q_ready q then (Inr None, q, m)
     else sbind (avail_idx R m q, q, m) (\<lambda>avail (q, m).
       if avail = q_last_avail q
       then case publish_avail_event R m q of (r, m) \<Rightarrow> (rmap (\<lambda>_. None) (map_err Ram r), q, m)
       else let slot = ucast (q_last_avail q mod q_size q)
         in sbind (map_err Ram (read_u16 R m (q_driver q + 4 + 2 * slot)), q, m) (\<lambda>head (q, m).
            sbind (walk R m head q, q, m) (\<lambda>chain (q, m).
              let q = q\<lparr>q_last_avail := q_last_avail q + 1\<rparr>
              in case publish_avail_event R m q of (r, m) \<Rightarrow> (rmap (\<lambda>_. Some chain) (map_err Ram r), q, m)))))"

definition rewind :: "'m guest_ram \<Rightarrow> 'm \<Rightarrow> u16 \<Rightarrow> virtqueue \<Rightarrow> (ram_error + unit) \<times> virtqueue \<times> 'm" where
  "rewind R m n q =
    (let q = q\<lparr>q_last_avail := q_last_avail q - n\<rparr>
     in case publish_avail_event R m q of (r, m) \<Rightarrow> (r, q, m))"

definition push_used :: "'m guest_ram \<Rightarrow> 'm \<Rightarrow> u16 \<Rightarrow> u32 \<Rightarrow> virtqueue \<Rightarrow> (ram_error + unit) \<times> virtqueue \<times> 'm" where
  "push_used R m head len q =
    (let slot = ucast (q_used_idx q mod q_size q); elem = q_device q + 4 + 8 * slot
     in case sbind (write_u32 R m elem (ucast head)) (\<lambda>_ m. write_u32 R m (elem + 4) len) of
          (Inl e, m) \<Rightarrow> (Inl e, q, m)
        | (Inr _, m) \<Rightarrow>
            let q = q\<lparr>q_used_idx := q_used_idx q + 1\<rparr>
            in case write_u16 R m (q_device q + 2) (q_used_idx q) of (r, m) \<Rightarrow> (r, q, m))"

definition should_notify :: "'m guest_ram \<Rightarrow> 'm \<Rightarrow> virtqueue \<Rightarrow> (ram_error + bool) \<times> virtqueue" where
  "should_notify R m q =
    (let old = q_signalled_used q; new = q_used_idx q
     in if \<not> q_ready q \<or> old = new then (Inr False, q)
        else let q = q\<lparr>q_signalled_used := new\<rparr>
          in if q_event_idx q
             then (rmap (\<lambda>event. need_event event new old) (read_u16 R m (q_driver q + 4 + 2 * ucast (q_size q))), q)
             else (rmap (\<lambda>fl. fl AND AVAIL_F_NO_INTERRUPT = 0) (read_u16 R m (q_driver q)), q))"

definition vq_save :: "virtqueue \<Rightarrow> writer \<Rightarrow> writer" where
  "vq_save q w =
    w_bool (q_indirect q) (w_bool (q_event_idx q) (w_u16 (q_signalled_used q) (w_u16 (q_used_idx q)
      (w_u16 (q_last_avail q) (w_u64 (q_device q) (w_u64 (q_driver q) (w_u64 (q_desc q) (w_bool (q_ready q)
        (w_u16 (q_size q) (w_u16 (q_max_size q) w))))))))))"

definition vq_restore :: "virtqueue \<Rightarrow> reader \<Rightarrow> snap_error + virtqueue \<times> reader" where
  "vq_restore q r = rbind (r_u16 r) (\<lambda>(mx, r).
    if mx \<noteq> q_max_size q
    then Inl (Invalid (''queue of '' @ dec (unat mx) @ '' in the snapshot, '' @ dec (unat (q_max_size q)) @ '' in the device''))
    else rbind (r_u16 r) (\<lambda>(size, r). rbind (r_bool r) (\<lambda>(ready, r). rbind (r_u64 r) (\<lambda>(desc, r).
      rbind (r_u64 r) (\<lambda>(driver, r). rbind (r_u64 r) (\<lambda>(device, r). rbind (r_u16 r) (\<lambda>(la, r).
      rbind (r_u16 r) (\<lambda>(ui, r). rbind (r_u16 r) (\<lambda>(su, r). rbind (r_bool r) (\<lambda>(ev, r).
      rbind (r_bool r) (\<lambda>(ind, r).
        Inr (q\<lparr>q_size := size, q_ready := ready, q_desc := desc, q_driver := driver, q_device := device,
          q_last_avail := la, q_used_idx := ui, q_signalled_used := su, q_event_idx := ev,
          q_indirect := ind\<rparr>, r))))))))))))"

definition save_buf :: "buf \<Rightarrow> writer \<Rightarrow> writer" where
  "save_buf b w = w_u32 (b_len b) (w_u64 (b_addr b) w)"

definition restore_buf :: "buf read" where
  "restore_buf r = rbind (r_u64 r) (\<lambda>(a, r). rbind (r_u32 r) (\<lambda>(l, r). Inr (\<lparr>b_addr = a, b_len = l\<rparr>, r)))"

definition chain_save :: "desc_chain \<Rightarrow> writer \<Rightarrow> writer" where
  "chain_save c w = w_seq save_buf (ch_writable c) (w_seq save_buf (ch_readable c) (w_u16 (ch_head c) w))"

definition chain_restore :: "desc_chain read" where
  "chain_restore r = rbind (r_u16 r) (\<lambda>(h, r). rbind (r_seq 12 restore_buf r) (\<lambda>(rd, r).
    rbind (r_seq 12 restore_buf r) (\<lambda>(wr, r). Inr (\<lparr>ch_head = h, ch_readable = rd, ch_writable = wr\<rparr>, r))))"

declare vq_walk_loop.simps [simp del]

subsection \<open>What a chain is\<close>

text \<open>
  A chain as the specification describes it: descriptors linked by \<open>next\<close> inside the table, the
  last without the NEXT flag, first those the device reads, then those it writes.
\<close>

abbreviation has_next :: "desc \<Rightarrow> bool" where "has_next d \<equiv> d_flags d AND DESC_F_NEXT \<noteq> 0"
abbreviation is_write :: "desc \<Rightarrow> bool" where "is_write d \<equiv> d_flags d AND DESC_F_WRITE \<noteq> 0"
abbreviation is_indirect :: "desc \<Rightarrow> bool" where "is_indirect d \<equiv> d_flags d AND DESC_F_INDIRECT \<noteq> 0"

definition desc_buf :: "desc \<Rightarrow> buf" where
  "desc_buf d = \<lparr>b_addr = d_addr d, b_len = d_len d\<rparr>"

fun linked :: "'m guest_ram \<Rightarrow> 'm \<Rightarrow> u64 \<Rightarrow> u16 \<Rightarrow> desc list \<Rightarrow> bool" where
  "linked R m table n [] \<longleftrightarrow> False"
| "linked R m table n [d] \<longleftrightarrow> \<not> has_next d"
| "linked R m table n (d # d' # ds) \<longleftrightarrow> has_next d \<and> d_next d < n \<and> read_desc R m table (d_next d) = Inr d' \<and>
    linked R m table n (d' # ds)"

definition chain_of :: "u16 \<Rightarrow> desc list \<Rightarrow> desc list \<Rightarrow> desc_chain" where
  "chain_of head rs ws = \<lparr>ch_head = head, ch_readable = map desc_buf rs, ch_writable = map desc_buf ws\<rparr>"

definition table_chain :: "'m guest_ram \<Rightarrow> 'm \<Rightarrow> u64 \<Rightarrow> u16 \<Rightarrow> desc \<Rightarrow> u16 \<Rightarrow> desc_chain \<Rightarrow> bool" where
  "table_chain R m table n d head c \<longleftrightarrow> (\<exists>rs ws. linked R m table n (rs @ ws) \<and> hd (rs @ ws) = d \<and>
    length (rs @ ws) \<le> unat n \<and> (\<forall>x \<in> set (rs @ ws). \<not> is_indirect x) \<and> (\<forall>x \<in> set rs. \<not> is_write x) \<and>
    (\<forall>x \<in> set ws. is_write x) \<and> c = chain_of head rs ws)"

fun add_descs :: "desc_chain \<Rightarrow> desc list \<Rightarrow> desc_chain option" where
  "add_descs c [] = Some c"
| "add_descs c (d # ds) =
    (if is_write d then add_descs (c\<lparr>ch_writable := ch_writable c @ [desc_buf d]\<rparr>) ds
     else if ch_writable c = [] then add_descs (c\<lparr>ch_readable := ch_readable c @ [desc_buf d]\<rparr>) ds
     else None)"

lemma add_descs_writes:
  "add_descs c ds = Some c' \<Longrightarrow> ch_writable c \<noteq> [] \<Longrightarrow>
    (\<forall>x \<in> set ds. is_write x) \<and> c' = c\<lparr>ch_writable := ch_writable c @ map desc_buf ds\<rparr>"
proof (induction ds arbitrary: c)
  case (Cons d ds)
  then show ?case using Cons.IH [of "c\<lparr>ch_writable := ch_writable c @ [desc_buf d]\<rparr>"] by (simp split: if_splits)
qed simp

lemma add_descs_reads:
  "add_descs c ds = Some c' \<Longrightarrow> ch_writable c = [] \<Longrightarrow>
    \<exists>rs ws. ds = rs @ ws \<and> (\<forall>x \<in> set rs. \<not> is_write x) \<and> (\<forall>x \<in> set ws. is_write x) \<and>
      c' = c\<lparr>ch_readable := ch_readable c @ map desc_buf rs, ch_writable := map desc_buf ws\<rparr>"
proof (induction ds arbitrary: c)
  case Nil
  then show ?case by (intro exI [of _ "[]"]) simp
next
  case (Cons d ds)
  show ?case
  proof (cases "is_write d")
    case True
    then have "(\<forall>x \<in> set ds. is_write x) \<and> c' = c\<lparr>ch_writable := desc_buf d # map desc_buf ds\<rparr>"
      using Cons.prems add_descs_writes [of "c\<lparr>ch_writable := [desc_buf d]\<rparr>" ds c'] by simp
    then show ?thesis using True by (intro exI [of _ "[]"] exI [of _ "d # ds"]) simp
  next
    case False
    then obtain rs ws where "ds = rs @ ws" "\<forall>x \<in> set rs. \<not> is_write x" "\<forall>x \<in> set ws. is_write x"
        "c' = c\<lparr>ch_readable := ch_readable c @ desc_buf d # map desc_buf rs, ch_writable := map desc_buf ws\<rparr>"
      using Cons.IH [of "c\<lparr>ch_readable := ch_readable c @ [desc_buf d]\<rparr>"] Cons.prems by auto
    then show ?thesis using False by (intro exI [of _ "d # rs"] exI [of _ ws]) simp
  qed
qed

lemma add_descs_split:
  assumes "\<forall>x \<in> set rs. \<not> is_write x" "\<forall>x \<in> set ws. is_write x" "ch_writable c = []"
  shows "add_descs c (rs @ ws) = Some (c\<lparr>ch_readable := ch_readable c @ map desc_buf rs, ch_writable := map desc_buf ws\<rparr>)"
proof -
  have w: "add_descs c ws = Some (c\<lparr>ch_writable := ch_writable c @ map desc_buf ws\<rparr>)" for c
    using assms(2) by (induction ws arbitrary: c) simp_all
  show ?thesis using assms(1,3) by (induction rs arbitrary: c) (simp_all add: w)
qed

lemma walk_loop_exact:
  "vq_walk_loop R m table n v d c = Inr c' \<longleftrightarrow>
    (\<exists>ds. linked R m table n ds \<and> hd ds = d \<and> v + length ds \<le> unat n \<and> (\<forall>x \<in> set ds. \<not> is_indirect x) \<and>
      add_descs c ds = Some c')" (is "?L v d c \<longleftrightarrow> ?R v d c")
proof (induction "unat n - v" arbitrary: v d c rule: less_induct)
  case less
  define c1 where "c1 = (if is_write d then Some (c\<lparr>ch_writable := ch_writable c @ [desc_buf d]\<rparr>)
    else if ch_writable c = [] then Some (c\<lparr>ch_readable := ch_readable c @ [desc_buf d]\<rparr>) else None)"
  have step: "?L v d c \<longleftrightarrow> v < unat n \<and> \<not> is_indirect d \<and> (\<exists>c2. c1 = Some c2 \<and>
      (if has_next d then d_next d < n \<and> (\<exists>d'. read_desc R m table (d_next d) = Inr d' \<and> ?L (Suc v) d' c2)
       else c' = c2))"
    by (subst vq_walk_loop.simps) (auto simp: Let_def c1_def desc_buf_def rbind_Inr_iff not_less)
  have add: "add_descs c (d # ds) = Some c' \<longleftrightarrow> (\<exists>c2. c1 = Some c2 \<and> add_descs c2 ds = Some c')" for ds
    by (simp add: c1_def)
  have ne: "linked R m table n ds \<Longrightarrow> ds \<noteq> []" for ds by auto
  have hd1: "?R v d c \<longleftrightarrow> (\<exists>ds. linked R m table n (d # ds) \<and> v + Suc (length ds) \<le> unat n \<and>
      (\<forall>x \<in> set (d # ds). \<not> is_indirect x) \<and> add_descs c (d # ds) = Some c')" (is "_ \<longleftrightarrow> ?H")
  proof
    assume "?R v d c"
    then obtain ds where ds: "linked R m table n ds" "hd ds = d" "v + length ds \<le> unat n"
        "\<forall>x \<in> set ds. \<not> is_indirect x" "add_descs c ds = Some c'" by blast
    then obtain es where "ds = d # es" using ne by (cases ds) auto
    then show ?H using ds by (intro exI [of _ es]) simp
  next
    assume ?H
    then obtain ds where "linked R m table n (d # ds)" "v + Suc (length ds) \<le> unat n"
        "\<forall>x \<in> set (d # ds). \<not> is_indirect x" "add_descs c (d # ds) = Some c'" by blast
    then show "?R v d c" by (intro exI [of _ "d # ds"]) simp
  qed
  show ?case
  proof (cases "v < unat n \<and> has_next d")
    case False
    have lk: "linked R m table n (d # ds) \<longleftrightarrow> \<not> has_next d \<and> ds = []" if "\<not> has_next d" for ds
      using that by (cases ds) auto
    show ?thesis
    proof (cases "has_next d")
      case True
      then show ?thesis using False unfolding step hd1 by auto
    next
      case nn: False
      show ?thesis unfolding step hd1 lk [OF nn] add using nn by auto
    qed
  next
    case True
    have IH: "?L (Suc v) d' c2 \<longleftrightarrow> ?R (Suc v) d' c2" for d' c2
      by (rule less) (use True in linarith)
    have lk: "linked R m table n (d # ds) \<longleftrightarrow> ds \<noteq> [] \<and> d_next d < n \<and>
        read_desc R m table (d_next d) = Inr (hd ds) \<and> linked R m table n ds" for ds
      using True by (cases ds) auto
    have len: "v + Suc k \<le> unat n \<longleftrightarrow> Suc v + k \<le> unat n" for k by simp
    show ?thesis unfolding step hd1 IH add lk len using True ne by (simp only: simp_thms if_True list.set ball_simps) blast
  qed
qed

lemma walk_loop_table_chain:
  "vq_walk_loop R m table n 0 d \<lparr>ch_head = head, ch_readable = [], ch_writable = []\<rparr> = Inr c \<longleftrightarrow>
    table_chain R m table n d head c" (is "?L \<longleftrightarrow> ?R")
proof
  let ?c = "\<lparr>ch_head = head, ch_readable = [], ch_writable = []\<rparr>"
  assume ?L
  then obtain ds where ds: "linked R m table n ds" "hd ds = d" "length ds \<le> unat n"
      "\<forall>x \<in> set ds. \<not> is_indirect x" "add_descs ?c ds = Some c" unfolding walk_loop_exact by auto
  then obtain rs ws where "ds = rs @ ws" "\<forall>x \<in> set rs. \<not> is_write x" "\<forall>x \<in> set ws. is_write x"
      "c = chain_of head rs ws" using add_descs_reads [OF ds(5)] by (auto simp: chain_of_def)
  then show ?R unfolding table_chain_def using ds(1-4) by blast
next
  assume ?R
  then obtain rs ws where h: "linked R m table n (rs @ ws)" "hd (rs @ ws) = d" "length (rs @ ws) \<le> unat n"
      "\<forall>x \<in> set (rs @ ws). \<not> is_indirect x" and
      w: "\<forall>x \<in> set rs. \<not> is_write x" "\<forall>x \<in> set ws. is_write x" "c = chain_of head rs ws"
    unfolding table_chain_def by blast
  have "add_descs \<lparr>ch_head = head, ch_readable = [], ch_writable = []\<rparr> (rs @ ws) = Some c"
    using add_descs_split [OF w(1,2)] w(3) by (simp add: chain_of_def)
  then show ?L unfolding walk_loop_exact using h by (intro exI [of _ "rs @ ws"]) simp
qed

lemma walk_accepts:
  "walk R m head q = Inr c \<longleftrightarrow> head < q_size q \<and> (\<exists>d. read_desc R m (q_desc q) head = Inr d \<and>
    (if is_indirect d
     then q_indirect q \<and> d_len d \<noteq> 0 \<and> d_len d mod 16 = 0 \<and> d_len d div 16 \<le> ucast MAX_QUEUE_SIZE \<and>
       (\<exists>d'. read_desc R m (d_addr d) 0 = Inr d' \<and>
         table_chain R m (d_addr d) (ucast (d_len d div 16)) d' head c)
     else table_chain R m (q_desc q) (q_size q) d head c))"
proof (cases "head < q_size q")
  case True
  show ?thesis
  proof (cases "read_desc R m (q_desc q) head")
    case (Inr d)
    note t = walk_loop_table_chain
    show ?thesis
    proof (cases "is_indirect d \<and> q_indirect q")
      case ind: True
      show ?thesis
      proof (cases "d_len d = 0 \<or> d_len d mod 16 \<noteq> 0 \<or> ucast MAX_QUEUE_SIZE < d_len d div 16")
        case bad: True
        then show ?thesis using True Inr ind by (auto simp add: walk_def not_le)
      next
        case False
        have "\<not> q_size q \<le> head" "d_len d div 16 \<le> ucast MAX_QUEUE_SIZE" using True False by (auto simp: not_le not_less)
        then show ?thesis using True Inr ind False by (simp add: walk_def t rbind_Inr_iff)
      qed
    qed (use True Inr in \<open>auto simp add: walk_def t\<close>)
  qed (use True in \<open>simp add: walk_def\<close>)
qed (simp add: walk_def not_less)

text \<open>
  C7. Extracting a chain accepts exactly the chains of the specification: for every content of
  guest memory, a chain is returned if and only if the head (or the indirect table the head names,
  when negotiated, with a size that is a non-zero multiple of 16 and at most the maximum) starts a
  sequence of linked descriptors no longer than its table, without further indirection and with
  the readable ones first, and the buffers returned are those descriptors' in order.
\<close>

theorem walk_exact:
  "walk R m head q = Inr c \<longleftrightarrow> head < q_size q \<and> (\<exists>d. read_desc R m (q_desc q) head = Inr d \<and>
    (if is_indirect d
     then q_indirect q \<and> d_len d \<noteq> 0 \<and> d_len d mod 16 = 0 \<and> d_len d div 16 \<le> ucast MAX_QUEUE_SIZE \<and>
       (\<exists>d'. read_desc R m (d_addr d) 0 = Inr d' \<and>
         table_chain R m (d_addr d) (ucast (d_len d div 16)) d' head c)
     else table_chain R m (q_desc q) (q_size q) d head c))"
  by (rule walk_accepts)

subsection \<open>Loops in a chain\<close>

text \<open>Indices of descriptors that follow one another from \<open>i\<close>, all of them in the table after the first.\<close>

fun index_path :: "'m guest_ram \<Rightarrow> 'm \<Rightarrow> u64 \<Rightarrow> u16 \<Rightarrow> u16 list \<Rightarrow> bool" where
  "index_path R m table n [] \<longleftrightarrow> False"
| "index_path R m table n [i] \<longleftrightarrow> True"
| "index_path R m table n (i # j # is) \<longleftrightarrow>
    (\<exists>d. read_desc R m table i = Inr d \<and> has_next d \<and> d_next d = j) \<and> j < n \<and> index_path R m table n (j # is)"

lemma walk_loop_ChainLoop:
  "vq_walk_loop R m table n v d c = Inl ChainLoop \<Longrightarrow> read_desc R m table i = Inr d \<Longrightarrow> v \<le> unat n \<Longrightarrow>
    \<exists>is. index_path R m table n is \<and> hd is = i \<and> v + length is = Suc (unat n)"
proof (induction "unat n - v" arbitrary: v d c i rule: less_induct)
  case less
  show ?case
  proof (cases "v = unat n")
    case True
    then show ?thesis by (intro exI [of _ "[i]"]) simp
  next
    case False
    then have v: "v < unat n" using less.prems(3) by simp
    have "has_next d \<and> d_next d < n \<and> (\<exists>d' c'. read_desc R m table (d_next d) = Inr d' \<and>
        vq_walk_loop R m table n (Suc v) d' c' = Inl ChainLoop)"
      using less.prems(1) v by (subst (asm) vq_walk_loop.simps) (auto simp: Let_def rbind_Inl_iff map_err_Inl_iff split: if_splits)
    then obtain d' c' where n: "has_next d" "d_next d < n" "read_desc R m table (d_next d) = Inr d'"
        "vq_walk_loop R m table n (Suc v) d' c' = Inl ChainLoop" by blast
    obtain "is" where p: "index_path R m table n is" "hd is = d_next d" "Suc v + length is = Suc (unat n)"
      using less.hyps [OF _ n(4) n(3)] v by force
    then obtain js where "is = d_next d # js" by (cases "is") auto
    then show ?thesis using p n less.prems(2) by (intro exI [of _ "i # is"]) simp
  qed
qed

lemma index_path_bound: "index_path R m table n is \<Longrightarrow> hd is < n \<Longrightarrow> set is \<subseteq> {..<n}"
  by (induction R m table n "is" rule: index_path.induct) auto

text \<open>Two positions of a path over the table's indices name the same descriptor: the links loop.\<close>

definition chain_cycles :: "'m guest_ram \<Rightarrow> 'm \<Rightarrow> u64 \<Rightarrow> u16 \<Rightarrow> u16 \<Rightarrow> bool" where
  "chain_cycles R m table n i \<longleftrightarrow> (\<exists>is. index_path R m table n is \<and> hd is = i \<and> \<not> distinct is)"

lemma card_u16_below: "card {..<n::u16} = unat n"
proof -
  have "unat ` {..<n} = {..<unat n}"
  proof (rule set_eqI)
    fix k
    have "k \<in> unat ` {..<n}" if "k < unat n"
    proof -
      have "unat n < 2 ^ LENGTH(16)" by (rule unsigned_less)
      then have "k < 2 ^ 16" using that by simp
      then have "unat (of_nat k :: u16) = k" by (simp add: unsigned_of_nat take_bit_nat_eq_self)
      then show ?thesis using that by (intro image_eqI [of _ _ "of_nat k"]) (simp_all add: word_less_nat_alt)
    qed
    then show "k \<in> unat ` {..<n} \<longleftrightarrow> k \<in> {..<unat n}" by (auto simp: word_less_nat_alt)
  qed
  moreover have "inj_on unat {..<n}" by (auto intro: inj_onI simp: unsigned_word_eqI)
  ultimately show ?thesis by (metis card_image card_lessThan)
qed

lemma long_index_path_cycles:
  assumes "index_path R m table n is" "hd is < n" "unat n < length is"
  shows "\<not> distinct is"
proof
  assume "distinct is"
  then have "length is = card (set is)" by (simp add: distinct_card)
  also have "\<dots> \<le> card {..<n}" using index_path_bound [OF assms(1,2)] by (intro card_mono) auto
  finally show False using assms(3) by (simp add: card_u16_below)
qed

lemma index_path_split:
  "index_path R m table n (xs @ a # ys) \<longleftrightarrow> index_path R m table n (xs @ [a]) \<and> index_path R m table n (a # ys)"
proof (induction xs)
  case (Cons x xs)
  then show ?case by (cases xs) auto
qed simp

lemma cycle_pumps:
  assumes "index_path R m table n (xs @ a # ys @ a # zs)"
  shows "\<exists>ps. index_path R m table n (ps @ [a]) \<and> hd (ps @ [a]) = hd (xs @ [a]) \<and> k \<le> length ps"
proof (induction k)
  case 0
  then show ?case using assms index_path_split [of R m table n xs a "ys @ a # zs"] by (intro exI [of _ xs]) simp
next
  case (Suc k)
  then obtain ps where ps: "index_path R m table n (ps @ [a])" "hd (ps @ [a]) = hd (xs @ [a])" "k \<le> length ps" by blast
  have "index_path R m table n (a # ys @ [a])"
    using assms index_path_split [of R m table n xs a "ys @ a # zs"] index_path_split [of R m table n "a # ys" a zs] by simp
  then have "index_path R m table n ((ps @ a # ys) @ [a])"
    using ps(1) index_path_split [of R m table n ps a "ys @ [a]"] by simp
  moreover have "hd ((ps @ a # ys) @ [a]) = hd (xs @ [a])" using ps(2) by (cases ps) auto
  ultimately show ?case using ps(3) by (intro exI [of _ "ps @ a # ys"]) simp
qed

lemma linked_bounds_path:
  "linked R m table n ds \<Longrightarrow> read_desc R m table (hd is) = Inr (hd ds) \<Longrightarrow> index_path R m table n is \<Longrightarrow>
    length is \<le> length ds"
proof (induction R m table n ds arbitrary: "is" rule: linked.induct)
  case (2 R m table n d)
  then show ?case by (cases "(R, m, table, n, is)" rule: index_path.cases) auto
next
  case (3 R m table n d d' ds)
  then show ?case using "3.IH" [of "tl is"] by (cases "(R, m, table, n, is)" rule: index_path.cases) auto
qed simp

lemma linked_not_cycles:
  assumes "linked R m table n ds" "read_desc R m table i = Inr (hd ds)"
  shows "\<not> chain_cycles R m table n i"
proof
  assume "chain_cycles R m table n i"
  then obtain "is" where p: "index_path R m table n is" "hd is = i" "\<not> distinct is" unfolding chain_cycles_def by blast
  obtain xs ys zs a where s: "is = xs @ [a] @ ys @ [a] @ zs" using p(3) by (auto dest: not_distinct_decomp)
  obtain ps where "index_path R m table n (ps @ [a])" "hd (ps @ [a]) = hd (xs @ [a])" "length ds \<le> length ps"
    using cycle_pumps [of R m table n xs a ys zs "length ds"] p(1) s by auto
  moreover have "hd (xs @ [a]) = i" using p(2) s by (cases xs) auto
  ultimately show False using linked_bounds_path [OF assms(1), of "ps @ [a]"] assms(2) by simp
qed

text \<open>The table a chain runs in and the index it starts at.\<close>

definition chain_table :: "virtqueue \<Rightarrow> desc \<Rightarrow> u16 \<Rightarrow> u64 \<times> u16 \<times> u16" where
  "chain_table q d head =
    (if is_indirect d then (d_addr d, ucast (d_len d div 16), 0) else (q_desc q, q_size q, head))"

lemma walk_loop_start_cycles:
  assumes "vq_walk_loop R m table n 0 d c = Inl ChainLoop" "read_desc R m table i = Inr d" "i < n"
  shows "chain_cycles R m table n i"
proof -
  obtain "is" where "index_path R m table n is" "hd is = i" "length is = Suc (unat n)"
    using walk_loop_ChainLoop [OF assms(1,2)] by auto
  then show ?thesis using long_index_path_cycles [of R m table n "is"] assms(3) unfolding chain_cycles_def by auto
qed

lemma indirect_table_nonempty:
  assumes "d_len d \<noteq> 0" "d_len d mod 16 = 0" "\<not> ucast MAX_QUEUE_SIZE < d_len d div 16"
  shows "0 < (ucast (d_len d div 16) :: u16)"
proof -
  have le: "unat (d_len d div 16) \<le> 32768"
    using assms(3) by (simp add: word_less_nat_alt MAX_QUEUE_SIZE_def not_less)
  have "unat (d_len d) mod 16 = 0" using arg_cong [OF assms(2), of unat] by (simp add: unat_mod)
  moreover have "unat (d_len d) \<noteq> 0" using assms(1) by (simp add: unsigned_eq_0_iff)
  ultimately have "0 < unat (d_len d) div 16" by (auto simp: dvd_eq_mod_eq_0 [symmetric] elim: dvdE)
  then have "0 < unat (d_len d div 16)" by (simp add: unat_div)
  then show ?thesis using le by (simp add: word_less_nat_alt unsigned_ucast_eq take_bit_nat_eq_self)
qed

text \<open>
  C35. Extracting a chain ends for every content of guest memory, and its answer about loops is
  the truth: when it reports a looping chain, following the links from the start of the chain's
  table does visit some descriptor twice, and when the links do loop no chain is ever returned.
\<close>

theorem walk_loops_exact:
  assumes "read_desc R m (q_desc q) head = Inr d" "chain_table q d head = (table, n, i)"
  shows "(walk R m head q = Inl ChainLoop \<longrightarrow> chain_cycles R m table n i) \<and>
    (chain_cycles R m table n i \<longrightarrow> (\<exists>e. walk R m head q = Inl e))"
proof (intro conjI impI)
  assume w: "walk R m head q = Inl ChainLoop"
  have hd: "\<not> q_size q \<le> head" using w by (auto simp: walk_def split: if_splits)
  show "chain_cycles R m table n i"
  proof (cases "is_indirect d")
    case True
    then have t: "table = d_addr d" "n = ucast (d_len d div 16)" "i = 0" using assms(2) by (auto simp: chain_table_def)
    from w True assms(1) hd obtain d' where l:
        "d_len d \<noteq> 0" "d_len d mod 16 = 0" "\<not> ucast MAX_QUEUE_SIZE < d_len d div 16"
        "read_desc R m (d_addr d) 0 = Inr d'"
        "vq_walk_loop R m (d_addr d) (ucast (d_len d div 16)) 0 d' \<lparr>ch_head = head, ch_readable = [], ch_writable = []\<rparr> = Inl ChainLoop"
      by (auto simp: walk_def rbind_Inl_iff map_err_Inl_iff split: if_splits)
    show ?thesis unfolding t by (rule walk_loop_start_cycles [OF l(5,4) indirect_table_nonempty [OF l(1-3)]])
  next
    case False
    then have t: "table = q_desc q" "n = q_size q" "i = head" using assms(2) by (auto simp: chain_table_def)
    show ?thesis unfolding t
      by (rule walk_loop_start_cycles [OF _ assms(1)]) (use w False assms(1) hd in \<open>auto simp: walk_def not_le\<close>)
  qed
next
  assume cyc: "chain_cycles R m table n i"
  have no: False if "walk R m head q = Inr c" for c
  proof -
    have "\<exists>ds. linked R m table n ds \<and> read_desc R m table i = Inr (hd ds)"
      using that assms unfolding walk_accepts table_chain_def by (auto simp: chain_table_def split: if_splits)
    then obtain ds where "linked R m table n ds" "read_desc R m table i = Inr (hd ds)" by (elim exE conjE)
    from linked_not_cycles [OF this] cyc show False by simp
  qed
  then show "\<exists>e. walk R m head q = Inl e" by (cases "walk R m head q") auto
qed

text \<open>A ring of two descriptors that name each other, in 64 bytes of RAM.\<close>

definition loop_ram :: vec_ram where
  "loop_ram = \<lparr>vr_base = 0x1000, vr_bytes =
    replicate 12 0 @ [1, 0, 1, 0] @ replicate 12 0 @ [1, 0, 0, 0] @ replicate 32 0\<rparr>"

definition loop_queue :: virtqueue where
  "loop_queue = (vq_new 2)\<lparr>q_desc := 0x1000, q_ready := True\<rparr>"

lemma loop_ram_read:
  "read_desc vec_ram_ops loop_ram 0x1000 0 = Inr \<lparr>d_addr = 0, d_len = 0, d_flags = 1, d_next = 1\<rparr>"
  "read_desc vec_ram_ops loop_ram 0x1000 1 = Inr \<lparr>d_addr = 0, d_len = 0, d_flags = 1, d_next = 0\<rparr>"
  by (simp_all add: read_desc_def vec_ram_ops_def vec_ram_read_def vr_range_def loop_ram_def)

lemma loop_ram_walk: "walk vec_ram_ops loop_ram 0 loop_queue = Inl ChainLoop"
  by (simp add: walk_def loop_queue_def vq_new_def loop_ram_read vq_walk_loop.simps word_le_nat_alt
      DESC_F_INDIRECT_def DESC_F_WRITE_def DESC_F_NEXT_def)

theorem walk_loops_exact_witness:
  "walk vec_ram_ops loop_ram 0 loop_queue = Inl ChainLoop \<and> chain_cycles vec_ram_ops loop_ram 0x1000 2 0"
  using walk_loops_exact [where R = vec_ram_ops and m = loop_ram and q = loop_queue and head = 0 and i = 0 and table = "0x1000" and n = 2]
    loop_ram_walk loop_ram_read(1)
  by (simp add: chain_table_def loop_queue_def vq_new_def DESC_F_INDIRECT_def)

subsection \<open>The used ring\<close>

definition used_elem :: "virtqueue \<Rightarrow> u64" where
  "used_elem q = q_device q + 4 + 8 * ucast (q_used_idx q mod q_size q)"

lemma used_elem_offsets:
  "\<exists>s < 2 ^ 16. used_elem q = q_device q + 2 + of_nat (2 + 8 * s)"
proof (intro exI conjI)
  let ?w = "q_used_idx q mod q_size q"
  have "unat ?w < 2 ^ LENGTH(16)" by (rule unsigned_less)
  then show "unat ?w < 2 ^ 16" by simp
  show "used_elem q = q_device q + 2 + of_nat (2 + 8 * unat ?w)" by (simp add: used_elem_def)
qed

context guest_ram_laws
begin

lemma push_used_effect:
  assumes ok: "ok m" and p: "push_used R m head len q = (Inr (), q', m')"
  shows "q' = q\<lparr>q_used_idx := q_used_idx q + 1\<rparr>" "ok m'"
    "read_u32 R m' (used_elem q) = Inr (ucast head)" "read_u32 R m' (used_elem q + 4) = Inr len"
    "read_u16 R m' (q_device q + 2) = Inr (q_used_idx q + 1)"
    "(\<And>i. i < n \<Longrightarrow> 8 \<le> unat (b + of_nat i - used_elem q) \<and> 2 \<le> unat (b + of_nat i - (q_device q + 2))) \<Longrightarrow>
      ram_read R m' b n = ram_read R m b n"
proof -
  let ?e = "used_elem q" and ?x = "q_device q + 2"
  obtain m1 m2 where w: "write_u32 R m ?e (ucast head) = (Inr (), m1)" "write_u32 R m1 (?e + 4) len = (Inr (), m2)"
      "write_u16 R m2 ?x (q_used_idx q + 1) = (Inr (), m')" and q': "q' = q\<lparr>q_used_idx := q_used_idx q + 1\<rparr>"
    using p by (auto simp: push_used_def used_elem_def Let_def sbind_Inr_iff split: prod.splits sum.splits)
  show "q' = q\<lparr>q_used_idx := q_used_idx q + 1\<rparr>" by (rule q')
  note w' = w [unfolded write_u32_def write_u16_def]
  have ok': "ok m1" "ok m2" "ok m'" using write_ok w' ok by blast+
  then show "ok m'" by simp
  obtain s where s: "s < 2 ^ 16" "?e = ?x + of_nat (2 + 8 * s)" using used_elem_offsets by blast
  have far: "unat (?e + of_nat i - ?x) = 2 + 8 * s + i" if "i < 8" for i
  proof -
    have "?e + of_nat i - ?x = of_nat (2 + 8 * s + i)" unfolding s(2) by simp
    moreover have "2 + 8 * s + i < 2 ^ 64" using s(1) that by simp
    ultimately show ?thesis by (simp only: unat_of_nat64)
  qed
  have "ram_read R m' ?x 2 = Inr (le_bytes 2 (q_used_idx q + 1))" using write_same [OF ok'(2) w'(3)] by simp
  then show "read_u16 R m' ?x = Inr (q_used_idx q + 1)" by (simp add: read_u16_def)
  have last: "ram_read R m' (?e + of_nat j) 4 = ram_read R m2 (?e + of_nat j) 4" if "j \<le> 4" for j
  proof (rule write_other [OF ok'(2) w'(3)])
    fix i :: nat assume "i < 4"
    then show "length (le_bytes 2 (q_used_idx q + 1)) \<le> unat (?e + of_nat j + of_nat i - ?x)"
      using far [of "j + i"] that by (simp add: ac_simps)
  qed
  have "ram_read R m2 (?e + 4) 4 = Inr (le_bytes 4 len)" using write_same [OF ok'(1) w'(2)] by simp
  then show "read_u32 R m' (?e + 4) = Inr len" using last [of 4] by (simp add: read_u32_def)
  have "ram_read R m2 ?e 4 = ram_read R m1 ?e 4"
  proof (rule write_other [OF ok'(1) w'(2)])
    fix i :: nat assume i: "i < 4"
    have "?e + of_nat i - (?e + 4) = of_nat i - of_nat 4" by simp
    then show "length (le_bytes 4 len) \<le> unat (?e + of_nat i - (?e + 4))"
      using i unat_sub_of_nat [of i 4] by (simp only: length_le_bytes) simp
  qed
  then show "read_u32 R m' ?e = Inr (ucast head)"
    using last [of 0] write_same [OF ok w'(1)] by (simp add: read_u32_def)
  show "ram_read R m' b n = ram_read R m b n"
    if "\<And>i. i < n \<Longrightarrow> 8 \<le> unat (b + of_nat i - ?e) \<and> 2 \<le> unat (b + of_nat i - ?x)"
  proof -
    have o: "4 \<le> unat (b + of_nat i - (?e + 4))" if "i < n" for i
    proof -
      let ?z = "b + of_nat i - ?e"
      have "8 \<le> unat ?z" using \<open>\<And>i. i < n \<Longrightarrow> 8 \<le> unat (b + of_nat i - ?e) \<and> 2 \<le> unat (b + of_nat i - ?x)\<close> that by blast
      moreover from this have "unat (?z - 4) = unat ?z - 4" by (subst unat_sub) (simp_all add: word_le_nat_alt)
      ultimately have "4 \<le> unat (?z - 4)" by simp
      moreover have e: "b + of_nat i - (?e + 4) = ?z - 4" by simp
      ultimately show ?thesis by (simp only: e)
    qed
    have "ram_read R m' b n = ram_read R m2 b n" using that by (intro write_other [OF ok'(2) w'(3)]) simp
    also have "\<dots> = ram_read R m1 b n" using o by (intro write_other [OF ok'(1) w'(2)]) simp
    also have "\<dots> = ram_read R m b n" using that by (intro write_other [OF ok w'(1)]) fastforce
    finally show ?thesis .
  qed
qed

end

text \<open>
  C36. A chain returned to the driver is visible as the specification lays the used ring out: the
  entry at the old index, modulo the queue size, holds the head and the length, the index in memory
  and in the device are one more, wrapping at 16 bits, and no other byte of guest memory changes.
  The RAM is any that keeps the contract \<open>guest_ram_laws\<close>.
\<close>

theorem push_used_visible:
  assumes "guest_ram_laws R ok" "ok m" "q_size q \<noteq> 0" "push_used R m head len q = (Inr (), q', m')"
  shows "q' = q\<lparr>q_used_idx := q_used_idx q + 1\<rparr> \<and> ok m' \<and>
    read_u32 R m' (used_elem q) = Inr (ucast head) \<and> read_u32 R m' (used_elem q + 4) = Inr len \<and>
    read_u16 R m' (q_device q + 2) = Inr (q_used_idx q + 1) \<and>
    (\<forall>b n. (\<forall>i < n. 8 \<le> unat (b + of_nat i - used_elem q) \<and> 2 \<le> unat (b + of_nat i - (q_device q + 2))) \<longrightarrow>
      ram_read R m' b n = ram_read R m b n)"
  using guest_ram_laws.push_used_effect [OF assms(1,2,4)] by blast

definition used_queue :: virtqueue where
  "used_queue = (vq_new 2)\<lparr>q_device := 0x1000, q_used_idx := 0xffff\<rparr>"

theorem push_used_visible_witness:
  "\<exists>m'. push_used vec_ram_ops (vec_ram_new 0x1000 20) 1 7 used_queue = (Inr (), used_queue\<lparr>q_used_idx := 0\<rparr>, m') \<and>
    read_u32 vec_ram_ops m' 0x100c = Inr 1 \<and> read_u32 vec_ram_ops m' 0x1010 = Inr 7 \<and>
    read_u16 vec_ram_ops m' 0x1002 = Inr 0"
proof -
  let ?m = "vec_ram_new 0x1000 20"
  have "fst (push_used vec_ram_ops ?m 1 7 used_queue) = Inr ()"
    by (simp add: push_used_def used_queue_def vq_new_def write_u32_def write_u16_def vec_ram_ops_def
        vec_ram_write_eq vr_fits_def vec_ram_new_def)
  then obtain q' m' where p: "push_used vec_ram_ops ?m 1 7 used_queue = (Inr (), q', m')" by (metis prod.collapse)
  have "vec_ram_ok ?m" "q_size used_queue \<noteq> 0" by (simp_all add: vec_ram_ok_def vec_ram_new_def used_queue_def vq_new_def)
  from push_used_visible [OF vram.guest_ram_laws_axioms this p] p show ?thesis
    by (intro exI [of _ m']) (simp add: used_queue_def used_elem_def vq_new_def)
qed

subsection \<open>A chain as one run of bytes\<close>

text \<open>The contents of the buffers, when all of them can be read.\<close>

definition bufs_hold :: "'m guest_ram \<Rightarrow> 'm \<Rightarrow> buf list \<Rightarrow> bytes list \<Rightarrow> bool" where
  "bufs_hold R m = list_all2 (\<lambda>b x. ram_read R m (b_addr b) (unat (b_len b)) = Inr x)"

text \<open>What lands in the destination: bytes of the view from \<open>off\<close>, placed at \<open>fin\<close>.\<close>

definition landed :: "bytes \<Rightarrow> nat \<Rightarrow> nat \<Rightarrow> bytes \<Rightarrow> nat \<times> bytes" where
  "landed view off fin out = (let n = min (length out - fin) (length view - off)
    in (fin + n, take fin out @ take n (drop off view) @ drop (fin + n) out))"

lemma landed_past: "length x \<le> off \<Longrightarrow> landed (x @ v) off fin out = landed v (off - length x) fin out"
proof -
  assume "length x \<le> off"
  then have "length (x @ v) - off = length v - (off - length x)" "drop off (x @ v) = drop (off - length x) v" by simp_all
  then show ?thesis unfolding landed_def by (simp only:)
qed

lemma landed_full: "length out \<le> fin \<Longrightarrow> landed v off fin out = (fin, out)"
  by (simp add: landed_def)

lemma landed_piece:
  assumes "off < length x" "fin \<le> length out" "k = min (length x - off) (length out - fin)"
  shows "landed (x @ v) off fin out =
    landed v 0 (fin + k) (take fin out @ take k (drop off x) @ drop (fin + k) out)"
proof -
  define p o1 n where "p = take k (drop off x)" and "o1 = take fin out @ p @ drop (fin + k) out"
    and "n = min (length out - (fin + k)) (length v)"
  have fk: "fin + k \<le> length out" and lp: "length p = k" using assms by (simp_all add: p_def)
  have o1: "length o1 = length out" "take (fin + k) o1 = take fin out @ p" "drop (fin + k + n) o1 = drop (fin + k + n) out"
    using fk lp by (simp_all add: o1_def ac_simps)
  have n: "min (length out - fin) (length (x @ v) - off) = k + n" using assms unfolding n_def by (auto simp: min_def)
  have "take (k + n) (drop off (x @ v)) = p @ take n v"
  proof (cases "length x - off \<le> length out - fin")
    case True
    then show ?thesis using assms(1,3) by (simp add: p_def min_def take_add)
  next
    case False
    then have "n = 0" "k = length out - fin" using assms(2,3) by (simp_all add: n_def)
    then show ?thesis using False by (simp add: p_def)
  qed
  then have "landed (x @ v) off fin out = (fin + (k + n), take fin out @ (p @ take n v) @ drop (fin + (k + n)) out)"
    unfolding landed_def Let_def n by simp
  moreover have "landed v 0 (fin + k) o1 = (fin + k + n, take (fin + k) o1 @ take n v @ drop (fin + k + n) o1)"
    by (simp add: landed_def Let_def o1(1) n_def)
  ultimately show ?thesis using o1(2,3) by (simp add: o1_def [symmetric] p_def [symmetric] add.assoc)
qed

context guest_ram_laws
begin

lemma for_each_piece_reads:
  assumes "ok m" "bufs_hold R m bs xs" "fin \<le> length out"
  shows "for_each_piece bs off (length out) fin
      (\<lambda>addr a b out. sbind (ram_read R m addr (b - a), out) (\<lambda>d out. (Inr (), take a out @ d @ drop b out))) out =
    apfst Inr (landed (concat xs) (unat off) fin out)"
  using assms(2,3) unfolding bufs_hold_def
proof (induction arbitrary: off fin out rule: list_all2_induct)
  case Nil
  then show ?case by (simp add: landed_def)
next
  case (Cons b bs x xs)
  have x: "length x = unat (b_len b)" using read_len [OF assms(1) Cons.hyps(1)] .
  let ?bl = "ucast (b_len b) :: u64"
  have bl: "unat ?bl = length x" using x by (simp add: unat_ucast_up)
  consider (full) "fin = length out" | (past) "fin \<noteq> length out" "?bl \<le> off" | (piece) "fin \<noteq> length out" "\<not> ?bl \<le> off"
    by auto
  then show ?case
  proof cases
    case full
    then show ?thesis by (simp add: landed_full)
  next
    case past
    then have "unat (off - ?bl) = unat off - length x" "length x \<le> unat off"
      using bl by (simp_all add: unat_sub word_le_nat_alt)
    then show ?thesis using past Cons.IH [of fin out "off - ?bl"] Cons.prems by (simp add: landed_past)
  next
    case piece
    then have lt: "unat off < length x" "unat (?bl - off) = length x - unat off"
      using bl by (simp_all add: unat_sub word_le_nat_alt not_le)
    define k where "k = min (length x - unat off) (length out - fin)"
    have "ram_read R m (b_addr b + of_nat (unat off)) k = Inr (take k (drop (unat off) x))"
      using read_sub [OF assms(1) Cons.hyps(1), of "unat off" k] lt(1) x k_def by simp
    then have rd: "ram_read R m (b_addr b + off) k = Inr (take k (drop (unat off) x))" by simp
    let ?o = "take fin out @ take k (drop (unat off) x) @ drop (fin + k) out"
    have o: "length ?o = length out" "fin + k \<le> length ?o" using lt(1) k_def Cons.prems by auto
    show ?thesis
      using piece lt(2) rd Cons.IH [OF o(2), of 0, unfolded o(1)] landed_piece [OF lt(1) Cons.prems k_def, of "concat xs"]
      by (simp add: k_def [symmetric] del: append_assoc)
  qed
qed

end

lemma bufs_total_length:
  "ok m \<Longrightarrow> bufs_hold R m bs xs \<Longrightarrow> guest_ram_laws R ok \<Longrightarrow> bufs_total bs = of_nat (length (concat xs))"
proof -
  assume ok: "ok m" and h: "bufs_hold R m bs xs" and laws: "guest_ram_laws R ok"
  from h show ?thesis unfolding bufs_hold_def
  proof (induction rule: list_all2_induct)
    case (Cons b bs x xs)
    have "length x = unat (b_len b)" by (rule guest_ram_laws.read_len [OF laws ok Cons.hyps(1)])
    then show ?case using Cons.IH by (simp add: bufs_total_def)
  qed (simp add: bufs_total_def)
qed

text \<open>
  The readable part of a chain is one contiguous run of bytes, however the driver split it
  into buffers: when the buffers can be read and hold \<open>xs\<close>, a read at any offset copies the bytes
  of their concatenation from there, as many as there are and as the destination holds, leaves the
  rest of the destination, and reading all of it gives exactly what follows the offset.
\<close>

theorem chain_read_contiguous:
  assumes "guest_ram_laws R ok" "ok m" "bufs_hold R m (ch_readable c) xs" "length (concat xs) < 2 ^ 64"
  shows "chain_read R m off out c = (let n = min (length out) (length (concat xs) - unat off)
      in (Inr n, take n (drop (unat off) (concat xs)) @ drop n out)) \<and>
    chain_read_to_vec R m off c = Inr (drop (unat off) (concat xs))"
proof -
  let ?v = "concat xs"
  have rd: "chain_read R m off out c = apfst Inr (landed ?v (unat off) 0 out)" for out
    unfolding chain_read_def by (rule guest_ram_laws.for_each_piece_reads [OF assms(1-3)]) simp
  have rl: "unat (readable_len c) = length ?v"
    unfolding readable_len_def bufs_total_length [where R = R and ok = ok, OF assms(2,3,1)] using assms(4) by (rule unat_of_nat64)
  have "(if off \<le> readable_len c then unat (readable_len c - off) else 0) = length ?v - unat off"
    using rl by (simp add: word_le_nat_alt unat_sub)
  then have "chain_read_to_vec R m off c = Inr (drop (unat off) ?v)"
    unfolding chain_read_to_vec_def Let_def rd if_distrib [of unat] unsigned_0 by (simp only: landed_def) simp
  then show ?thesis using rd [of out] by (simp add: landed_def Let_def)
qed

definition split_chain :: desc_chain where
  "split_chain = \<lparr>ch_head = 0, ch_readable = [\<lparr>b_addr = 0x1002, b_len = 2\<rparr>, \<lparr>b_addr = 0x1000, b_len = 1\<rparr>], ch_writable = []\<rparr>"

subsection \<open>Notification\<close>

lemma need_event_exact: "need_event event new old \<longleftrightarrow> event - old < new - old"
proof -
  let ?a = "new - old" and ?b = "event - old"
  have e: "new - event - 1 = ?a - ?b - 1" by simp
  have "a - b - 1 < a \<longleftrightarrow> b < a" for a b :: u16
  proof -
    have "unat a < 2 ^ LENGTH(16)" "unat b < 2 ^ LENGTH(16)" by (rule unsigned_less)+
    then show ?thesis by (auto simp add: word_less_nat_alt word_le_nat_alt unat_sub_if_size word_size)
  qed
  from this [of ?a ?b] show ?thesis unfolding need_event_def e .
qed

lemma should_notify_event:
  assumes "q_ready q" "q_event_idx q" "q_signalled_used q \<noteq> q_used_idx q"
    and "read_u16 R m (q_driver q + 4 + 2 * ucast (q_size q)) = Inr event"
  shows "should_notify R m q = (Inr (event - q_signalled_used q < q_used_idx q - q_signalled_used q),
    q\<lparr>q_signalled_used := q_used_idx q\<rparr>)"
  using assms by (simp add: should_notify_def need_event_exact Let_def)

subsection \<open>The snapshot of a queue\<close>

definition vq_img :: "virtqueue \<Rightarrow> bytes" where
  "vq_img q = le_bytes 2 (q_max_size q) @ le_bytes 2 (q_size q) @ [of_bool (q_ready q)] @ le_bytes 8 (q_desc q) @
    le_bytes 8 (q_driver q) @ le_bytes 8 (q_device q) @ le_bytes 2 (q_last_avail q) @ le_bytes 2 (q_used_idx q) @
    le_bytes 2 (q_signalled_used q) @ [of_bool (q_event_idx q), of_bool (q_indirect q)]"

interpretation vqs: snapshot vq_save vq_restore vq_img "\<lambda>q0 q. q_max_size q0 = q_max_size q" "\<lambda>q0 q. q"
proof
  show "vq_save q w = w_raw (vq_img q) w" for q w by (simp add: vq_save_def vq_img_def codec_simps)
  show "vq_restore q0 (reader_at t pre (vq_img q @ xs)) = Inr (q, reader_at t (pre @ vq_img q) xs)"
    if "q_max_size q0 = q_max_size q" for q0 q t pre xs
    using that by (simp add: vq_restore_def vq_img_def codec_simps r_bool_of_bool del: of_bool_eq_iff)
qed simp

interpretation bufc: codec save_buf restore_buf "\<lambda>b. le_bytes 8 (b_addr b) @ le_bytes 4 (b_len b)" 12
  by unfold_locales (simp_all add: save_buf_def restore_buf_def codec_simps)

end
