(* ===== verification/Virtio_Mmio.thy ===== *)
theory Virtio_Mmio
  imports Virtqueue Mmio_Bus
begin

text \<open>
  The virtio-mmio transport, \<^verbatim>\<open>crates/vetro-platform/src/virtio/mmio.rs\<close>, with the registers, the device
  trait and the empty slot of \<^verbatim>\<open>virtio/mod.rs\<close>. The trait object \<^verbatim>\<open>dyn VirtioDevice\<close> is a record of its
  methods over the device's state, an argument of the operations that call it. A device's
  \<^verbatim>\<open>service\<close> loops over queues the guest fills: \<open>None\<close> stands for not returning.
\<close>

subsection \<open>Registers and bits\<close>

definition VM_MAGIC_VALUE :: u64 where "VM_MAGIC_VALUE = 0x0"
definition VM_VERSION :: u64 where "VM_VERSION = 0x4"
definition VM_DEVICE_ID :: u64 where "VM_DEVICE_ID = 0x8"
definition VM_VENDOR_ID :: u64 where "VM_VENDOR_ID = 0xc"
definition DEVICE_FEATURES :: u64 where "DEVICE_FEATURES = 0x10"
definition DEVICE_FEATURES_SEL :: u64 where "DEVICE_FEATURES_SEL = 0x14"
definition DRIVER_FEATURES :: u64 where "DRIVER_FEATURES = 0x20"
definition DRIVER_FEATURES_SEL :: u64 where "DRIVER_FEATURES_SEL = 0x24"
definition QUEUE_SEL :: u64 where "QUEUE_SEL = 0x30"
definition QUEUE_NUM_MAX :: u64 where "QUEUE_NUM_MAX = 0x34"
definition QUEUE_NUM :: u64 where "QUEUE_NUM = 0x38"
definition QUEUE_READY :: u64 where "QUEUE_READY = 0x44"
definition QUEUE_NOTIFY :: u64 where "QUEUE_NOTIFY = 0x50"
definition INTERRUPT_STATUS :: u64 where "INTERRUPT_STATUS = 0x60"
definition INTERRUPT_ACK :: u64 where "INTERRUPT_ACK = 0x64"
definition VM_STATUS :: u64 where "VM_STATUS = 0x70"
definition QUEUE_DESC_LOW :: u64 where "QUEUE_DESC_LOW = 0x80"
definition QUEUE_DESC_HIGH :: u64 where "QUEUE_DESC_HIGH = 0x84"
definition QUEUE_DRIVER_LOW :: u64 where "QUEUE_DRIVER_LOW = 0x90"
definition QUEUE_DRIVER_HIGH :: u64 where "QUEUE_DRIVER_HIGH = 0x94"
definition QUEUE_DEVICE_LOW :: u64 where "QUEUE_DEVICE_LOW = 0xa0"
definition QUEUE_DEVICE_HIGH :: u64 where "QUEUE_DEVICE_HIGH = 0xa4"
definition SHM_SEL :: u64 where "SHM_SEL = 0xac"
definition SHM_LEN_LOW :: u64 where "SHM_LEN_LOW = 0xb0"
definition SHM_LEN_HIGH :: u64 where "SHM_LEN_HIGH = 0xb4"
definition SHM_BASE_LOW :: u64 where "SHM_BASE_LOW = 0xb8"
definition SHM_BASE_HIGH :: u64 where "SHM_BASE_HIGH = 0xbc"
definition CONFIG_GENERATION :: u64 where "CONFIG_GENERATION = 0xfc"
definition VM_CONFIG :: u64 where "VM_CONFIG = 0x100"
definition VM_MAGIC :: u32 where "VM_MAGIC = 0x74726976"
definition VM_VENDOR :: u32 where "VM_VENDOR = 0x554d4551"
definition STATUS_ACKNOWLEDGE :: u32 where "STATUS_ACKNOWLEDGE = 0x1"
definition STATUS_DRIVER :: u32 where "STATUS_DRIVER = 0x2"
definition STATUS_DRIVER_OK :: u32 where "STATUS_DRIVER_OK = 0x4"
definition STATUS_FEATURES_OK :: u32 where "STATUS_FEATURES_OK = 0x8"
definition STATUS_DEVICE_NEEDS_RESET :: u32 where "STATUS_DEVICE_NEEDS_RESET = 0x40"
definition STATUS_FAILED :: u32 where "STATUS_FAILED = 0x80"
definition INT_VRING :: u32 where "INT_VRING = 0x1"
definition INT_CONFIG :: u32 where "INT_CONFIG = 0x2"
definition F_INDIRECT_DESC :: u64 where "F_INDIRECT_DESC = 0x10000000"
definition F_EVENT_IDX :: u64 where "F_EVENT_IDX = 0x20000000"
definition F_VERSION_1 :: u64 where "F_VERSION_1 = 0x100000000"
definition ID_NET :: u32 where "ID_NET = 0x1"
definition ID_BLOCK :: u32 where "ID_BLOCK = 0x2"
definition ID_CONSOLE :: u32 where "ID_CONSOLE = 0x3"
definition ID_GPU :: u32 where "ID_GPU = 0x10"
definition ID_INPUT :: u32 where "ID_INPUT = 0x12"
definition ID_VSOCK :: u32 where "ID_VSOCK = 0x13"

lemmas vm_consts = VM_MAGIC_VALUE_def VM_VERSION_def VM_DEVICE_ID_def VM_VENDOR_ID_def DEVICE_FEATURES_def
  DEVICE_FEATURES_SEL_def DRIVER_FEATURES_def DRIVER_FEATURES_SEL_def QUEUE_SEL_def QUEUE_NUM_MAX_def
  QUEUE_NUM_def QUEUE_READY_def QUEUE_NOTIFY_def INTERRUPT_STATUS_def INTERRUPT_ACK_def VM_STATUS_def
  QUEUE_DESC_LOW_def QUEUE_DESC_HIGH_def QUEUE_DRIVER_LOW_def QUEUE_DRIVER_HIGH_def QUEUE_DEVICE_LOW_def
  QUEUE_DEVICE_HIGH_def SHM_SEL_def SHM_LEN_LOW_def SHM_LEN_HIGH_def SHM_BASE_LOW_def SHM_BASE_HIGH_def
  CONFIG_GENERATION_def VM_CONFIG_def VM_MAGIC_def VM_VENDOR_def STATUS_ACKNOWLEDGE_def STATUS_DRIVER_def
  STATUS_DRIVER_OK_def STATUS_FEATURES_OK_def STATUS_DEVICE_NEEDS_RESET_def STATUS_FAILED_def INT_VRING_def
  INT_CONFIG_def F_INDIRECT_DESC_def F_EVENT_IDX_def F_VERSION_1_def ID_NET_def ID_BLOCK_def ID_CONSOLE_def
  ID_GPU_def ID_INPUT_def ID_VSOCK_def

subsection \<open>The device behind the transport\<close>

record 'm service_ctx =
  cx_queues :: "virtqueue list"
  cx_ram :: 'm
  cx_features :: u64
  cx_config_changed :: bool

definition config_changed :: "'m service_ctx \<Rightarrow> 'm service_ctx" where
  "config_changed cx = cx\<lparr>cx_config_changed := True\<rparr>"

record ('d, 'm) virtio_device =
  vd_device_id :: "'d \<Rightarrow> u32"
  vd_features :: "'d \<Rightarrow> u64"
  vd_queue_max_sizes :: "'d \<Rightarrow> u16 list"
  vd_read_config :: "u64 \<Rightarrow> nat \<Rightarrow> 'd \<Rightarrow> bytes"
  vd_write_config :: "u64 \<Rightarrow> bytes \<Rightarrow> 'd \<Rightarrow> 'd"
  vd_negotiate :: "u64 \<Rightarrow> 'd \<Rightarrow> bool \<times> 'd"
  vd_reset :: "'d \<Rightarrow> 'd"
  vd_service :: "'m service_ctx \<Rightarrow> 'd \<Rightarrow> ((queue_error + unit) \<times> 'd \<times> 'm service_ctx) option"
  vd_save_state :: "'d \<Rightarrow> writer \<Rightarrow> writer"
  vd_restore_state :: "'d \<Rightarrow> reader \<Rightarrow> snap_error + 'd \<times> reader"

definition read_config_bytes :: "bytes \<Rightarrow> u64 \<Rightarrow> nat \<Rightarrow> bytes" where
  "read_config_bytes cfg offset n =
    map (\<lambda>i. if unat offset + i < length cfg then cfg ! (unat offset + i) else 0) [0..<n]"

text \<open>\<^verbatim>\<open>VirtioMmioEmpty\<close>: a slot without a device.\<close>

definition empty_read :: "u64 \<Rightarrow> u8 \<Rightarrow> u64" where
  "empty_read offset sz =
    (let reg = offset AND NOT 3;
         word = if reg = VM_MAGIC_VALUE then VM_MAGIC else if reg = VM_VERSION then 2 else 0
     in if 4 < sz then 0 else sub_word word offset sz)"

subsection \<open>The transport\<close>

record 'd virtio_mmio =
  vm_device :: "'d option"
  vm_queues :: "virtqueue list"
  vm_removed :: u64
  vm_device_features_sel :: u32
  vm_driver_features_sel :: u32
  vm_driver_features :: u64
  vm_queue_sel :: u32
  vm_interrupt_status :: u32
  vm_status :: u32
  vm_config_generation :: u32
  vm_last_error :: "queue_error option"

definition vm_empty :: "'d virtio_mmio" where
  "vm_empty = \<lparr>vm_device = None, vm_queues = [], vm_removed = 0, vm_device_features_sel = 0,
    vm_driver_features_sel = 0, vm_driver_features = 0, vm_queue_sel = 0, vm_interrupt_status = 0,
    vm_status = 0, vm_config_generation = 0, vm_last_error = None\<rparr>"

definition vm_reset :: "('d, 'm) virtio_device \<Rightarrow> 'd virtio_mmio \<Rightarrow> 'd virtio_mmio" where
  "vm_reset D t = t\<lparr>vm_queues := map vq_reset (vm_queues t), vm_device_features_sel := 0,
    vm_driver_features_sel := 0, vm_driver_features := 0, vm_queue_sel := 0, vm_interrupt_status := 0,
    vm_status := 0, vm_last_error := None, vm_device := map_option (vd_reset D) (vm_device t)\<rparr>"

definition set_device :: "('d, 'm) virtio_device \<Rightarrow> 'd option \<Rightarrow> 'd virtio_mmio \<Rightarrow> 'd virtio_mmio" where
  "set_device D device t = vm_reset D (t\<lparr>
    vm_queues := (case device of None \<Rightarrow> [] | Some d \<Rightarrow> map vq_new (vd_queue_max_sizes D d)),
    vm_device := device\<rparr>)"

definition vm_new :: "('d, 'm) virtio_device \<Rightarrow> 'd \<Rightarrow> 'd virtio_mmio" where
  "vm_new D d = set_device D (Some d) vm_empty"

definition without_features :: "u64 \<Rightarrow> 'd virtio_mmio \<Rightarrow> 'd virtio_mmio" where
  "without_features msk t = t\<lparr>vm_removed := msk AND NOT F_VERSION_1\<rparr>"

definition offered_features :: "('d, 'm) virtio_device \<Rightarrow> 'd virtio_mmio \<Rightarrow> u64" where
  "offered_features D t = (case vm_device t of
      Some d \<Rightarrow> (vd_features D d OR F_VERSION_1 OR F_INDIRECT_DESC OR F_EVENT_IDX) AND NOT (vm_removed t)
    | None \<Rightarrow> 0)"

definition vm_irq_level :: "'d virtio_mmio \<Rightarrow> bool" where
  "vm_irq_level t \<longleftrightarrow> vm_interrupt_status t \<noteq> 0"

definition signal_config_change :: "'d virtio_mmio \<Rightarrow> 'd virtio_mmio" where
  "signal_config_change t =
    (let t = t\<lparr>vm_config_generation := vm_config_generation t + 1\<rparr>
     in if vm_status t AND STATUS_DRIVER_OK \<noteq> 0
        then t\<lparr>vm_interrupt_status := vm_interrupt_status t OR INT_CONFIG\<rparr> else t)"

definition vm_fail :: "queue_error \<Rightarrow> 'd virtio_mmio \<Rightarrow> 'd virtio_mmio" where
  "vm_fail e t = signal_config_change
    (t\<lparr>vm_last_error := Some e, vm_status := vm_status t OR STATUS_DEVICE_NEEDS_RESET\<rparr>)"

text \<open>The loop over the queues after a device has worked: interrupts to raise, first error.\<close>

fun notify_queues ::
  "'m guest_ram \<Rightarrow> 'm \<Rightarrow> virtqueue list \<Rightarrow> u32 \<Rightarrow> queue_error + unit \<Rightarrow> virtqueue list \<times> u32 \<times> (queue_error + unit)" where
  "notify_queues R m [] i res = ([], i, res)"
| "notify_queues R m (q # qs) i res =
    (case should_notify R m q of (r, q) \<Rightarrow>
      case notify_queues R m qs
          (if r = Inr True then i OR INT_VRING else i)
          (case r of Inl e \<Rightarrow> rbind res (\<lambda>_. Inl (Ram e)) | Inr _ \<Rightarrow> res)
        of (qs, i, res) \<Rightarrow> (q # qs, i, res))"

definition vm_service ::
  "('d, 'm) virtio_device \<Rightarrow> 'm guest_ram \<Rightarrow> 'm \<Rightarrow> 'd virtio_mmio \<Rightarrow> ('d virtio_mmio \<times> 'm) option" where
  "vm_service D R m t =
    (if vm_status t AND STATUS_DRIVER_OK = 0 \<or> vm_status t AND STATUS_DEVICE_NEEDS_RESET \<noteq> 0 then Some (t, m)
     else case vm_device t of
       None \<Rightarrow> Some (t, m)
     | Some d \<Rightarrow>
        (case vd_service D \<lparr>cx_queues = vm_queues t, cx_ram = m, cx_features = vm_driver_features t,
              cx_config_changed = False\<rparr> d of
           None \<Rightarrow> None
         | Some (res, d, cx) \<Rightarrow>
            let t = t\<lparr>vm_device := Some d, vm_queues := cx_queues cx\<rparr>; m = cx_ram cx;
                t = if cx_config_changed cx then signal_config_change t else t
            in case notify_queues R m (vm_queues t) (vm_interrupt_status t) res of (qs, i, res) \<Rightarrow>
                 let t = t\<lparr>vm_queues := qs, vm_interrupt_status := i\<rparr>
                 in Some (case res of Inl e \<Rightarrow> vm_fail e t | Inr _ \<Rightarrow> t, m)))"

text \<open>\<^verbatim>\<open>queues.get(queue_sel as usize)\<close> and the update of the selected queue.\<close>

definition cur_queue :: "'d virtio_mmio \<Rightarrow> virtqueue option" where
  "cur_queue t = (if unat (vm_queue_sel t) < length (vm_queues t)
    then Some (vm_queues t ! unat (vm_queue_sel t)) else None)"

definition upd_cur_queue :: "(virtqueue \<Rightarrow> virtqueue) \<Rightarrow> 'd virtio_mmio \<Rightarrow> 'd virtio_mmio" where
  "upd_cur_queue f t = (case cur_queue t of None \<Rightarrow> t
    | Some q \<Rightarrow> t\<lparr>vm_queues := (vm_queues t)[unat (vm_queue_sel t) := f q]\<rparr>)"

definition vm_read_reg :: "('d, 'm) virtio_device \<Rightarrow> u64 \<Rightarrow> 'd virtio_mmio \<Rightarrow> u32" where
  "vm_read_reg D offset t =
    (let q = cur_queue t
     in if offset = VM_MAGIC_VALUE then VM_MAGIC
        else if offset = VM_VERSION then 2
        else if offset = VM_DEVICE_ID then (case vm_device t of None \<Rightarrow> 0 | Some d \<Rightarrow> vd_device_id D d)
        else if offset = VM_VENDOR_ID then VM_VENDOR
        else if offset = DEVICE_FEATURES then
          (if vm_device_features_sel t = 0 then ucast (offered_features D t)
           else if vm_device_features_sel t = 1 then ucast (drop_bit 32 (offered_features D t)) else 0)
        else if offset = QUEUE_NUM_MAX then (case q of None \<Rightarrow> 0 | Some q \<Rightarrow> ucast (q_max_size q))
        else if offset = QUEUE_READY then (case q of None \<Rightarrow> 0 | Some q \<Rightarrow> of_bool (q_ready q))
        else if offset = INTERRUPT_STATUS then vm_interrupt_status t
        else if offset = VM_STATUS then vm_status t
        else if offset \<in> {SHM_LEN_LOW, SHM_LEN_HIGH, SHM_BASE_LOW, SHM_BASE_HIGH} then - 1
        else if offset = CONFIG_GENERATION then vm_config_generation t
        else 0)"

definition write_status :: "('d, 'm) virtio_device \<Rightarrow> u32 \<Rightarrow> 'd virtio_mmio \<Rightarrow> 'd virtio_mmio" where
  "write_status D v t =
    (if v = 0 then vm_reset D t
     else let v = v OR (vm_status t AND STATUS_DEVICE_NEEDS_RESET)
       in if v AND STATUS_FEATURES_OK \<noteq> 0 \<and> vm_status t AND STATUS_FEATURES_OK = 0
          then let f = vm_driver_features t;
                   asks = f AND F_VERSION_1 \<noteq> 0 \<and> f AND NOT (offered_features D t) = 0;
                   (ok, dev) = (case vm_device t of
                      Some d \<Rightarrow> if asks then (case vd_negotiate D f d of (b, d) \<Rightarrow> (b, Some d)) else (False, Some d)
                    | None \<Rightarrow> (False, None))
               in t\<lparr>vm_device := dev, vm_status := (if ok then v else v AND NOT STATUS_FEATURES_OK)\<rparr>
          else t\<lparr>vm_status := v\<rparr>)"

definition set_half :: "u64 \<Rightarrow> u32 \<Rightarrow> u64 \<Rightarrow> u64" where
  "set_half offset v old =
    (if offset AND 4 = 0 then (old AND NOT 0xFFFFFFFF) OR ucast v
     else (old AND 0xFFFFFFFF) OR push_bit 32 (ucast v))"

definition write_queue_addr :: "u64 \<Rightarrow> u32 \<Rightarrow> 'd virtio_mmio \<Rightarrow> 'd virtio_mmio" where
  "write_queue_addr offset v = upd_cur_queue (\<lambda>q.
    if q_ready q then q
    else if offset AND NOT 4 = QUEUE_DESC_LOW then q\<lparr>q_desc := set_half offset v (q_desc q)\<rparr>
    else if offset AND NOT 4 = QUEUE_DRIVER_LOW then q\<lparr>q_driver := set_half offset v (q_driver q)\<rparr>
    else q\<lparr>q_device := set_half offset v (q_device q)\<rparr>)"

definition vm_write_reg :: "('d, 'm) virtio_device \<Rightarrow> u64 \<Rightarrow> u32 \<Rightarrow> 'd virtio_mmio \<Rightarrow> 'd virtio_mmio" where
  "vm_write_reg D offset v t =
    (let features_locked = vm_status t AND STATUS_FEATURES_OK \<noteq> 0
     in if offset = DEVICE_FEATURES_SEL then t\<lparr>vm_device_features_sel := v\<rparr>
        else if offset = DRIVER_FEATURES_SEL then t\<lparr>vm_driver_features_sel := v\<rparr>
        else if offset = DRIVER_FEATURES \<and> \<not> features_locked then
          (if vm_driver_features_sel t = 0
           then t\<lparr>vm_driver_features := (vm_driver_features t AND NOT 0xFFFFFFFF) OR ucast v\<rparr>
           else if vm_driver_features_sel t = 1
           then t\<lparr>vm_driver_features := (vm_driver_features t AND 0xFFFFFFFF) OR push_bit 32 (ucast v)\<rparr>
           else t)
        else if offset = QUEUE_SEL then t\<lparr>vm_queue_sel := v\<rparr>
        else if offset = QUEUE_NUM then
          upd_cur_queue (\<lambda>q. if q_ready q then q else q\<lparr>q_size := (if v \<le> 0xFFFF then ucast v else 0)\<rparr>) t
        else if offset = QUEUE_READY then
          (let f = vm_driver_features t
           in upd_cur_queue (\<lambda>q. set_ready (v AND 1 \<noteq> 0)
                (q\<lparr>q_event_idx := f AND F_EVENT_IDX \<noteq> 0, q_indirect := f AND F_INDIRECT_DESC \<noteq> 0\<rparr>)) t)
        else if offset \<in> {QUEUE_DESC_LOW, QUEUE_DESC_HIGH, QUEUE_DRIVER_LOW, QUEUE_DRIVER_HIGH,
            QUEUE_DEVICE_LOW, QUEUE_DEVICE_HIGH} then write_queue_addr offset v t
        else if offset = INTERRUPT_ACK then t\<lparr>vm_interrupt_status := vm_interrupt_status t AND NOT v\<rparr>
        else if offset = VM_STATUS then write_status D v t
        else t)"

definition vm_read :: "('d, 'm) virtio_device \<Rightarrow> u64 \<Rightarrow> u8 \<Rightarrow> 'd virtio_mmio \<Rightarrow> u64 \<times> 'd virtio_mmio" where
  "vm_read D offset sz t =
    (if VM_CONFIG \<le> offset then
       (case vm_device t of None \<Rightarrow> (0, t)
        | Some d \<Rightarrow> (of_le (vd_read_config D (offset - VM_CONFIG) (unat (min sz 8)) d), t))
     else if sz \<noteq> 4 \<or> offset mod 4 \<noteq> 0 then (0, t)
     else if vm_device t = None then (empty_read offset sz, t)
     else (ucast (vm_read_reg D offset t), t))"

definition vm_write :: "('d, 'm) virtio_device \<Rightarrow> u64 \<Rightarrow> u8 \<Rightarrow> u64 \<Rightarrow> 'd virtio_mmio \<Rightarrow> 'd virtio_mmio" where
  "vm_write D offset sz v t =
    (case vm_device t of None \<Rightarrow> t
     | Some d \<Rightarrow>
        if VM_CONFIG \<le> offset
        then t\<lparr>vm_device := Some (vd_write_config D (offset - VM_CONFIG) (take (unat (min sz 8)) (le_bytes 8 v)) d)\<rparr>
        else if sz = 4 \<and> offset mod 4 = 0 then vm_write_reg D offset (ucast v) t else t)"

subsection \<open>Snapshot\<close>

fun save_queue_error :: "queue_error \<Rightarrow> writer \<Rightarrow> writer" where
  "save_queue_error (Ram (RamError addr len)) w = w_len_of len (w_u64 addr (w_u8 0 w))"
| "save_queue_error (AvailIdx la av) w = w_u16 av (w_u16 la (w_u8 1 w))"
| "save_queue_error (HeadOutOfRange h) w = w_u16 h (w_u8 2 w)"
| "save_queue_error (NextOutOfRange n) w = w_u16 n (w_u8 3 w)"
| "save_queue_error ChainLoop w = w_u8 4 w"
| "save_queue_error ReadableAfterWritable w = w_u8 5 w"
| "save_queue_error IndirectNotNegotiated w = w_u8 6 w"
| "save_queue_error (IndirectLen l) w = w_u32 l (w_u8 7 w)"
| "save_queue_error IndirectMisplaced w = w_u8 8 w"
| "save_queue_error (Malformed s) w = w_bytes s (w_u8 9 w)"

definition restore_queue_error :: "queue_error read" where
  "restore_queue_error r = rbind (r_u8 r) (\<lambda>(v, r).
    if v = 0 then rbind (r_u64 r) (\<lambda>(a, r). rbind (r_u64 r) (\<lambda>(l, r). Inr (Ram (RamError a (unat l)), r)))
    else if v = 1 then rbind (r_u16 r) (\<lambda>(l, r). rbind (r_u16 r) (\<lambda>(a, r). Inr (AvailIdx l a, r)))
    else if v = 2 then rbind (r_u16 r) (\<lambda>(h, r). Inr (HeadOutOfRange h, r))
    else if v = 3 then rbind (r_u16 r) (\<lambda>(n, r). Inr (NextOutOfRange n, r))
    else if v = 4 then Inr (ChainLoop, r)
    else if v = 5 then Inr (ReadableAfterWritable, r)
    else if v = 6 then Inr (IndirectNotNegotiated, r)
    else if v = 7 then rbind (r_u32 r) (\<lambda>(l, r). Inr (IndirectLen l, r))
    else if v = 8 then Inr (IndirectMisplaced, r)
    else if v = 9 then rbind (r_string r) (\<lambda>(s, r). Inr (Malformed s, r))
    else Inl (Invalid (''queue error '' @ dec (unat v))))"

definition VDEV :: tag4 where
  "VDEV = [0x56, 0x44, 0x45, 0x56]"

definition vm_device_id :: "('d, 'm) virtio_device \<Rightarrow> 'd virtio_mmio \<Rightarrow> u32" where
  "vm_device_id D t = (case vm_device t of None \<Rightarrow> 0 | Some d \<Rightarrow> vd_device_id D d)"

definition vm_save :: "('d, 'm) virtio_device \<Rightarrow> 'd virtio_mmio \<Rightarrow> writer \<Rightarrow> writer" where
  "vm_save D t w =
    (let w = w_seq vq_save (vm_queues t) (w_opt save_queue_error (vm_last_error t)
          (w_u32 (vm_config_generation t) (w_u32 (vm_status t) (w_u32 (vm_interrupt_status t)
          (w_u32 (vm_queue_sel t) (w_u64 (vm_driver_features t) (w_u32 (vm_driver_features_sel t)
          (w_u32 (vm_device_features_sel t) (w_u64 (vm_removed t) (w_u64 (ucast (vm_device_id D t)) w))))))))))
     in case vm_device t of None \<Rightarrow> w | Some d \<Rightarrow> w_section VDEV (vd_save_state D d) w)"

fun restore_queues :: "virtqueue list \<Rightarrow> reader \<Rightarrow> snap_error + virtqueue list \<times> reader" where
  "restore_queues [] r = Inr ([], r)"
| "restore_queues (q # qs) r = rbind (vq_restore q r) (\<lambda>(q, r).
    rbind (restore_queues qs r) (\<lambda>(qs, r). Inr (q # qs, r)))"

definition vm_restore :: "('d, 'm) virtio_device \<Rightarrow> 'd virtio_mmio \<Rightarrow> reader \<Rightarrow> snap_error + 'd virtio_mmio \<times> reader" where
  "vm_restore D t r = rbind (expect_u64 ''virtio DeviceID'' (ucast (vm_device_id D t)) r) (\<lambda>(_, r).
    rbind (expect_u64 ''features removed from the offer'' (vm_removed t) r) (\<lambda>(_, r).
    rbind (r_u32 r) (\<lambda>(dfs, r). rbind (r_u32 r) (\<lambda>(gfs, r). rbind (r_u64 r) (\<lambda>(gf, r).
    rbind (r_u32 r) (\<lambda>(sel, r). rbind (r_u32 r) (\<lambda>(ist, r). rbind (r_u32 r) (\<lambda>(st, r).
    rbind (r_u32 r) (\<lambda>(cg, r). rbind (r_opt restore_queue_error r) (\<lambda>(le, r).
    rbind (expect_u64 ''number of queues'' (of_nat (length (vm_queues t))) r) (\<lambda>(_, r).
    rbind (restore_queues (vm_queues t) r) (\<lambda>(qs, r).
      let t = t\<lparr>vm_device_features_sel := dfs, vm_driver_features_sel := gfs, vm_driver_features := gf,
            vm_queue_sel := sel, vm_interrupt_status := ist, vm_status := st, vm_config_generation := cg,
            vm_last_error := le, vm_queues := qs\<rparr>
      in case vm_device t of None \<Rightarrow> Inr (t, r)
         | Some d \<Rightarrow> rbind (r_section VDEV r) (\<lambda>(s, r).
             rbind (vd_restore_state D d s) (\<lambda>(d, s).
             rbind (r_finish s) (\<lambda>_. Inr (t\<lparr>vm_device := Some d\<rparr>, r))))))))))))))))"

subsection \<open>What the transport relies on of a device\<close>

text \<open>
  A device keeps its features and its queue sizes, and its work leaves the configuration of the
  queues alone: it moves indices only.
\<close>

definition vq_config :: "virtqueue \<Rightarrow> u16 \<times> u16 \<times> bool \<times> u64 \<times> u64 \<times> u64 \<times> bool \<times> bool" where
  "vq_config q = (q_max_size q, q_size q, q_ready q, q_desc q, q_driver q, q_device q, q_event_idx q, q_indirect q)"

text \<open>A configuration a ready queue may have (virtio 1.2, 2.7).\<close>

definition vq_valid :: "virtqueue \<Rightarrow> bool" where
  "vq_valid q \<longleftrightarrow> q_size q \<noteq> 0 \<and> pow2_u16 (q_size q) \<and> q_size q \<le> q_max_size q \<and> q_desc q mod 16 = 0 \<and>
    q_driver q mod 2 = 0 \<and> q_device q mod 4 = 0"

definition queues_ok :: "u16 list \<Rightarrow> virtqueue list \<Rightarrow> bool" where
  "queues_ok sizes qs \<longleftrightarrow> map q_max_size qs = sizes \<and> (\<forall>q \<in> set qs. q_ready q \<longrightarrow> vq_valid q)"

lemma queues_ok_config:
  assumes "map vq_config qs' = map vq_config qs"
  shows "queues_ok sizes qs' = queues_ok sizes qs"
proof -
  have len: "length qs' = length qs" using map_eq_imp_length_eq [OF assms] .
  have e: "vq_config (qs' ! i) = vq_config (qs ! i)" if "i < length qs" for i
    using arg_cong [OF assms, of "\<lambda>l. l ! i"] that len by simp
  have "map q_max_size qs' = map q_max_size qs"
    using e len by (intro nth_equalityI) (simp_all add: vq_config_def)
  moreover have "(\<forall>q \<in> set qs'. q_ready q \<longrightarrow> vq_valid q) \<longleftrightarrow> (\<forall>q \<in> set qs. q_ready q \<longrightarrow> vq_valid q)"
    using e len by (auto simp: all_set_conv_all_nth vq_config_def vq_valid_def)
  ultimately show ?thesis by (simp add: queues_ok_def)
qed

lemma queues_ok_update:
  assumes "queues_ok sizes (vm_queues t)" "\<And>q. q_max_size (f q) = q_max_size q"
    and "\<And>q. (q_ready q \<longrightarrow> vq_valid q) \<Longrightarrow> q_ready (f q) \<longrightarrow> vq_valid (f q)"
  shows "queues_ok sizes (vm_queues (upd_cur_queue f t))"
proof (cases "cur_queue t")
  case (Some q)
  let ?i = "unat (vm_queue_sel t)"
  have i: "?i < length (vm_queues t)" "q = vm_queues t ! ?i" using Some by (auto simp: cur_queue_def split: if_splits)
  then have q: "q_ready q \<longrightarrow> vq_valid q" using assms(1) by (auto simp: queues_ok_def)
  have "map q_max_size ((vm_queues t)[?i := f q]) = map q_max_size (vm_queues t)"
    using i assms(2) by (simp add: map_update list_update_same_conv)
  moreover have "\<forall>x \<in> set ((vm_queues t)[?i := f q]). q_ready x \<longrightarrow> vq_valid x"
    using assms(1) assms(3) [OF q] set_update_subset_insert [of "vm_queues t" ?i "f q"]
    unfolding queues_ok_def by blast
  ultimately show ?thesis using assms(1) Some by (simp add: upd_cur_queue_def queues_ok_def)
qed (use assms(1) in \<open>simp add: upd_cur_queue_def\<close>)

lemma upd_cur_queue_frame [simp]:
  "vm_device (upd_cur_queue f t) = vm_device t" "vm_status (upd_cur_queue f t) = vm_status t"
  "vm_driver_features (upd_cur_queue f t) = vm_driver_features t" "vm_removed (upd_cur_queue f t) = vm_removed t"
  "vm_last_error (upd_cur_queue f t) = vm_last_error t"
  by (simp_all add: upd_cur_queue_def split: option.splits)

lemma should_notify_config: "vq_config (snd (should_notify R m q)) = vq_config q"
  by (simp add: should_notify_def Let_def vq_config_def)

lemma notify_queues_config:
  "map vq_config (fst (notify_queues R m qs i res)) = map vq_config qs"
proof (induction qs arbitrary: i res)
  case (Cons q qs)
  obtain r q' where n: "should_notify R m q = (r, q')" by (cases "should_notify R m q")
  then have "vq_config q' = vq_config q" using should_notify_config [of R m q] by simp
  then show ?case using Cons n by (simp add: case_prod_unfold)
qed simp

locale virtio_device_laws =
  fixes D :: "('d, 'm) virtio_device" and dok :: "'d \<Rightarrow> bool" and feats :: u64 and sizes :: "u16 list"
  assumes features: "dok d \<Longrightarrow> vd_features D d = feats"
    and max_sizes: "dok d \<Longrightarrow> vd_queue_max_sizes D d = sizes"
    and write_config_ok: "dok d \<Longrightarrow> dok (vd_write_config D off bs d)"
    and negotiate_ok: "dok d \<Longrightarrow> dok (snd (vd_negotiate D f d))"
    and reset_ok: "dok d \<Longrightarrow> dok (vd_reset D d)"
    and service_ok: "dok d \<Longrightarrow> vd_service D cx d = Some (r, d', cx') \<Longrightarrow> dok d'"
    and service_queues: "dok d \<Longrightarrow> vd_service D cx d = Some (r, d', cx') \<Longrightarrow>
      map vq_config (cx_queues cx') = map vq_config (cx_queues cx)"

text \<open>The states a driver and the host can bring a transport to.\<close>

inductive vm_reach :: "('d, 'm) virtio_device \<Rightarrow> 'm guest_ram \<Rightarrow> 'd \<Rightarrow> u64 \<Rightarrow> 'd virtio_mmio \<Rightarrow> bool" for D R d0 rem where
  start: "vm_reach D R d0 rem (without_features rem (vm_new D d0))"
| reads: "vm_reach D R d0 rem t \<Longrightarrow> vm_reach D R d0 rem (snd (vm_read D off sz t))"
| writes: "vm_reach D R d0 rem t \<Longrightarrow> vm_reach D R d0 rem (vm_write D off sz v t)"
| service: "vm_reach D R d0 rem t \<Longrightarrow> vm_service D R m t = Some (t', m') \<Longrightarrow> vm_reach D R d0 rem t'"
| config: "vm_reach D R d0 rem t \<Longrightarrow> vm_reach D R d0 rem (signal_config_change t)"

text \<open>Everything a transport in use keeps.\<close>

definition vm_ok :: "('d \<Rightarrow> bool) \<Rightarrow> u64 \<Rightarrow> u16 list \<Rightarrow> 'd virtio_mmio \<Rightarrow> bool" where
  "vm_ok dok offer sizes t \<longleftrightarrow> (\<exists>d. vm_device t = Some d \<and> dok d) \<and> queues_ok sizes (vm_queues t) \<and>
    (vm_status t AND STATUS_FEATURES_OK \<noteq> 0 \<longrightarrow>
      vm_driver_features t AND F_VERSION_1 \<noteq> 0 \<and> vm_driver_features t AND NOT offer = 0) \<and>
    (vm_last_error t \<noteq> None \<longrightarrow> vm_status t AND STATUS_DEVICE_NEEDS_RESET \<noteq> 0)"

lemma vm_ok_if: "(c \<Longrightarrow> vm_ok dok offer sizes a) \<Longrightarrow> (\<not> c \<Longrightarrow> vm_ok dok offer sizes b) \<Longrightarrow> vm_ok dok offer sizes (if c then a else b)"
  by simp

lemma status_bits:
  "x AND STATUS_FEATURES_OK = 0 \<longleftrightarrow> \<not> bit x 3" "x AND STATUS_DEVICE_NEEDS_RESET = 0 \<longleftrightarrow> \<not> bit x 6"
  "bit STATUS_DEVICE_NEEDS_RESET n \<longleftrightarrow> n = 6" "bit STATUS_FEATURES_OK n \<longleftrightarrow> n = 3"
proof -
  have e: "STATUS_FEATURES_OK = push_bit 3 1" "STATUS_DEVICE_NEEDS_RESET = push_bit 6 1" by (simp_all add: vm_consts)
  show "x AND STATUS_FEATURES_OK = 0 \<longleftrightarrow> \<not> bit x 3" "x AND STATUS_DEVICE_NEEDS_RESET = 0 \<longleftrightarrow> \<not> bit x 6"
    unfolding e using word_ne_zero_test [of x 3] word_ne_zero_test [of x 6] by blast+
  have b: "bit (push_bit k 1 :: u32) n \<longleftrightarrow> k < 32 \<and> n = k" for k by (auto simp: bit_exp_iff)
  show "bit STATUS_DEVICE_NEEDS_RESET n \<longleftrightarrow> n = 6" "bit STATUS_FEATURES_OK n \<longleftrightarrow> n = 3"
    unfolding e by (simp_all only: b) auto
qed

lemma needs_reset_nonzero [simp]: "STATUS_DEVICE_NEEDS_RESET \<noteq> 0"
  by (simp add: vm_consts)

lemma vm_ok_config_change: "vm_ok dok offer sizes t \<Longrightarrow> vm_ok dok offer sizes (signal_config_change t)"
  by (simp add: signal_config_change_def Let_def vm_ok_def)

lemma vm_ok_fail: "vm_ok dok offer sizes t \<Longrightarrow> vm_ok dok offer sizes (vm_fail e t)"
  unfolding vm_fail_def by (rule vm_ok_config_change) (simp add: vm_ok_def status_bits bit_or_iff)

lemma vm_ok_queue:
  assumes "vm_ok dok offer sizes t" "\<And>q. q_max_size (f q) = q_max_size q"
    and "\<And>q. (q_ready q \<longrightarrow> vq_valid q) \<Longrightarrow> q_ready (f q) \<longrightarrow> vq_valid (f q)"
  shows "vm_ok dok offer sizes (upd_cur_queue f t)"
  using assms queues_ok_update [of sizes t f] by (simp add: vm_ok_def)

lemma set_ready_valid:
  "q_max_size (set_ready b q) = q_max_size q" "q_ready (set_ready b q) \<longrightarrow> vq_valid (set_ready b q)"
  by (simp_all add: set_ready_def vq_valid_def Let_def)

lemma vm_reset_fields [simp]:
  "vm_status (vm_reset D t) = 0" "vm_last_error (vm_reset D t) = None" "vm_removed (vm_reset D t) = vm_removed t"
  "vm_device (vm_reset D t) = map_option (vd_reset D) (vm_device t)"
  "vm_queues (vm_reset D t) = map vq_reset (vm_queues t)"
  by (simp_all add: vm_reset_def)

lemma queues_ok_reset: "map q_max_size qs = sizes \<Longrightarrow> queues_ok sizes (map vq_reset qs)"
  by (auto simp: queues_ok_def vq_reset_def vq_new_def)

lemma vm_read_same: "snd (vm_read D off sz t) = t"
  by (simp add: vm_read_def split: option.splits)

context virtio_device_laws
begin

abbreviation offer :: "u64 \<Rightarrow> u64" where
  "offer rem \<equiv> (feats OR F_VERSION_1 OR F_INDIRECT_DESC OR F_EVENT_IDX) AND NOT rem"

lemma offered: "vm_device t = Some d \<Longrightarrow> dok d \<Longrightarrow> offered_features D t = offer (vm_removed t)"
  by (simp add: offered_features_def features)

lemma ok_reset: "vm_ok dok off sizes t \<Longrightarrow> vm_ok dok off sizes (vm_reset D t)"
  using queues_ok_reset [of "vm_queues t" sizes] by (auto simp: vm_ok_def reset_ok queues_ok_def)

lemma ok_start: "dok d \<Longrightarrow> vm_ok dok off sizes (without_features rem (vm_new D d))"
  using queues_ok_reset [of "map vq_new sizes" sizes]
  by (auto simp: vm_ok_def without_features_def vm_new_def set_device_def reset_ok max_sizes vq_new_def o_def)

lemma ok_write_status:
  assumes "vm_ok dok (offer (vm_removed t)) sizes t"
  shows "vm_ok dok (offer (vm_removed t)) sizes (write_status D v t)"
proof -
  obtain d where d: "vm_device t = Some d" "dok d" using assms by (auto simp: vm_ok_def)
  then show ?thesis
    using assms negotiate_ok [OF d(2), of "vm_driver_features t"] ok_reset [OF assms]
    by (auto simp: write_status_def Let_def vm_ok_def offered [OF d] status_bits bit_or_iff bit_and_iff bit_not_iff
        split: prod.splits)
qed

lemma write_status_removed: "vm_removed (write_status D v t) = vm_removed t"
  by (simp add: write_status_def Let_def split: prod.splits)

lemma write_reg_removed: "vm_removed (vm_write_reg D off v t) = vm_removed t"
  by (simp add: vm_write_reg_def Let_def write_queue_addr_def write_status_removed)

lemma ok_write_reg:
  assumes ok: "vm_ok dok (offer (vm_removed t)) sizes t"
  shows "vm_ok dok (offer (vm_removed t)) sizes (vm_write_reg D off v t)"
proof -
  have frame: "vm_ok dok (offer (vm_removed t)) sizes (t\<lparr>vm_device_features_sel := v\<rparr>)"
    "vm_ok dok (offer (vm_removed t)) sizes (t\<lparr>vm_driver_features_sel := v\<rparr>)"
    "vm_ok dok (offer (vm_removed t)) sizes (t\<lparr>vm_queue_sel := v\<rparr>)"
    "vm_ok dok (offer (vm_removed t)) sizes (t\<lparr>vm_interrupt_status := x\<rparr>)" for x
    using ok by (simp_all add: vm_ok_def)
  have feat: "vm_status t AND STATUS_FEATURES_OK = 0 \<Longrightarrow>
      vm_ok dok (offer (vm_removed t)) sizes (t\<lparr>vm_driver_features := x\<rparr>)" for x
    using ok by (simp add: vm_ok_def)
  have num: "vm_ok dok (offer (vm_removed t)) sizes (upd_cur_queue (\<lambda>q. if q_ready q then q else q\<lparr>q_size := x\<rparr>) t)" for x
    by (rule vm_ok_queue [OF ok]) auto
  have ready: "vm_ok dok (offer (vm_removed t)) sizes
      (upd_cur_queue (\<lambda>q. set_ready b (q\<lparr>q_event_idx := e, q_indirect := i\<rparr>)) t)" for b e i
    by (rule vm_ok_queue [OF ok]) (simp_all add: set_ready_valid)
  have addr: "vm_ok dok (offer (vm_removed t)) sizes (write_queue_addr off v t)"
    unfolding write_queue_addr_def by (rule vm_ok_queue [OF ok]) auto
  show ?thesis unfolding vm_write_reg_def Let_def
    by (intro vm_ok_if frame num ready addr ok_write_status ok feat) simp_all
qed

lemma ok_write:
  assumes "vm_ok dok (offer (vm_removed t)) sizes t"
  shows "vm_ok dok (offer (vm_removed t)) sizes (vm_write D off sz v t)" "vm_removed (vm_write D off sz v t) = vm_removed t"
  using assms ok_write_reg [OF assms, of off "ucast v"]
  by (auto simp: vm_write_def vm_ok_def write_config_ok write_reg_removed split: option.splits)

lemma removed_after:
  "vm_removed (signal_config_change t) = vm_removed t" "vm_removed (vm_fail e t) = vm_removed t"
  by (simp_all add: vm_fail_def signal_config_change_def Let_def)

lemma ok_service:
  assumes ok: "vm_ok dok (offer (vm_removed t)) sizes t" and s: "vm_service D R m t = Some (t', m')"
  shows "vm_ok dok (offer (vm_removed t)) sizes t' \<and> vm_removed t' = vm_removed t"
proof (cases "vm_status t AND STATUS_DRIVER_OK = 0 \<or> vm_status t AND STATUS_DEVICE_NEEDS_RESET \<noteq> 0")
  case True
  then show ?thesis using s ok by (auto simp: vm_service_def)
next
  case False
  let ?P = "\<lambda>t'. vm_ok dok (offer (vm_removed t)) sizes t' \<and> vm_removed t' = vm_removed t"
  obtain d where d: "vm_device t = Some d" "dok d" using ok by (auto simp: vm_ok_def)
  let ?cx = "\<lparr>cx_queues = vm_queues t, cx_ram = m, cx_features = vm_driver_features t, cx_config_changed = False\<rparr>"
  obtain res d' cx where sv: "vd_service D ?cx d = Some (res, d', cx)"
    using s False d by (auto simp: vm_service_def split: option.splits)
  define t1 where "t1 = t\<lparr>vm_device := Some d', vm_queues := cx_queues cx\<rparr>"
  define t2 where "t2 = (if cx_config_changed cx then signal_config_change t1 else t1)"
  obtain qs i res' where n: "notify_queues R (cx_ram cx) (vm_queues t2) (vm_interrupt_status t2) res = (qs, i, res')"
    by (metis prod_cases3)
  define t3 where "t3 = t2\<lparr>vm_queues := qs, vm_interrupt_status := i\<rparr>"
  have "vm_service D R m t = Some (case res' of Inl e \<Rightarrow> vm_fail e t3 | Inr _ \<Rightarrow> t3, cx_ram cx)"
    unfolding vm_service_def
    by (simp only: if_not_P [OF False] d(1) option.case sv prod.case Let_def t1_def [symmetric] t2_def [symmetric] n
        t3_def [symmetric])
  then have t': "t' = (case res' of Inl e \<Rightarrow> vm_fail e t3 | Inr _ \<Rightarrow> t3)" using s by simp
  have "queues_ok sizes (cx_queues cx)"
    using ok queues_ok_config [OF service_queues [OF d(2) sv]] by (simp add: vm_ok_def)
  then have "?P t1" using ok service_ok [OF d(2) sv] by (auto simp: t1_def vm_ok_def)
  then have 2: "?P t2" by (simp add: t2_def vm_ok_config_change removed_after)
  have "queues_ok sizes qs"
    using 2 queues_ok_config [OF notify_queues_config [of R "cx_ram cx" "vm_queues t2" "vm_interrupt_status t2" res]] n
    by (simp add: vm_ok_def)
  then have "?P t3" using 2 by (auto simp: t3_def vm_ok_def)
  then show ?thesis unfolding t' by (cases res') (simp_all add: vm_ok_fail removed_after)
qed

lemma reach_ok:
  assumes "vm_reach D R d0 rem t" "dok d0"
  shows "vm_ok dok (offer (vm_removed t)) sizes t \<and> vm_removed t = rem AND NOT F_VERSION_1"
  using assms
proof induction
  case start
  then show ?case using ok_start by (simp add: without_features_def)
next
  case (reads t off sz)
  then show ?case unfolding vm_read_same by blast
next
  case (writes t off sz v)
  then have ih: "vm_ok dok (offer (vm_removed t)) sizes t" "vm_removed t = rem AND NOT F_VERSION_1" by blast+
  show ?case unfolding ok_write(2) [OF ih(1)] using ok_write(1) [OF ih(1)] ih(2) by blast
next
  case (service t m t' m')
  then have ih: "vm_ok dok (offer (vm_removed t)) sizes t" "vm_removed t = rem AND NOT F_VERSION_1" by blast+
  from ok_service [OF ih(1) service.hyps(2)] ih(2) show ?case by metis
next
  case (config t)
  then have ih: "vm_ok dok (offer (vm_removed t)) sizes t" "vm_removed t = rem AND NOT F_VERSION_1" by blast+
  show ?case unfolding removed_after using vm_ok_config_change [OF ih(1)] ih(2) by blast
qed

end

end
