(* ===== verification/Virtio_Console.thy ===== *)
theory Virtio_Console
  imports Virtio_Mmio
begin

text \<open>
  virtio-console, \<^verbatim>\<open>crates/vetro-platform/src/virtio/console.rs\<close>: the backend trait as a record of its
  methods, the in-memory backend, and the device as an instance of the device record of the
  transport. The loops over queues and over the pieces of a chain are partial functions whose value
  \<open>None\<close> is not returning.
\<close>

subsection \<open>Backends\<close>

definition F_EMERG_WRITE :: u64 where "F_EMERG_WRITE = 4"
definition CFG_EMERG_WR :: u64 where "CFG_EMERG_WR = 8"
definition CHUNK :: u64 where "CHUNK = 64 * 1024"

text \<open>\<open>cb_read n\<close> gives the bytes placed in a buffer of \<open>n\<close>, the returned count being their number.\<close>

record 'b console_backend =
  cb_write :: "bytes \<Rightarrow> 'b \<Rightarrow> 'b"
  cb_read :: "nat \<Rightarrow> 'b \<Rightarrow> bytes \<times> 'b"
  cb_save_state :: "'b \<Rightarrow> writer \<Rightarrow> writer"
  cb_restore_state :: "'b \<Rightarrow> reader \<Rightarrow> snap_error + 'b \<times> reader"

record buffer_console =
  bc_input :: bytes
  bc_output :: bytes

definition bc_write :: "bytes \<Rightarrow> buffer_console \<Rightarrow> buffer_console" where
  "bc_write d b = b\<lparr>bc_output := bc_output b @ d\<rparr>"

definition bc_read :: "nat \<Rightarrow> buffer_console \<Rightarrow> bytes \<times> buffer_console" where
  "bc_read len b =
    (let n = min len (length (bc_input b))
     in (take n (bc_input b), b\<lparr>bc_input := drop n (bc_input b)\<rparr>))"

definition bc_save_state :: "buffer_console \<Rightarrow> writer \<Rightarrow> writer" where
  "bc_save_state b w = w_bytes (bc_output b) (w_seq w_u8 (bc_input b) w)"

definition bc_restore_state :: "buffer_console \<Rightarrow> reader \<Rightarrow> snap_error + buffer_console \<times> reader" where
  "bc_restore_state b r = rbind (r_seq 1 r_u8 r) (\<lambda>(i, r). rbind (r_vec r) (\<lambda>(out, r).
    Inr (b\<lparr>bc_input := i, bc_output := out\<rparr>, r)))"

definition buffer_backend :: "buffer_console console_backend" where
  "buffer_backend = \<lparr>cb_write = bc_write, cb_read = bc_read, cb_save_state = bc_save_state,
    cb_restore_state = bc_restore_state\<rparr>"

subsection \<open>The device\<close>

record 'b virtio_console =
  con_backend :: 'b
  con_queue_sizes :: "u16 list"

definition con_new :: "'b \<Rightarrow> 'b virtio_console" where
  "con_new b = \<lparr>con_backend = b, con_queue_sizes = [128, 128]\<rparr>"

definition con_config_bytes :: bytes where
  "con_config_bytes = replicate 4 0 @ le_bytes 4 (1 :: u32) @ replicate 4 0"

definition con_write_config :: "'b console_backend \<Rightarrow> u64 \<Rightarrow> bytes \<Rightarrow> 'b virtio_console \<Rightarrow> 'b virtio_console" where
  "con_write_config B offset d c =
    (if offset = CFG_EMERG_WR \<and> length d = 4
     then c\<lparr>con_backend := cb_write B (take 1 d) (con_backend c)\<rparr> else c)"

partial_function (option) tx_copy ::
  "'b console_backend \<Rightarrow> 'm guest_ram \<Rightarrow> 'm \<Rightarrow> desc_chain \<Rightarrow> u64 \<Rightarrow> bytes \<Rightarrow> 'b \<Rightarrow> ((queue_error + unit) \<times> 'b) option" where
  "tx_copy B R m c off buf b =
    (case chain_read R m off buf c of
       (Inl e, buf) \<Rightarrow> Some (Inl (Ram e), b)
     | (Inr n, buf) \<Rightarrow>
         if n = 0 then Some (Inr (), b)
         else tx_copy B R m c (off + of_nat n) buf (cb_write B (take n buf) b))"

partial_function (option) tx_loop ::
  "'b console_backend \<Rightarrow> 'm guest_ram \<Rightarrow> 'b \<Rightarrow> virtqueue \<Rightarrow> 'm \<Rightarrow>
    ((queue_error + unit) \<times> 'b \<times> virtqueue \<times> 'm) option" where
  "tx_loop B R b q m =
    (case pop R m q of
       (Inl e, q, m) \<Rightarrow> Some (Inl e, b, q, m)
     | (Inr None, q, m) \<Rightarrow> Some (Inr (), b, q, m)
     | (Inr (Some c), q, m) \<Rightarrow>
        (case tx_copy B R m c 0 (replicate (unat (min (readable_len c) CHUNK)) 0) b of
           None \<Rightarrow> None
         | Some (Inl e, b) \<Rightarrow> Some (Inl e, b, q, m)
         | Some (Inr _, b) \<Rightarrow>
            (case push_used R m (ch_head c) 0 q of
               (Inl e, q, m) \<Rightarrow> Some (Inl (Ram e), b, q, m)
             | (Inr _, q, m) \<Rightarrow> tx_loop B R b q m)))"

partial_function (option) rx_loop ::
  "'b console_backend \<Rightarrow> 'm guest_ram \<Rightarrow> 'b \<Rightarrow> virtqueue \<Rightarrow> 'm \<Rightarrow>
    ((queue_error + unit) \<times> 'b \<times> virtqueue \<times> 'm) option" where
  "rx_loop B R b q m =
    (case available R m q of
       Inl e \<Rightarrow> Some (Inl e, b, q, m)
     | Inr avail \<Rightarrow>
        if avail = 0 then Some (Inr (), b, q, m)
        else case pop R m q of
           (Inl e, q, m) \<Rightarrow> Some (Inl e, b, q, m)
         | (Inr None, q, m) \<Rightarrow> Some (Inr (), b, q, m)
         | (Inr (Some c), q, m) \<Rightarrow>
            (case cb_read B (unat (min (writable_len c) CHUNK)) b of (d, b) \<Rightarrow>
              if d = []
              then (case rewind R m 1 q of (r, q, m) \<Rightarrow> Some (map_err Ram r, b, q, m))
              else case chain_write R m 0 d c of
                 (Inl e, m) \<Rightarrow> Some (Inl (Ram e), b, q, m)
               | (Inr n, m) \<Rightarrow>
                  (case push_used R m (ch_head c) (of_nat n) q of
                     (Inl e, q, m) \<Rightarrow> Some (Inl (Ram e), b, q, m)
                   | (Inr _, q, m) \<Rightarrow> rx_loop B R b q m)))"

text \<open>The queues are receive and transmit; indexing a queue that does not exist panics.\<close>

definition con_service ::
  "'b console_backend \<Rightarrow> 'm guest_ram \<Rightarrow> 'm service_ctx \<Rightarrow> 'b virtio_console \<Rightarrow>
    ((queue_error + unit) \<times> 'b virtio_console \<times> 'm service_ctx) option" where
  "con_service B R cx c =
    (case cx_queues cx of
       rx # tx # qs \<Rightarrow>
        (case tx_loop B R (con_backend c) tx (cx_ram cx) of
           None \<Rightarrow> None
         | Some (Inl e, b, tx, m) \<Rightarrow>
             Some (Inl e, c\<lparr>con_backend := b\<rparr>, cx\<lparr>cx_queues := rx # tx # qs, cx_ram := m\<rparr>)
         | Some (Inr _, b, tx, m) \<Rightarrow>
            (case rx_loop B R b rx m of
               None \<Rightarrow> None
             | Some (r, b, rx, m) \<Rightarrow>
                 Some (r, c\<lparr>con_backend := b\<rparr>, cx\<lparr>cx_queues := rx # tx # qs, cx_ram := m\<rparr>)))
     | _ \<Rightarrow> None)"

definition console :: "'b console_backend \<Rightarrow> 'm guest_ram \<Rightarrow> ('b virtio_console, 'm) virtio_device" where
  "console B R = \<lparr>
    vd_device_id = \<lambda>c. ID_CONSOLE,
    vd_features = \<lambda>c. F_EMERG_WRITE,
    vd_queue_max_sizes = con_queue_sizes,
    vd_read_config = \<lambda>offset n c. read_config_bytes con_config_bytes offset n,
    vd_write_config = con_write_config B,
    vd_negotiate = \<lambda>f c. (True, c),
    vd_reset = \<lambda>c. c,
    vd_service = con_service B R,
    vd_save_state = \<lambda>c. cb_save_state B (con_backend c),
    vd_restore_state = \<lambda>c r. rmap (\<lambda>(b, r). (c\<lparr>con_backend := b\<rparr>, r)) (cb_restore_state B (con_backend c) r)\<rparr>"

subsection \<open>The console keeps the device contract\<close>

lemma pop_config: "vq_config (fst (snd (pop R m q))) = vq_config q"
proof -
  note keep = sbind_keeps [where P = "\<lambda>s. vq_config (fst s) = vq_config q"]
  have last: "vq_config (q\<lparr>q_last_avail := n\<rparr>) = vq_config q" for q n by (simp add: vq_config_def)
  show ?thesis
    unfolding pop_def Let_def
    by (auto intro!: keep simp: last split: prod.splits)
qed

lemma push_used_config: "vq_config (fst (snd (push_used R m h l q))) = vq_config q"
  by (simp add: push_used_def Let_def vq_config_def split: prod.splits sum.splits)

lemma rewind_config: "vq_config (fst (snd (rewind R m n q))) = vq_config q"
  by (simp add: rewind_def Let_def vq_config_def split: prod.splits)

lemma pop_config': "pop R m q = (r, q', m') \<Longrightarrow> vq_config q' = vq_config q"
  using pop_config [of R m q] by simp

lemma push_used_config': "push_used R m h l q = (r, q', m') \<Longrightarrow> vq_config q' = vq_config q"
  using push_used_config [of R m h l q] by simp

lemma rewind_config': "rewind R m n q = (r, q', m') \<Longrightarrow> vq_config q' = vq_config q"
  using rewind_config [of R m n q] by simp

lemmas queue_configs = pop_config' push_used_config' rewind_config'

lemma tx_loop_config:
  assumes "tx_loop B R b q m = Some y"
  shows "vq_config (fst (snd (snd y))) = vq_config q"
  by (rule tx_loop.raw_induct [where P = "\<lambda>B R b q m y. vq_config (fst (snd (snd y))) = vq_config q", OF _ assms])
    (fastforce split: prod.splits sum.splits option.splits dest: queue_configs)

lemma rx_loop_config:
  assumes "rx_loop B R b q m = Some y"
  shows "vq_config (fst (snd (snd y))) = vq_config q"
  by (rule rx_loop.raw_induct [where P = "\<lambda>B R b q m y. vq_config (fst (snd (snd y))) = vq_config q", OF _ assms])
    (fastforce split: prod.splits sum.splits option.splits if_splits dest: queue_configs)

lemma con_service_queues:
  assumes "con_service B R cx c = Some (r, c', cx')"
  shows "map vq_config (cx_queues cx') = map vq_config (cx_queues cx)" "con_queue_sizes c' = con_queue_sizes c"
  using assms
  by (auto simp: con_service_def split: list.splits option.splits prod.splits sum.splits
      dest!: tx_loop_config rx_loop_config)

interpretation con: virtio_device_laws "console B R" "\<lambda>c. con_queue_sizes c = [128, 128]" F_EMERG_WRITE "[128, 128]"
  by unfold_locales (auto simp: console_def con_write_config_def dest: con_service_queues)

subsection \<open>States of a transport in use\<close>

lemma failed_inert:
  "vm_ok dok off sizes t \<Longrightarrow> vm_last_error t \<noteq> None \<Longrightarrow> vm_service D R m t = Some (t, m)"
  by (simp add: vm_ok_def vm_service_def)

text \<open>
  C37. Every state a driver and the host can bring a transport to, by any accesses of any width at
  any offset, any contents of RAM and any work of a device that keeps its contract, is well formed:
  the device and its queues are those attached, every ready queue has a valid size and alignment,
  FEATURES_OK is only ever set with VERSION_1 accepted and nothing beyond the offer, and after a
  queue error the device does no work until it is reset.
\<close>

theorem transport_well_formed:
  assumes "virtio_device_laws D dok feats sizes" "dok d0" "vm_reach D R d0 rem t"
  shows "(\<exists>d. vm_device t = Some d \<and> dok d) \<and> map q_max_size (vm_queues t) = sizes \<and>
    (\<forall>q \<in> set (vm_queues t). q_ready q \<longrightarrow> vq_valid q) \<and>
    (vm_status t AND STATUS_FEATURES_OK \<noteq> 0 \<longrightarrow>
      vm_driver_features t AND F_VERSION_1 \<noteq> 0 \<and> vm_driver_features t AND NOT (offered_features D t) = 0) \<and>
    (vm_last_error t \<noteq> None \<longrightarrow> vm_service D R m t = Some (t, m))"
proof -
  have ok: "vm_ok dok ((feats OR F_VERSION_1 OR F_INDIRECT_DESC OR F_EVENT_IDX) AND NOT (vm_removed t)) sizes t"
    using virtio_device_laws.reach_ok [OF assms(1,3,2)] by blast
  then obtain d where d: "vm_device t = Some d" "dok d" by (auto simp: vm_ok_def)
  show ?thesis using ok d failed_inert [OF ok, of D R m] virtio_device_laws.offered [OF assms(1) d]
    by (simp add: vm_ok_def queues_ok_def)
qed

definition negotiated_console :: "buffer_console virtio_console virtio_mmio" where
  "negotiated_console = (let D = console buffer_backend vec_ram_ops in
    vm_write D VM_STATUS 4 11 (vm_write D DRIVER_FEATURES 4 1 (vm_write D DRIVER_FEATURES_SEL 4 1
      (without_features 0 (vm_new D (con_new \<lparr>bc_input = [], bc_output = []\<rparr>))))))"

theorem transport_well_formed_witness:
  "vm_status negotiated_console AND STATUS_FEATURES_OK \<noteq> 0 \<and>
   vm_driver_features negotiated_console AND F_VERSION_1 \<noteq> 0 \<and>
   map q_max_size (vm_queues negotiated_console) = [128, 128]"
proof -
  let ?D = "console buffer_backend vec_ram_ops" and ?d = "con_new \<lparr>bc_input = [], bc_output = []\<rparr>"
  have r: "vm_reach ?D vec_ram_ops ?d 0 negotiated_console"
    unfolding negotiated_console_def Let_def by (intro vm_reach.intros)
  have d: "con_queue_sizes ?d = [128, 128]" by (simp add: con_new_def)
  have s: "vm_status negotiated_console AND STATUS_FEATURES_OK \<noteq> 0"
    by (simp add: negotiated_console_def vm_write_def vm_write_reg_def write_status_def vm_new_def set_device_def
        vm_reset_def without_features_def vm_empty_def console_def con_new_def offered_features_def vm_consts Let_def
        F_EMERG_WRITE_def)
  show ?thesis using transport_well_formed [OF con.virtio_device_laws_axioms d r] s by blast
qed

subsection \<open>Transmission\<close>

context guest_ram_laws
begin

lemma chain_read_landed:
  assumes "ok m" "bufs_hold R m (ch_readable c) xs"
  shows "chain_read R m off out c = apfst Inr (landed (concat xs) (unat off) 0 out)"
  unfolding chain_read_def by (rule for_each_piece_reads [OF assms]) simp

lemma tx_copy_all:
  assumes ok: "ok m" and h: "bufs_hold R m (ch_readable c) xs" and len: "length (concat xs) < 2 ^ 64"
  shows "unat off \<le> length (concat xs) \<Longrightarrow> (buf = [] \<longrightarrow> concat xs = []) \<Longrightarrow>
    tx_copy buffer_backend R m c off buf b =
      Some (Inr (), b\<lparr>bc_output := bc_output b @ drop (unat off) (concat xs)\<rparr>)"
proof (induction "length (concat xs) - unat off" arbitrary: off buf b rule: less_induct)
  case less
  let ?v = "concat xs" and ?o = "unat off"
  define n where "n = min (length buf) (length ?v - ?o)"
  have rd: "chain_read R m off buf c = (Inr n, take n (drop ?o ?v) @ drop n buf)"
    by (simp add: chain_read_landed [OF ok h] landed_def Let_def n_def)
  show ?case
  proof (cases "n = 0")
    case True
    then have "drop ?o ?v = []" using less.prems by (cases "buf = []") (auto simp: n_def min_def split: if_splits)
    then show ?thesis using True rd by (subst tx_copy.simps) simp
  next
    case False
    let ?b = "b\<lparr>bc_output := bc_output b @ take n (drop ?o ?v)\<rparr>"
    have on: "?o + n \<le> length ?v" using less.prems(1) by (simp add: n_def)
    have u: "unat (off + of_nat n) = ?o + n"
      using unat_add_lem [of off "of_nat n"] on len unat_of_nat64 [of n] by simp
    have "tx_copy buffer_backend R m c off buf b =
        tx_copy buffer_backend R m c (off + of_nat n) (take n (drop ?o ?v) @ drop n buf) ?b"
      using False rd on by (subst tx_copy.simps) (simp add: buffer_backend_def bc_write_def)
    also have "\<dots> = Some (Inr (), ?b\<lparr>bc_output := bc_output ?b @ drop (?o + n) ?v\<rparr>)"
      using less.hyps [of "off + of_nat n" "take n (drop ?o ?v) @ drop n buf" ?b] False on less.prems u by auto
    also have "bc_output ?b @ drop (?o + n) ?v = bc_output b @ drop ?o ?v"
      using append_take_drop_id [of n "drop ?o ?v"] by (simp add: add.commute)
    finally show ?thesis by simp
  qed
qed

end

text \<open>
  C38. Transmitting a chain ends and is exact: for a chain whose readable buffers hold \<open>xs\<close>, however
  many pieces they make and however large they are, the loop the console runs on it returns, and the
  backend has received exactly their bytes, in order, once each.
\<close>

theorem console_transmit_exact:
  assumes "guest_ram_laws R ok" "ok m" "bufs_hold R m (ch_readable c) xs" "length (concat xs) < 2 ^ 64"
  shows "tx_copy buffer_backend R m c 0 (replicate (unat (min (readable_len c) CHUNK)) 0) b =
    Some (Inr (), b\<lparr>bc_output := bc_output b @ concat xs\<rparr>)"
proof -
  have "unat (readable_len c) = length (concat xs)"
    unfolding readable_len_def bufs_total_length [where R = R and ok = ok, OF assms(2,3,1)]
    using assms(4) by (rule unat_of_nat64)
  then have "replicate (unat (min (readable_len c) CHUNK)) (0 :: u8) = [] \<longrightarrow> concat xs = []"
    by (auto simp: min_def CHUNK_def split: if_splits)
  then show ?thesis using guest_ram_laws.tx_copy_all [OF assms, of 0] by simp
qed

theorem console_transmit_exact_witness:
  "tx_copy buffer_backend vec_ram_ops \<lparr>vr_base = 0x1000, vr_bytes = [1, 2, 3, 4]\<rparr> split_chain 0
    (replicate (unat (min (readable_len split_chain) CHUNK)) 0) \<lparr>bc_input = [], bc_output = [7]\<rparr> =
   Some (Inr (), \<lparr>bc_input = [], bc_output = [7, 3, 4, 1]\<rparr>)"
proof -
  let ?m = "\<lparr>vr_base = 0x1000, vr_bytes = [1, 2, 3, 4]\<rparr> :: vec_ram"
  have "bufs_hold vec_ram_ops ?m (ch_readable split_chain) [[3, 4], [1]]"
    by (simp add: bufs_hold_def split_chain_def vec_ram_ops_def vec_ram_read_eq vr_fits_def)
  moreover have "vec_ram_ok ?m" by (simp add: vec_ram_ok_def)
  ultimately show ?thesis
    using console_transmit_exact [OF vram.guest_ram_laws_axioms, of ?m split_chain "[[3, 4], [1]]" "\<lparr>bc_input = [], bc_output = [7]\<rparr>"]
    by simp
qed

end
