(* ===== verification/Cpu_Bits.thy ===== *)
theory Cpu_Bits
  imports Prelude
begin

text \<open>
  Bit functions of the decoder and of the executor, \<^verbatim>\<open>crates/vetro-cpu/src/bits.rs\<close>. Bit positions,
  widths and shift counts are \<open>nat\<close>; a signed 64-bit value is the word of its bits. The masks of
  the logical immediates and of the bitfield instructions (\<^verbatim>\<open>decode_bit_masks\<close>) are described bit by
  bit, with the encodings that are reserved.
\<close>

subsection \<open>Model\<close>

definition field :: "u32 \<Rightarrow> nat \<Rightarrow> nat \<Rightarrow> u32" where
  "field w hi lo = drop_bit lo w AND drop_bit (31 - (hi - lo)) (- 1)"

definition wbit :: "u32 \<Rightarrow> nat \<Rightarrow> bool" where
  "wbit w n \<longleftrightarrow> drop_bit n w AND 1 \<noteq> 0"

definition sext :: "u64 \<Rightarrow> nat \<Rightarrow> u64" where
  "sext v width = signed_drop_bit (64 - width) (push_bit (64 - width) v)"

definition ones :: "nat \<Rightarrow> u64" where
  "ones n = (if n \<ge> 64 then - 1 else push_bit n 1 - 1)"

definition ror :: "u64 \<Rightarrow> nat \<Rightarrow> nat \<Rightarrow> u64" where
  "ror v amount width =
    (let v = v AND ones width; a = amount mod width
     in if a = 0 then v else (drop_bit a v OR push_bit (width - a) v) AND ones width)"

text \<open>The loop of \<^verbatim>\<open>replicate\<close> does not end for elements of no bits.\<close>

partial_function (option) replicate_loop :: "u64 \<Rightarrow> nat \<Rightarrow> nat \<Rightarrow> nat \<Rightarrow> u64 \<Rightarrow> u64 option" where
  "replicate_loop v esize width i r =
    (if i < width then replicate_loop v esize width (i + esize) (r OR push_bit i v)
     else Some (r AND ones width))"

definition replicate_elem :: "u64 \<Rightarrow> nat \<Rightarrow> nat \<Rightarrow> u64 option" where
  "replicate_elem v esize width = replicate_loop v esize width 0 0"

primrec lz_from :: "nat \<Rightarrow> 'a::len word \<Rightarrow> nat" where
  "lz_from 0 w = 0"
| "lz_from (Suc n) w = (if bit w n then 0 else Suc (lz_from n w))"

definition leading_zeros :: "'a::len word \<Rightarrow> nat" where
  "leading_zeros w = lz_from LENGTH('a) w"

definition decode_bit_masks :: "u32 \<Rightarrow> u32 \<Rightarrow> u32 \<Rightarrow> bool \<Rightarrow> nat \<Rightarrow> (u64 \<times> u64) option" where
  "decode_bit_masks n imms immr immediate datasize =
    (let combined = push_bit 6 n OR (NOT imms AND 0x3f)
     in if combined = 0 then None
        else let len = 31 - leading_zeros combined
             in if len < 1 \<or> datasize < 2 ^ len then None
                else let levels = push_bit len 1 - 1 :: u32
                     in if immediate \<and> imms AND levels = levels then None
                        else let s = imms AND levels; r = immr AND levels; d = (s - r) AND levels;
                                 esize = 2 ^ len;
                                 welem = ones (unat s + 1); telem = ones (unat d + 1)
                             in Option.bind (replicate_elem (ror welem (unat r) esize) esize datasize)
                                  (\<lambda>wmask. Option.bind (replicate_elem telem esize datasize)
                                    (\<lambda>tmask. Some (wmask, tmask))))"

subsection \<open>Fields and masks\<close>

lemma ones_mask: "ones n = mask n"
  by (auto simp: ones_def mask_eq_exp_minus_1 push_bit_eq_mult intro!: bit_word_eqI)

lemma bit_ones [bit_simps]: "bit (ones n) i \<longleftrightarrow> i < n \<and> i < 64"
  by (auto simp: ones_mask bit_simps)

lemma field_take_bit: "lo \<le> hi \<Longrightarrow> hi - lo < 32 \<Longrightarrow> field w hi lo = take_bit (hi - lo + 1) (drop_bit lo w)"
  by (rule bit_word_eqI) (auto simp: field_def bit_simps)

lemma field_less: "lo \<le> hi \<Longrightarrow> hi - lo < 31 \<Longrightarrow> unat (field w hi lo) < 2 ^ (hi - lo + 1)"
  using take_bit_nat_less_exp [of "hi - lo + 1" "unat (drop_bit lo w)"]
  by (simp add: field_take_bit unsigned_take_bit_eq)

lemma wbit_iff: "wbit w n \<longleftrightarrow> bit w n"
  by (simp add: wbit_def bit_iff_odd_drop_bit and_one_eq odd_iff_mod_2_eq_one)

lemma bit_sext [bit_simps]:
  assumes "0 < width" "width \<le> 64"
  shows "bit (sext v width) i \<longleftrightarrow> i < 64 \<and> bit v (if i < width then i else width - 1)"
  using assms by (auto simp: sext_def bit_simps)

lemma bit_ror [bit_simps]:
  assumes "0 < width" "width \<le> 64"
  shows "bit (ror v a width) i \<longleftrightarrow> i < width \<and> bit v ((i + a) mod width)"
proof (cases "i < width")
  case True
  define m where "m = a mod width"
  have m: "m < width" unfolding m_def using assms(1) by simp
  have e: "(i + a) mod width = (if i + m < width then i + m else i + m - width)"
  proof -
    have "(i + a) mod width = (i + m) mod width" unfolding m_def by (simp add: mod_add_right_eq)
    also have "\<dots> = (if i + m < width then i + m else i + m - width)"
      using True m by (cases "i + m < width") (simp_all add: le_mod_geq)
    finally show ?thesis .
  qed
  show ?thesis
    using assms(2) True m unfolding e unfolding ror_def Let_def m_def [symmetric]
    by (auto simp: bit_simps not_less add.commute)
qed (auto simp: ror_def Let_def bit_simps)

lemma replicate_loop_Some:
  assumes "0 < esize"
  shows "\<exists>x. replicate_loop v esize width i r = Some x \<and>
    (\<forall>j<64. bit x j \<longleftrightarrow> j < width \<and> (bit r j \<or> (\<exists>k. i + k * esize < width \<and> i + k * esize \<le> j \<and> bit v (j - (i + k * esize)))))"
proof (induction "width - i" arbitrary: i r rule: less_induct)
  case less
  show ?case
  proof (cases "i < width")
    case True
    then have lt: "width - (i + esize) < width - i" using assms by simp
    obtain x where x: "replicate_loop v esize width (i + esize) (r OR push_bit i v) = Some x"
      and b: "\<forall>j<64. bit x j \<longleftrightarrow> j < width \<and> (bit (r OR push_bit i v) j \<or>
        (\<exists>k. i + esize + k * esize < width \<and> i + esize + k * esize \<le> j \<and> bit v (j - (i + esize + k * esize))))"
      using less.hyps [OF lt, of "r OR push_bit i v"] by blast
    have split: "(\<exists>k. i + k * esize < width \<and> i + k * esize \<le> j \<and> bit v (j - (i + k * esize))) \<longleftrightarrow>
      (i \<le> j \<and> bit v (j - i)) \<or>
      (\<exists>k. i + esize + k * esize < width \<and> i + esize + k * esize \<le> j \<and> bit v (j - (i + esize + k * esize)))" for j
    proof -
      have "(\<exists>k. Q k) \<longleftrightarrow> Q 0 \<or> (\<exists>k. Q (Suc k))" for Q :: "nat \<Rightarrow> bool"
        by (metis not0_implies_Suc)
      from this [of "\<lambda>k. i + k * esize < width \<and> i + k * esize \<le> j \<and> bit v (j - (i + k * esize))"] True
      show ?thesis by (simp add: add.assoc)
    qed
    have "\<forall>j<64. bit x j \<longleftrightarrow> j < width \<and> (bit r j \<or> (\<exists>k. i + k * esize < width \<and> i + k * esize \<le> j \<and> bit v (j - (i + k * esize))))"
      unfolding split using b by (auto simp: bit_simps)
    with x True show ?thesis by (subst replicate_loop.simps) simp
  next
    case False
    then show ?thesis by (subst replicate_loop.simps) (auto simp: bit_simps)
  qed
qed

lemma replicate_elem_Some:
  assumes e: "0 < esize" "esize dvd width" and v: "\<And>j. bit v j \<Longrightarrow> j < esize"
  shows "\<exists>x. replicate_elem v esize width = Some x \<and> (\<forall>j<64. bit x j \<longleftrightarrow> j < width \<and> bit v (j mod esize))"
proof -
  have *: "(\<exists>k. k * esize < width \<and> k * esize \<le> j \<and> bit v (j - k * esize)) \<longleftrightarrow> bit v (j mod esize)"
    if "j < width" for j
  proof
    assume "\<exists>k. k * esize < width \<and> k * esize \<le> j \<and> bit v (j - k * esize)"
    then obtain k where k: "k * esize \<le> j" "bit v (j - k * esize)" by blast
    then have "j - k * esize = j mod esize"
      using v [OF k(2)] k(1) by (metis add_diff_inverse_nat leD mod_less mod_mult_self3)
    with k show "bit v (j mod esize)" by simp
  next
    assume "bit v (j mod esize)"
    then show "\<exists>k. k * esize < width \<and> k * esize \<le> j \<and> bit v (j - k * esize)"
      using that by (intro exI [of _ "j div esize"])
        (auto simp: minus_div_mult_eq_mod intro: le_less_trans [OF div_times_less_eq_dividend])
  qed
  obtain x where "replicate_elem v esize width = Some x"
    "\<forall>j<64. bit x j \<longleftrightarrow> j < width \<and> (\<exists>k. k * esize < width \<and> k * esize \<le> j \<and> bit v (j - k * esize))"
    using replicate_loop_Some [OF e(1), of v width 0 0] unfolding replicate_elem_def by auto
  with * show ?thesis by blast
qed

subsection \<open>The masks, bit by bit\<close>

lemma lz_from_top:
  assumes "\<exists>k<n. bit w k"
  shows "\<exists>l<n. bit w l \<and> (\<forall>k<n. l < k \<longrightarrow> \<not> bit w k) \<and> lz_from n w = n - 1 - l"
  using assms
proof (induction n)
  case (Suc n)
  show ?case
  proof (cases "bit w n")
    case False
    with Suc.prems have "\<exists>k<n. bit w k" using less_Suc_eq by auto
    with Suc.IH obtain l where "l < n" "bit w l" "\<forall>k<n. l < k \<longrightarrow> \<not> bit w k" "lz_from n w = n - 1 - l"
      by blast
    with False show ?thesis by (intro exI [of _ l]) (auto simp: less_Suc_eq)
  qed (auto intro: exI [of _ n])
qed simp

lemma leading_zeros_top:
  fixes w :: "'a::len word"
  assumes "bit w l" "\<And>k. l < k \<Longrightarrow> \<not> bit w k"
  shows "leading_zeros w = LENGTH('a) - 1 - l"
proof -
  have "l < LENGTH('a)" using assms(1) by (rule bit_imp_le_length)
  with assms(1) obtain l' where "l' < LENGTH('a)" "bit w l'" "\<forall>k<LENGTH('a). l' < k \<longrightarrow> \<not> bit w k"
    "lz_from LENGTH('a) w = LENGTH('a) - 1 - l'"
    using lz_from_top [of "LENGTH('a)" w] by blast
  moreover from this assms \<open>l < LENGTH('a)\<close> have "l' = l" by (metis linorder_neqE_nat)
  ultimately show ?thesis by (simp add: leading_zeros_def)
qed

text \<open>
  The size of the element as the architecture reads it: the position of the highest bit set in
  \<^verbatim>\<open>N : NOT(imms)\<close>.
\<close>

definition mask_len :: "u32 \<Rightarrow> u32 \<Rightarrow> nat option" where
  "mask_len n imms = (if bit n 0 then Some 6 else find (\<lambda>k. \<not> bit imms k) [5, 4, 3, 2, 1, 0])"

definition mask_reserved :: "u32 \<Rightarrow> u32 \<Rightarrow> bool \<Rightarrow> nat \<Rightarrow> bool" where
  "mask_reserved n imms immediate datasize \<longleftrightarrow> (case mask_len n imms of
      None \<Rightarrow> True
    | Some l \<Rightarrow> l = 0 \<or> datasize < 2 ^ l \<or> immediate \<and> unat imms mod 2 ^ l = 2 ^ l - 1)"

lemma bit_combined:
  assumes "n \<le> 1"
  shows "bit (push_bit 6 n OR (NOT imms AND 0x3f) :: u32) k \<longleftrightarrow> (k = 6 \<and> bit n 0) \<or> (k < 6 \<and> \<not> bit imms k)"
proof -
  have m: "(0x3f :: u32) = mask 6" by (simp add: mask_eq_exp_minus_1)
  from assms have n: "bit n j \<longleftrightarrow> j = 0 \<and> bit n 0" for j
    using word_small_no_bit [of n 1 j] by (cases "j = 0") (auto simp: word_le_nat_alt)
  show ?thesis
    using n [of "k - 6"] by (cases "k < 6") (auto simp: m bit_simps dest: bit_imp_le_length)
qed


lemma below6: "k < 6 \<Longrightarrow> k = 0 \<or> k = 1 \<or> k = 2 \<or> k = 3 \<or> k = 4 \<or> k = (5 :: nat)"
  by presburger

lemma mask_len_combined:
  fixes n imms :: u32
  assumes "n \<le> 1"
  defines "c \<equiv> push_bit 6 n OR (NOT imms AND 0x3f) :: u32"
  shows "mask_len n imms = (if c = 0 then None else Some (31 - leading_zeros c))"
proof (cases "mask_len n imms")
  case None
  then have "\<not> bit c k" for k
    unfolding c_def bit_combined [OF assms(1)] using below6 [of k] by (auto simp: mask_len_def split: if_splits)
  then have "c = 0" by (simp add: bit_eq_iff)
  with None show ?thesis by simp
next
  case (Some l)
  then have l: "bit c l \<and> l \<le> 6"
    unfolding c_def bit_combined [OF assms(1)] by (auto simp: mask_len_def split: if_splits)
  moreover have "\<not> bit c k" if "l < k" for k
    using Some that unfolding c_def bit_combined [OF assms(1)]
    by (auto simp: mask_len_def dest!: below6 split: if_splits)
  ultimately have "leading_zeros c = 31 - l" using leading_zeros_top [of c l] by simp
  moreover from l have "c \<noteq> 0" by auto
  ultimately show ?thesis using Some l by simp
qed

lemma mask_len_le: "mask_len n imms = Some l \<Longrightarrow> l \<le> 6"
  by (auto simp: mask_len_def split: if_splits)

lemma unat_and_levels:
  "unat (x AND (push_bit l 1 - 1 :: u32)) = unat x mod 2 ^ l"
proof -
  have "x AND (push_bit l 1 - 1) = take_bit l x"
    by (simp add: take_bit_eq_mask mask_eq_exp_minus_1 push_bit_eq_mult)
  then show ?thesis by (simp only: unsigned_take_bit_eq) (simp add: take_bit_eq_mod)
qed

lemma ror_ones:
  assumes "0 < esize" "esize \<le> 64" "j < 64"
  shows "bit (ror (ones (Suc s)) r esize) j \<longleftrightarrow> j < esize \<and> (j + r) mod esize \<le> s"
proof -
  have "(j + r) mod esize < 64" using assms by (meson less_le_trans mod_less_divisor)
  with assms show ?thesis by (auto simp: bit_simps)
qed


lemma decode_bit_masks_unfold:
  assumes "n \<le> 1"
  shows "decode_bit_masks n imms immr immediate datasize =
    (if mask_reserved n imms immediate datasize then None
     else let E = 2 ^ the (mask_len n imms); S = unat imms mod E; R = unat immr mod E
          in Option.bind (replicate_elem (ror (ones (S + 1)) R E) E datasize)
               (\<lambda>w. Option.bind (replicate_elem (ones ((S + E - R) mod E + 1)) E datasize) (\<lambda>t. Some (w, t))))"
proof (cases "mask_len n imms")
  case None
  then show ?thesis
    using mask_len_combined [OF assms, of imms]
    by (simp add: decode_bit_masks_def mask_reserved_def Let_def split: if_splits)
next
  case (Some l)
  let ?c = "push_bit 6 n OR (NOT imms AND 0x3f) :: u32" and ?L = "push_bit l 1 - 1 :: u32"
  from Some mask_len_combined [OF assms, of imms] have c: "?c \<noteq> 0" and l: "31 - leading_zeros ?c = l"
    by (auto split: if_splits)
  have "l \<le> 6" by (rule mask_len_le [OF Some])
  then have dv: "(2 :: nat) ^ l dvd 2 ^ 32" by (intro le_imp_power_dvd) simp
  have L: "unat ?L = 2 ^ l - 1"
    using below6 [of l] \<open>l \<le> 6\<close> by (cases "l = 6") (auto simp: push_bit_eq_mult)
  have lev: "imms AND ?L = ?L \<longleftrightarrow> unat imms mod 2 ^ l = 2 ^ l - 1"
    using unat_and_levels [of imms l] L by (metis word_unat_eq_iff)
  have d: "unat ((imms AND ?L) - (immr AND ?L) AND ?L) = (unat imms mod 2 ^ l + 2 ^ l - unat immr mod 2 ^ l) mod 2 ^ l"
    (is "_ = (?s + 2 ^ l - ?r) mod 2 ^ l")
  proof (cases "?r \<le> ?s")
    case True
    then have "?s + 2 ^ l - ?r = ?s - ?r + 2 ^ l" by simp
    then have "(?s + 2 ^ l - ?r) mod 2 ^ l = (?s - ?r) mod 2 ^ l" by (metis mod_add_self2)
    with True show ?thesis
      by (simp only: unat_and_levels unat_sub_if_size) (simp add: unat_and_levels)
  next
    case False
    have "?r < 2 ^ l" by simp
    obtain q where q: "(2 :: nat) ^ 32 = 2 ^ l * q" using dv by (elim dvdE)
    moreover have "0 < q" using q by (cases q) simp_all
    then have "2 ^ l * q = 2 ^ l + 2 ^ l * (q - 1)" by (cases q) simp_all
    ultimately have "?s + 2 ^ 32 - ?r = ?s + 2 ^ l - ?r + 2 ^ l * (q - 1)"
      using \<open>?r < 2 ^ l\<close> by linarith
    then have "(?s + 2 ^ 32 - ?r) mod 2 ^ l = (?s + 2 ^ l - ?r) mod 2 ^ l" by (metis mod_mult_self2)
    with False show ?thesis
      by (simp only: unat_and_levels unat_sub_if_size) (simp add: unat_and_levels word_size)
  qed
  show ?thesis
    unfolding decode_bit_masks_def Let_def l lev d
    unfolding unat_and_levels mask_reserved_def Some
    using c by auto
qed

lemma replicate_ones:
  assumes "0 < esize" "esize dvd width" "d < esize" "esize \<le> 64"
  shows "\<exists>x. replicate_elem (ones (Suc d)) esize width = Some x \<and> (\<forall>j<64. bit x j \<longleftrightarrow> j < width \<and> j mod esize \<le> d)"
proof -
  have "j mod esize < 64" for j using assms(1,4) by (meson less_le_trans mod_less_divisor)
  then show ?thesis
    using replicate_elem_Some [of esize width "ones (Suc d)"] assms by (auto simp: bit_simps)
qed

lemma replicate_ror_ones:
  assumes "0 < esize" "esize dvd width" "esize \<le> 64"
  shows "\<exists>x. replicate_elem (ror (ones (Suc s)) r esize) esize width = Some x \<and>
    (\<forall>j<64. bit x j \<longleftrightarrow> j < width \<and> (j + r) mod esize \<le> s)"
proof -
  have j: "j mod esize < 64" "j mod esize < esize" for j
    using assms(1,3) by (auto intro: less_le_trans [OF mod_less_divisor])
  have "bit (ror (ones (Suc s)) r esize) k \<Longrightarrow> k < esize" for k
    using assms by (auto simp: bit_simps)
  then show ?thesis
    using replicate_elem_Some [of esize width "ror (ones (Suc s)) r esize"] assms j
    by (simp add: ror_ones mod_add_left_eq)
qed

lemma decode_bit_masks_cases:
  assumes "datasize = 32 \<or> datasize = 64" "n \<le> 1" "\<not> mask_reserved n imms immediate datasize"
  defines "E \<equiv> 2 ^ the (mask_len n imms)"
  shows "\<exists>w t. decode_bit_masks n imms immr immediate datasize = Some (w, t) \<and>
    (\<forall>i<64. bit w i \<longleftrightarrow> i < datasize \<and> (i + unat immr mod E) mod E \<le> unat imms mod E) \<and>
    (\<forall>i<64. bit t i \<longleftrightarrow> i < datasize \<and> i mod E \<le> (unat imms mod E + E - unat immr mod E) mod E)"
proof -
  from assms(3) obtain l where l: "mask_len n imms = Some l" "2 ^ l \<le> datasize"
    by (auto simp: mask_reserved_def split: option.splits)
  have "l \<le> 6" by (rule mask_len_le [OF l(1)])
  have E: "E = 2 ^ l" by (simp add: E_def l)
  have dv: "E dvd datasize"
  proof -
    from assms(1) obtain k where "datasize = 2 ^ k" by (auto intro: that [of 5] that [of 6])
    with l E show ?thesis by (simp add: le_imp_power_dvd)
  qed
  have b: "0 < E" "E \<le> 64" using \<open>l \<le> 6\<close> E power_increasing [of l 6 "2 :: nat"] by auto
  show ?thesis
    using replicate_ror_ones [OF b(1) dv b(2), of "unat imms mod E" "unat immr mod E"]
      replicate_ones [OF b(1) dv mod_less_divisor [OF b(1)] b(2), of "unat imms mod E + E - unat immr mod E"] assms(3)
    by (fastforce simp: decode_bit_masks_unfold [OF assms(2)] E_def [symmetric] Let_def)
qed

text \<open>
  C40. The masks of the logical immediates and of the bitfield instructions. For the two data sizes
  the decoder gives no mask exactly for the reserved encodings (no element size, elements of one
  bit, an element larger than the register, and, for the immediates, an element of ones only), and
  otherwise both loops that fill the register end, the first mask holds at bit \<open>i\<close> exactly when \<open>i\<close>,
  rotated by \<^verbatim>\<open>immr\<close> in its element, is at most \<^verbatim>\<open>imms\<close>, and the second exactly when the position of
  \<open>i\<close> in its element is at most their difference.
\<close>

theorem decode_bit_masks_exact:
  assumes "datasize = 32 \<or> datasize = 64" "n \<le> 1"
  shows "let E = 2 ^ the (mask_len n imms); S = unat imms mod E; R = unat immr mod E
    in (decode_bit_masks n imms immr immediate datasize = None) = mask_reserved n imms immediate datasize \<and>
       (\<forall>w t. decode_bit_masks n imms immr immediate datasize = Some (w, t) \<longrightarrow>
         (\<forall>i<64. bit w i = (i < datasize \<and> (i + R) mod E \<le> S) \<and>
                 bit t i = (i < datasize \<and> i mod E \<le> (S + E - R) mod E)))"
proof (cases "mask_reserved n imms immediate datasize")
  case True
  then show ?thesis by (simp add: decode_bit_masks_unfold [OF assms(2)])
next
  case False
  from decode_bit_masks_cases [OF assms False, of immr] show ?thesis
    by (auto simp: Let_def False)
qed

theorem decode_bit_masks_exact_witness:
  "bit (fst (the (decode_bit_masks 0 0x3c 0 True 32))) 4 \<and> \<not> bit (fst (the (decode_bit_masks 0 0x3c 0 True 32))) 5"
proof -
  have l: "mask_len 0 0x3c = Some 1" by (simp add: mask_len_def bit_simps)
  have "\<not> mask_reserved 0 0x3c True 32" by (simp add: mask_reserved_def l)
  then obtain w t where "decode_bit_masks 0 0x3c 0 True 32 = Some (w, t)"
    using decode_bit_masks_exact [of 32 0 "0x3c" 0 True] by (auto simp: Let_def)
  then show ?thesis
    using decode_bit_masks_exact [of 32 0 "0x3c" 0 True] by (auto simp: Let_def l)
qed

end
