(* ===== verification/Cpu_State.thy ===== *)
theory Cpu_State
  imports Cpu_Bits Mmu
begin

text \<open>
  The state of a core and the exceptions of system mode: \<^verbatim>\<open>state.rs\<close>, \<^verbatim>\<open>sys/state.rs\<close> and
  \<^verbatim>\<open>sys/except.rs\<close> of \<^verbatim>\<open>crates/vetro-cpu/src\<close>. Arrays are lists of the length they have in the
  source, which the invariants \<open>cpu_ok\<close> and \<open>sys_ok\<close> state; register numbers are bytes. The registers that
  govern the translation are the record of the memory management unit.
\<close>

subsection \<open>The registers\<close>

record monitor =
  mon_addr :: u64
  mon_bytes :: u32
  mon_value :: u128

datatype mode = User | System

datatype psci_conduit = ConduitHvc | ConduitSmc | ConduitNone

record sys_config =
  cfg_psci :: psci_conduit
  cfg_mpidr :: u64
  cfg_gicv3 :: bool
  cfg_cbar :: u64

definition sys_config_default :: sys_config where
  "sys_config_default = \<lparr>cfg_psci = ConduitHvc, cfg_mpidr = 0x80000000, cfg_gicv3 = True, cfg_cbar = 0x08000000\<rparr>"

definition sctlr_A :: u64 where "sctlr_A = push_bit 1 1"
definition sctlr_SA :: u64 where "sctlr_SA = push_bit 3 1"
definition sctlr_SA0 :: u64 where "sctlr_SA0 = push_bit 4 1"
definition sctlr_UMA :: u64 where "sctlr_UMA = push_bit 9 1"
definition sctlr_DZE :: u64 where "sctlr_DZE = push_bit 14 1"
definition sctlr_UCT :: u64 where "sctlr_UCT = push_bit 15 1"
definition sctlr_NTWI :: u64 where "sctlr_NTWI = push_bit 16 1"
definition sctlr_E0E :: u64 where "sctlr_E0E = push_bit 24 1"
definition sctlr_UCI :: u64 where "sctlr_UCI = push_bit 26 1"
definition sctlr_MTE_BITS :: u64 where
  "sctlr_MTE_BITS = push_bit 37 1 OR push_bit 38 3 OR push_bit 40 3 OR push_bit 42 1 OR push_bit 43 1"

definition FPEN_SHIFT :: nat where "FPEN_SHIFT = 20"

definition EL0PCTEN :: u64 where "EL0PCTEN = push_bit 0 1"
definition EL0VCTEN :: u64 where "EL0VCTEN = push_bit 1 1"
definition EL0VTEN :: u64 where "EL0VTEN = push_bit 8 1"
definition EL0PTEN :: u64 where "EL0PTEN = push_bit 9 1"

definition spsr_NZCV :: u64 where "spsr_NZCV = 0xf0000000"
definition spsr_IL :: u64 where "spsr_IL = push_bit 20 1"
definition spsr_DAIF :: u64 where "spsr_DAIF = 0x3c0"
definition spsr_M :: u64 where "spsr_M = 0x1f"

definition daif_D :: u32 where "daif_D = push_bit 9 1"
definition daif_A :: u32 where "daif_A = push_bit 8 1"
definition daif_I :: u32 where "daif_I = push_bit 7 1"
definition daif_F :: u32 where "daif_F = push_bit 6 1"
definition daif_ALL :: u32 where "daif_ALL = daif_D OR daif_A OR daif_I OR daif_F"

record sys_state =
  s_mode :: mode
  s_cfg :: sys_config
  s_el :: u8
  s_spsel :: bool
  s_daif :: u32
  s_il :: bool
  s_sp_el :: "u64 list"
  s_elr_el1 :: u64
  s_spsr_el1 :: u64
  s_vbar_el1 :: u64
  s_esr_el1 :: u64
  s_far_el1 :: u64
  s_sctlr_el1 :: u64
  s_tcr_el1 :: u64
  s_ttbr0_el1 :: u64
  s_ttbr1_el1 :: u64
  s_mair_el1 :: u64
  s_contextidr_el1 :: u64
  s_cpacr_el1 :: u64
  s_tpidr_el1 :: u64
  s_par_el1 :: u64
  s_cntkctl_el1 :: u64
  s_csselr_el1 :: u64
  s_mdscr_el1 :: u64
  s_oslk :: bool
  s_osdlr_el1 :: u64
  s_dbgbvr :: "u64 list"
  s_dbgbcr :: "u64 list"
  s_dbgwvr :: "u64 list"
  s_dbgwcr :: "u64 list"
  s_dbgclaim :: u8
  s_pmuserenr_el0 :: u64
  s_serror_pending :: "u32 option"

definition sys_state_default :: sys_state where
  "sys_state_default = \<lparr>s_mode = User, s_cfg = sys_config_default, s_el = 0, s_spsel = False,
    s_daif = 0, s_il = False, s_sp_el = replicate 2 0, s_elr_el1 = 0, s_spsr_el1 = 0,
    s_vbar_el1 = 0, s_esr_el1 = 0, s_far_el1 = 0, s_sctlr_el1 = 0, s_tcr_el1 = 0,
    s_ttbr0_el1 = 0, s_ttbr1_el1 = 0, s_mair_el1 = 0, s_contextidr_el1 = 0, s_cpacr_el1 = 0,
    s_tpidr_el1 = 0, s_par_el1 = 0, s_cntkctl_el1 = 0, s_csselr_el1 = 0, s_mdscr_el1 = 0,
    s_oslk = False, s_osdlr_el1 = 0, s_dbgbvr = replicate 6 0, s_dbgbcr = replicate 6 0,
    s_dbgwvr = replicate 4 0, s_dbgwcr = replicate 4 0, s_dbgclaim = 0, s_pmuserenr_el0 = 0,
    s_serror_pending = None\<rparr>"

record cpu =
  c_x :: "u64 list"
  c_sp :: u64
  c_pc :: u64
  c_nzcv :: u32
  c_tpidr_el0 :: u64
  c_tpidrro_el0 :: u64
  c_monitor :: "monitor option"
  c_v :: "u128 list"
  c_fpcr :: u32
  c_fpsr :: u32
  c_sys :: sys_state

definition cpu_new :: cpu where
  "cpu_new = \<lparr>c_x = replicate 31 0, c_sp = 0, c_pc = 0, c_nzcv = 0, c_tpidr_el0 = 0,
    c_tpidrro_el0 = 0, c_monitor = None, c_v = replicate 32 0, c_fpcr = 0, c_fpsr = 0,
    c_sys = sys_state_default\<rparr>"

definition FPCR_MASK :: u32 where "FPCR_MASK = 0x07C00000"
definition FPSR_MASK :: u32 where "FPSR_MASK = 0x0800009F"

definition flag_N :: u32 where "flag_N = push_bit 31 1"
definition flag_Z :: u32 where "flag_Z = push_bit 30 1"
definition flag_C :: u32 where "flag_C = push_bit 29 1"
definition flag_V :: u32 where "flag_V = push_bit 28 1"

definition xr :: "cpu \<Rightarrow> u8 \<Rightarrow> u64" where
  "xr c r = (if r = 31 then 0 else c_x c ! unat r)"

definition xsp :: "cpu \<Rightarrow> u8 \<Rightarrow> u64" where
  "xsp c r = (if r = 31 then c_sp c else c_x c ! unat r)"

definition set_x :: "u8 \<Rightarrow> u64 \<Rightarrow> cpu \<Rightarrow> cpu" where
  "set_x r v c = (if r \<noteq> 31 then c\<lparr>c_x := (c_x c)[unat r := v]\<rparr> else c)"

definition set_xsp :: "u8 \<Rightarrow> u64 \<Rightarrow> cpu \<Rightarrow> cpu" where
  "set_xsp r v c = (if r = 31 then c\<lparr>c_sp := v\<rparr> else c\<lparr>c_x := (c_x c)[unat r := v]\<rparr>)"

definition set_flags :: "bool \<Rightarrow> bool \<Rightarrow> bool \<Rightarrow> bool \<Rightarrow> cpu \<Rightarrow> cpu" where
  "set_flags n z cf v c =
    c\<lparr>c_nzcv := push_bit 31 (of_bool n) OR push_bit 30 (of_bool z) OR push_bit 29 (of_bool cf) OR
               push_bit 28 (of_bool v)\<rparr>"

definition condition_holds :: "cpu \<Rightarrow> u8 \<Rightarrow> bool" where
  "condition_holds c cond =
    (let f = c_nzcv c;
         n = (f AND flag_N \<noteq> 0); z = (f AND flag_Z \<noteq> 0); cf = (f AND flag_C \<noteq> 0); v = (f AND flag_V \<noteq> 0);
         k = drop_bit 1 cond;
         r = (if k = 0 then z else if k = 1 then cf else if k = 2 then n else if k = 3 then v
              else if k = 4 then cf \<and> \<not> z else if k = 5 then n = v
              else if k = 6 then n = v \<and> \<not> z else True)
     in if cond AND 1 = 1 \<and> cond \<noteq> 15 then \<not> r else r)"

subsection \<open>System mode\<close>

definition SCTLR_EL1_RESET :: u64 where "SCTLR_EL1_RESET = 0x00c50838"

definition reset_system :: "sys_config \<Rightarrow> cpu \<Rightarrow> cpu" where
  "reset_system cfg c =
    c\<lparr>c_sys := sys_state_default\<lparr>s_mode := System, s_cfg := cfg, s_el := 1, s_spsel := True,
                 s_daif := daif_ALL, s_sctlr_el1 := SCTLR_EL1_RESET, s_oslk := True\<rparr>,
      c_monitor := None\<rparr>"

definition sp_index :: "u8 \<Rightarrow> bool \<Rightarrow> nat" where
  "sp_index el spsel = (if el = 0 \<or> \<not> spsel then 0 else 1)"

definition sp_el :: "cpu \<Rightarrow> nat \<Rightarrow> u64" where
  "sp_el c n = (if sp_index (s_el (c_sys c)) (s_spsel (c_sys c)) = n then c_sp c
                else s_sp_el (c_sys c) ! n)"

definition set_sp_el :: "nat \<Rightarrow> u64 \<Rightarrow> cpu \<Rightarrow> cpu" where
  "set_sp_el n v c =
    (if sp_index (s_el (c_sys c)) (s_spsel (c_sys c)) = n then c\<lparr>c_sp := v\<rparr>
     else c\<lparr>c_sys := (c_sys c)\<lparr>s_sp_el := (s_sp_el (c_sys c))[n := v]\<rparr>\<rparr>)"

definition set_el_sp :: "u8 \<Rightarrow> bool \<Rightarrow> cpu \<Rightarrow> cpu" where
  "set_el_sp el spsel c =
    (let old = sp_index (s_el (c_sys c)) (s_spsel (c_sys c)); new = sp_index el spsel;
         c1 = (if old \<noteq> new then
                 let l = (s_sp_el (c_sys c))[old := c_sp c]
                 in c\<lparr>c_sys := (c_sys c)\<lparr>s_sp_el := l\<rparr>, c_sp := l ! new\<rparr>
               else c)
     in c1\<lparr>c_sys := (c_sys c1)\<lparr>s_el := el, s_spsel := spsel\<rparr>\<rparr>)"

definition pstate_spsr :: "cpu \<Rightarrow> u64" where
  "pstate_spsr c =
    (let m = push_bit 2 (ucast (s_el (c_sys c))) OR of_bool (s_spsel (c_sys c))
     in ucast (c_nzcv c AND 0xf0000000) OR push_bit 20 (of_bool (s_il (c_sys c))) OR
        ucast (s_daif (c_sys c)) OR m)"

definition translation_regs :: "cpu \<Rightarrow> mmu_regs" where
  "translation_regs c =
    (let s = c_sys c
     in \<lparr>sctlr = s_sctlr_el1 s, tcr = s_tcr_el1 s, ttbr0 = s_ttbr0_el1 s, ttbr1 = s_ttbr1_el1 s,
         mair = s_mair_el1 s\<rparr>)"

definition fp_trapped :: "cpu \<Rightarrow> bool" where
  "fp_trapped c =
    (let f = drop_bit FPEN_SHIFT (s_cpacr_el1 (c_sys c)) AND 3
     in if f = 3 then False else if f = 1 then s_el (c_sys c) = 0 else True)"

definition branch_addr :: "cpu \<Rightarrow> u64 \<Rightarrow> u64" where
  "branch_addr c target =
    (let tbi = (if drop_bit 55 target AND 1 \<noteq> 0 then push_bit 38 1 else push_bit 37 1)
     in if s_tcr_el1 (c_sys c) AND tbi \<noteq> 0 then sext target 56 else target)"

subsection \<open>Exception entry and return\<close>

definition EC_UNKNOWN :: u64 where "EC_UNKNOWN = 0x00"
definition EC_WFX :: u64 where "EC_WFX = 0x01"
definition EC_FP_ACCESS :: u64 where "EC_FP_ACCESS = 0x07"
definition EC_ILLEGAL_STATE :: u64 where "EC_ILLEGAL_STATE = 0x0e"
definition EC_SVC :: u64 where "EC_SVC = 0x15"
definition EC_SYSREG :: u64 where "EC_SYSREG = 0x18"
definition EC_INSN_ABORT_LOWER :: u64 where "EC_INSN_ABORT_LOWER = 0x20"
definition EC_INSN_ABORT_SAME :: u64 where "EC_INSN_ABORT_SAME = 0x21"
definition EC_PC_ALIGN :: u64 where "EC_PC_ALIGN = 0x22"
definition EC_DATA_ABORT_LOWER :: u64 where "EC_DATA_ABORT_LOWER = 0x24"
definition EC_DATA_ABORT_SAME :: u64 where "EC_DATA_ABORT_SAME = 0x25"
definition EC_SP_ALIGN :: u64 where "EC_SP_ALIGN = 0x26"
definition EC_SERROR :: u64 where "EC_SERROR = 0x2f"
definition EC_BRK :: u64 where "EC_BRK = 0x3c"

definition ESR_IL :: u64 where "ESR_IL = push_bit 25 1"

definition esr_of :: "u64 \<Rightarrow> u64 \<Rightarrow> u64" where
  "esr_of class iss = push_bit 26 class OR ESR_IL OR iss"

datatype exception_kind = Sync | Irq | Fiq | SError

fun exception_offset :: "exception_kind \<Rightarrow> u64" where
  "exception_offset Sync = 0x000"
| "exception_offset Irq = 0x080"
| "exception_offset Fiq = 0x100"
| "exception_offset SError = 0x180"

definition take_exception ::
  "exception_kind \<Rightarrow> u64 option \<Rightarrow> u64 option \<Rightarrow> u64 \<Rightarrow> cpu \<Rightarrow> cpu" where
  "take_exception kind e fa preferred c =
    (let from_el = s_el (c_sys c);
         group = (if from_el = 0 then 0x400 else if s_spsel (c_sys c) then 0x200 else 0x000);
         s1 = (c_sys c)\<lparr>s_spsr_el1 := pstate_spsr c, s_elr_el1 := preferred\<rparr>;
         s2 = (case e of Some v \<Rightarrow> s1\<lparr>s_esr_el1 := v\<rparr> | None \<Rightarrow> s1);
         s3 = (case fa of Some v \<Rightarrow> s2\<lparr>s_far_el1 := v\<rparr> | None \<Rightarrow> s2);
         c1 = set_el_sp 1 True (c\<lparr>c_sys := s3\<rparr>);
         s4 = (c_sys c1)\<lparr>s_daif := daif_ALL, s_il := False\<rparr>
     in c1\<lparr>c_sys := s4, c_pc := s_vbar_el1 s4 + (group + exception_offset kind)\<rparr>)"

definition exception_return :: "cpu \<Rightarrow> cpu" where
  "exception_return c =
    (let s = s_spsr_el1 (c_sys c); target = s_elr_el1 (c_sys c);
         c1 = c\<lparr>c_nzcv := ucast (s AND spsr_NZCV),
                c_sys := (c_sys c)\<lparr>s_daif := ucast (s AND spsr_DAIF)\<rparr>, c_monitor := None\<rparr>;
         m = s AND spsr_M
     in if m = 0 \<or> m = 4 \<or> m = 5 then
          let c2 = set_el_sp (ucast (drop_bit 2 m)) (m AND 1 \<noteq> 0) c1;
              c3 = c2\<lparr>c_sys := (c_sys c2)\<lparr>s_il := s AND spsr_IL \<noteq> 0\<rparr>\<rparr>
          in c3\<lparr>c_pc := branch_addr c3 target\<rparr>
        else c1\<lparr>c_sys := (c_sys c1)\<lparr>s_il := True\<rparr>, c_pc := target\<rparr>)"


subsection \<open>The invariant of a core\<close>

text \<open>
  The sizes of the register arrays, the flags in the upper four bits, and in system mode the level,
  the stack pointer selected and the interrupt masks.
\<close>

definition cpu_ok :: "cpu \<Rightarrow> bool" where
  "cpu_ok c \<longleftrightarrow> length (c_x c) = 31 \<and> length (c_v c) = 32 \<and> c_nzcv c AND 0x0fffffff = 0"

definition sys_ok :: "cpu \<Rightarrow> bool" where
  "sys_ok c \<longleftrightarrow> cpu_ok c \<and>
    (let s = c_sys c
     in s_mode s = System \<and> s_el s \<le> 1 \<and> (s_el s = 0 \<longrightarrow> \<not> s_spsel s) \<and> s_daif s AND NOT daif_ALL = 0 \<and>
        length (s_sp_el s) = 2 \<and> length (s_dbgbvr s) = 6 \<and> length (s_dbgbcr s) = 6 \<and>
        length (s_dbgwvr s) = 4 \<and> length (s_dbgwcr s) = 4)"

lemma daif_ALL_mask: "daif_ALL = push_bit 6 (mask 4)"
  by (simp add: daif_ALL_def daif_D_def daif_A_def daif_I_def daif_F_def mask_eq_exp_minus_1)

lemma spsr_masks:
  "spsr_NZCV = push_bit 28 (mask 4)" "spsr_DAIF = push_bit 6 (mask 4)" "spsr_M = mask 5"
  "spsr_IL = push_bit 20 1" "(0xf0000000 :: u32) = push_bit 28 (mask 4)" "(0x0fffffff :: u32) = mask 28"
  by (simp_all add: spsr_NZCV_def spsr_DAIF_def spsr_M_def spsr_IL_def mask_eq_exp_minus_1)

lemma nzcv_bits:
  assumes "n AND 0x0fffffff = 0" "bit (n :: u32) i"
  shows "28 \<le> i \<and> i < 32"
proof -
  have "\<not> bit (n AND mask 28) i" using assms(1) unfolding spsr_masks by simp
  with assms(2) show ?thesis by (auto simp: bit_simps dest: bit_imp_le_length)
qed

lemma daif_bits:
  assumes "d AND NOT daif_ALL = 0" "bit d i"
  shows "6 \<le> i \<and> i < 10"
proof -
  have "\<not> bit (d AND NOT daif_ALL) i" using assms(1) by simp
  with assms(2) show ?thesis by (auto simp: daif_ALL_mask bit_simps dest: bit_imp_le_length)
qed

lemma el_cases: "el \<le> 1 \<Longrightarrow> el = 0 \<or> el = (1 :: u8)"
  by (metis le_less word_less_1)

lemma el_bits: "el \<le> 1 \<Longrightarrow> bit (el :: u8) i \<Longrightarrow> i = 0"
  by (drule el_cases) (auto simp: bit_simps)

lemma sys_ok_cpu: "sys_ok c \<Longrightarrow> cpu_ok c"
  by (simp add: sys_ok_def)

lemma pstate_spsr_fields:
  assumes "sys_ok c"
  shows "ucast (pstate_spsr c AND spsr_NZCV) = c_nzcv c"
    "ucast (pstate_spsr c AND spsr_DAIF) = s_daif (c_sys c)"
    "pstate_spsr c AND spsr_M = push_bit 2 (ucast (s_el (c_sys c))) OR of_bool (s_spsel (c_sys c))"
    "pstate_spsr c AND spsr_IL \<noteq> 0 \<longleftrightarrow> s_il (c_sys c)"
proof -
  have n: "bit (c_nzcv c) i \<Longrightarrow> 28 \<le> i \<and> i < 32" and d: "bit (s_daif (c_sys c)) i \<Longrightarrow> 6 \<le> i \<and> i < 10"
    and e: "bit (s_el (c_sys c)) i \<Longrightarrow> i = 0" for i
    using assms nzcv_bits [of "c_nzcv c" i] daif_bits [of "s_daif (c_sys c)" i] el_bits [of "s_el (c_sys c)" i]
    by (simp_all add: sys_ok_def cpu_ok_def Let_def)
  note facts = pstate_spsr_def Let_def spsr_masks bit_simps
  show "ucast (pstate_spsr c AND spsr_NZCV) = c_nzcv c"
    by (rule bit_word_eqI) (auto simp: facts dest: n d e)
  show "ucast (pstate_spsr c AND spsr_DAIF) = s_daif (c_sys c)"
    by (rule bit_word_eqI) (auto simp: facts dest: n d e)
  show "pstate_spsr c AND spsr_M = push_bit 2 (ucast (s_el (c_sys c))) OR of_bool (s_spsel (c_sys c))"
    by (rule bit_word_eqI) (auto simp: facts dest: n d e)
  show "pstate_spsr c AND spsr_IL \<noteq> 0 \<longleftrightarrow> s_il (c_sys c)"
    unfolding spsr_masks(4) word_ne_zero_test by (auto simp: facts dest: n d e)
qed

lemma sp_list: "sys_ok c \<Longrightarrow> \<exists>a b. s_sp_el (c_sys c) = [a, b]"
  by (auto simp: sys_ok_def Let_def length_Suc_conv numeral_2_eq_2)

lemma take_exception_fields:
  fixes c :: cpu and e fa :: "u64 option" and p :: u64 and k :: exception_kind
  defines "t \<equiv> take_exception k e fa p c"
  shows "s_spsr_el1 (c_sys t) = pstate_spsr c" "s_elr_el1 (c_sys t) = p" "s_el (c_sys t) = 1"
    "s_spsel (c_sys t)" "s_daif (c_sys t) = daif_ALL" "\<not> s_il (c_sys t)"
    "s_vbar_el1 (c_sys t) = s_vbar_el1 (c_sys c)"
    "c_x t = c_x c" "c_v t = c_v c" "c_nzcv t = c_nzcv c"
  by (simp_all add: t_def take_exception_def set_el_sp_def Let_def split: option.split)

text \<open>
  C10. An exception return undoes an exception entry: for a core whose state is well formed, taking
  any exception with the current program counter as the return address and executing ERET at the
  handler gives the core back with its general registers, flags, masks, level, both stack pointers and
  illegal-state bit. What differs is exactly the exclusive monitor (cleared), the syndrome registers
  (SPSR, ELR, ESR, FAR), the slot that holds the stack pointer not in use, and the tag that Top Byte
  Ignore removes from the address.
\<close>

theorem eret_undoes_entry:
  assumes "sys_ok c"
  shows "exception_return (take_exception k e fa (c_pc c) c) =
    c\<lparr>c_monitor := None, c_pc := branch_addr c (c_pc c),
      c_sys := (c_sys c)\<lparr>s_spsr_el1 := pstate_spsr c, s_elr_el1 := c_pc c,
        s_esr_el1 := (case e of Some v \<Rightarrow> v | None \<Rightarrow> s_esr_el1 (c_sys c)),
        s_far_el1 := (case fa of Some v \<Rightarrow> v | None \<Rightarrow> s_far_el1 (c_sys c)),
        s_sp_el := (if sp_index (s_el (c_sys c)) (s_spsel (c_sys c)) = 0 then (s_sp_el (c_sys c))[0 := c_sp c]
                    else s_sp_el (c_sys c))\<rparr>\<rparr>"
proof -
  from assms consider "s_el (c_sys c) = 0" "\<not> s_spsel (c_sys c)" | "s_el (c_sys c) = 1" "\<not> s_spsel (c_sys c)"
    | "s_el (c_sys c) = 1" "s_spsel (c_sys c)"
    using el_cases [of "s_el (c_sys c)"] by (auto simp: sys_ok_def Let_def)
  note elim = this
  note f = pstate_spsr_fields [OF assms]
  obtain a b where ab: "s_sp_el (c_sys c) = [a, b]" using sp_list [OF assms] by blast
  show ?thesis
    unfolding exception_return_def take_exception_fields(1,2) f
    by (rule elim; cases e; cases fa;
        simp add: ab f take_exception_def set_el_sp_def sp_index_def Let_def branch_addr_def;
        intro cpu.equality sys_state.equality; simp)
qed

theorem eret_undoes_entry_witness:
  "s_el (c_sys (exception_return (take_exception Irq None None 0x1000
      (cpu_new\<lparr>c_pc := 0x1000, c_sys := (c_sys (reset_system sys_config_default cpu_new))\<lparr>s_el := 0, s_spsel := False\<rparr>\<rparr>)))) = 0"
  (is "s_el (c_sys (exception_return (take_exception _ _ _ _ ?c))) = 0")
proof -
  have ok: "sys_ok ?c"
    by (simp add: sys_ok_def cpu_ok_def cpu_new_def reset_system_def sys_state_default_def Let_def)
  have pc: "c_pc ?c = 0x1000" by simp
  show ?thesis
    using eret_undoes_entry [OF ok, of Irq None None] unfolding pc
    by (simp only:) (simp add: reset_system_def sys_state_default_def)
qed

end
