(* ===== verification/Cpu_Decode.thy ===== *)
theory Cpu_Decode
  imports Cpu_State
begin

text \<open>
  The decoder of \<^verbatim>\<open>crates/vetro-cpu/src\<close>: the system registers and their encodings (\<^verbatim>\<open>sysreg.rs\<close>) and
  the instructions (\<^verbatim>\<open>decode.rs\<close>). Register numbers, sizes and shift amounts are bytes; a signed offset
  is the word of its bits. The vector and floating point decoders (\<^verbatim>\<open>simd/\<close>) are an argument of the
  decoder: a record of the three functions \<^verbatim>\<open>ldst::decode\<close>, \<^verbatim>\<open>fpinsn::decode\<close> and \<^verbatim>\<open>int::decode\<close>, over a type of
  vector instructions left open.
\<close>

subsection \<open>System registers\<close>

datatype (plugins only: code size) env_reg =
    CntfrqEl0 | CntpctEl0 | CntvctEl0 | CntpTvalEl0 | CntpCtlEl0 | CntpCvalEl0
  | CntvTvalEl0 | CntvCtlEl0 | CntvCvalEl0
  | IccPmrEl1 | IccIar0El1 | IccEoir0El1 | IccHppir0El1 | IccBpr0El1 | IccAp0r0El1 | IccAp1r0El1
  | IccDirEl1 | IccRprEl1 | IccSgi1rEl1 | IccAsgi1rEl1 | IccSgi0rEl1 | IccIar1El1 | IccEoir1El1
  | IccHppir1El1 | IccBpr1El1 | IccCtlrEl1 | IccSreEl1 | IccIgrpen0El1 | IccIgrpen1El1

datatype (plugins only: code size) sys_reg =
    Nzcv | TpidrEl0 | TpidrroEl0 | Fpcr | Fpsr | DczidEl0 | CtrEl0
  | Daif | CurrentEl | SpSel | SpEl0 | ElrEl1 | SpsrEl1
  | SctlrEl1 | ActlrEl1 | CpacrEl1 | TcrEl1 | Ttbr0El1 | Ttbr1El1 | MairEl1 | AmairEl1 | ContextidrEl1
  | VbarEl1 | EsrEl1 | FarEl1 | Afsr0El1 | Afsr1El1 | ParEl1 | IsrEl1 | RvbarEl1 | TpidrEl1 | CntkctlEl1
  | MidrEl1 | MpidrEl1 | RevidrEl1 | AidrEl1 | ClidrEl1 | CcsidrEl1 | CsselrEl1 | IdReg u8
  | MdscrEl1 | MdccintEl1 | OslarEl1 | OslsrEl1 | OsdlrEl1 | MdrarEl1
  | DbgbvrEl1 u8 | DbgbcrEl1 u8 | DbgwvrEl1 u8 | DbgwcrEl1 u8
  | DbgRazWiEl1 | MdccsrEl0 | DbgdtrEl0 | DbgclaimsetEl1 | DbgclaimclrEl1 | PmuserenrEl0
  | ImpDefEl1 | CbarEl1 | Env env_reg

datatype rw = ReadWrite | ReadOnly | WriteOnly

fun is_timer :: "env_reg \<Rightarrow> bool" where
  "is_timer CntfrqEl0 = True"
| "is_timer CntpctEl0 = True"
| "is_timer CntvctEl0 = True"
| "is_timer CntpTvalEl0 = True"
| "is_timer CntpCtlEl0 = True"
| "is_timer CntpCvalEl0 = True"
| "is_timer CntvTvalEl0 = True"
| "is_timer CntvCtlEl0 = True"
| "is_timer CntvCvalEl0 = True"
| "is_timer _ = False"

definition env_rw :: "env_reg \<Rightarrow> rw" where
  "env_rw e =
    (if e \<in> {CntpctEl0, CntvctEl0, IccIar0El1, IccIar1El1, IccHppir0El1, IccHppir1El1, IccRprEl1}
     then ReadOnly
     else if e \<in> {IccEoir0El1, IccEoir1El1, IccDirEl1, IccSgi1rEl1, IccAsgi1rEl1, IccSgi0rEl1}
     then WriteOnly else ReadWrite)"

definition is_el0_legacy :: "sys_reg \<Rightarrow> bool" where
  "is_el0_legacy r \<longleftrightarrow> r \<in> {Nzcv, TpidrEl0, TpidrroEl0, Fpcr, Fpsr, DczidEl0, CtrEl0}"

definition is_el0_dcc :: "sys_reg \<Rightarrow> bool" where
  "is_el0_dcc r \<longleftrightarrow> r = MdccsrEl0 \<or> r = DbgdtrEl0"

definition sysreg_rw :: "sys_reg \<Rightarrow> rw" where
  "sysreg_rw r = (case r of
      IdReg _ \<Rightarrow> ReadOnly
    | Env e \<Rightarrow> env_rw e
    | _ \<Rightarrow>
        if r \<in> {DczidEl0, CtrEl0, CurrentEl, IsrEl1, RvbarEl1, MidrEl1, MpidrEl1, RevidrEl1, AidrEl1,
                 ClidrEl1, CcsidrEl1, OslsrEl1, MdrarEl1, CbarEl1, MdccsrEl0} then ReadOnly
        else if r = OslarEl1 then WriteOnly else ReadWrite)"

definition is_unmodelled_a53 :: "u32 \<Rightarrow> u32 \<Rightarrow> u32 \<Rightarrow> u32 \<Rightarrow> u32 \<Rightarrow> bool" where
  "is_unmodelled_a53 op0 op1 crn crm op2 \<longleftrightarrow>
    op0 = 3 \<and> (op1 = 3 \<and> crn = 9 \<and> 12 \<le> crm \<and> crm \<le> 14 \<or> op1 = 0 \<and> crn = 9 \<and> crm = 14 \<or>
               op1 = 3 \<and> crn = 14 \<and> 8 \<le> crm \<and> crm \<le> 15)"

text \<open>
  \<^verbatim>\<open>SysReg::lookup\<close> in the order of its arms: the debug registers (\<^verbatim>\<open>op0\<close> = 2) and, for \<^verbatim>\<open>op0\<close> = 3, a table of
  the encodings with the arms that range over a field tested where they stand.
\<close>

definition lookup_debug :: "u32 \<Rightarrow> u32 \<Rightarrow> u32 \<Rightarrow> u32 \<Rightarrow> sys_reg option" where
  "lookup_debug op1 crn crm op2 =
    (if op1 = 0 \<and> crn = 0 \<and> (crm = 0 \<or> crm = 3 \<or> crm = 6) \<and> op2 = 2 then Some DbgRazWiEl1
     else if op1 = 3 \<and> crn = 0 \<and> crm = 1 \<and> op2 = 0 then Some MdccsrEl0
     else if op1 = 3 \<and> crn = 0 \<and> (crm = 4 \<or> crm = 5) \<and> op2 = 0 then Some DbgdtrEl0
     else if op1 = 0 \<and> crn = 7 \<and> crm = 8 \<and> op2 = 6 then Some DbgclaimsetEl1
     else if op1 = 0 \<and> crn = 7 \<and> crm = 9 \<and> op2 = 6 then Some DbgclaimclrEl1
     else if op1 = 0 \<and> crn = 0 \<and> crm = 2 \<and> op2 = 0 then Some MdccintEl1
     else if op1 = 0 \<and> crn = 0 \<and> crm = 2 \<and> op2 = 2 then Some MdscrEl1
     else if op1 = 0 \<and> crn = 0 \<and> op2 = 4 \<and> crm < 6 then Some (DbgbvrEl1 (ucast crm))
     else if op1 = 0 \<and> crn = 0 \<and> op2 = 5 \<and> crm < 6 then Some (DbgbcrEl1 (ucast crm))
     else if op1 = 0 \<and> crn = 0 \<and> op2 = 6 \<and> crm < 4 then Some (DbgwvrEl1 (ucast crm))
     else if op1 = 0 \<and> crn = 0 \<and> op2 = 7 \<and> crm < 4 then Some (DbgwcrEl1 (ucast crm))
     else if op1 = 0 \<and> crn = 1 \<and> crm = 0 \<and> op2 = 0 then Some MdrarEl1
     else if op1 = 0 \<and> crn = 1 \<and> crm = 0 \<and> op2 = 4 then Some OslarEl1
     else if op1 = 0 \<and> crn = 1 \<and> crm = 1 \<and> op2 = 4 then Some OslsrEl1
     else if op1 = 0 \<and> crn = 1 \<and> crm = 3 \<and> op2 = 4 then Some OsdlrEl1
     else None)"

definition sysreg_table :: "((u32 \<times> u32 \<times> u32 \<times> u32) \<times> sys_reg) list" where
  "sysreg_table = [
    ((0, 0, 0, 0), MidrEl1), ((0, 0, 0, 5), MpidrEl1), ((0, 0, 0, 6), RevidrEl1),
    ((1, 0, 0, 0), CcsidrEl1), ((1, 0, 0, 1), ClidrEl1), ((1, 0, 0, 7), AidrEl1),
    ((2, 0, 0, 0), CsselrEl1), ((3, 0, 0, 1), CtrEl0), ((3, 0, 0, 7), DczidEl0),
    ((0, 1, 0, 0), SctlrEl1), ((0, 1, 0, 1), ActlrEl1), ((0, 1, 0, 2), CpacrEl1),
    ((0, 2, 0, 0), Ttbr0El1), ((0, 2, 0, 1), Ttbr1El1), ((0, 2, 0, 2), TcrEl1),
    ((0, 10, 2, 0), MairEl1), ((0, 10, 3, 0), AmairEl1), ((0, 13, 0, 1), ContextidrEl1),
    ((0, 13, 0, 4), TpidrEl1), ((0, 14, 1, 0), CntkctlEl1),
    ((0, 4, 0, 0), SpsrEl1), ((0, 4, 0, 1), ElrEl1), ((0, 4, 1, 0), SpEl0), ((0, 4, 2, 0), SpSel),
    ((0, 4, 2, 2), CurrentEl), ((3, 4, 2, 0), Nzcv), ((3, 4, 2, 1), Daif), ((3, 4, 4, 0), Fpcr),
    ((3, 4, 4, 1), Fpsr),
    ((0, 5, 1, 0), Afsr0El1), ((0, 5, 1, 1), Afsr1El1), ((0, 5, 2, 0), EsrEl1),
    ((0, 6, 0, 0), FarEl1), ((0, 7, 4, 0), ParEl1), ((0, 12, 0, 0), VbarEl1),
    ((0, 12, 0, 1), RvbarEl1), ((0, 12, 1, 0), IsrEl1),
    ((3, 9, 14, 0), PmuserenrEl0),
    ((1, 11, 0, 2), ImpDefEl1), ((1, 11, 0, 3), ImpDefEl1), ((1, 15, 0, 0), ImpDefEl1),
    ((1, 15, 2, 0), ImpDefEl1), ((1, 15, 2, 1), ImpDefEl1), ((1, 15, 2, 2), ImpDefEl1),
    ((1, 15, 2, 3), ImpDefEl1), ((1, 15, 3, 0), CbarEl1),
    ((3, 13, 0, 2), TpidrEl0), ((3, 13, 0, 3), TpidrroEl0),
    ((3, 14, 0, 0), Env CntfrqEl0), ((3, 14, 0, 1), Env CntpctEl0), ((3, 14, 0, 2), Env CntvctEl0),
    ((3, 14, 2, 0), Env CntpTvalEl0), ((3, 14, 2, 1), Env CntpCtlEl0), ((3, 14, 2, 2), Env CntpCvalEl0),
    ((3, 14, 3, 0), Env CntvTvalEl0), ((3, 14, 3, 1), Env CntvCtlEl0), ((3, 14, 3, 2), Env CntvCvalEl0),
    ((0, 4, 6, 0), Env IccPmrEl1), ((0, 12, 8, 0), Env IccIar0El1), ((0, 12, 8, 1), Env IccEoir0El1),
    ((0, 12, 8, 2), Env IccHppir0El1), ((0, 12, 8, 3), Env IccBpr0El1), ((0, 12, 8, 4), Env IccAp0r0El1),
    ((0, 12, 9, 0), Env IccAp1r0El1), ((0, 12, 11, 1), Env IccDirEl1), ((0, 12, 11, 3), Env IccRprEl1),
    ((0, 12, 11, 5), Env IccSgi1rEl1), ((0, 12, 11, 6), Env IccAsgi1rEl1), ((0, 12, 11, 7), Env IccSgi0rEl1),
    ((0, 12, 12, 0), Env IccIar1El1), ((0, 12, 12, 1), Env IccEoir1El1), ((0, 12, 12, 2), Env IccHppir1El1),
    ((0, 12, 12, 3), Env IccBpr1El1), ((0, 12, 12, 4), Env IccCtlrEl1), ((0, 12, 12, 5), Env IccSreEl1),
    ((0, 12, 12, 6), Env IccIgrpen0El1), ((0, 12, 12, 7), Env IccIgrpen1El1)]"

definition sysreg_lookup :: "u32 \<Rightarrow> u32 \<Rightarrow> u32 \<Rightarrow> u32 \<Rightarrow> u32 \<Rightarrow> sys_reg option" where
  "sysreg_lookup op0 op1 crn crm op2 =
    (if op0 = 2 then lookup_debug op1 crn crm op2
     else if op0 = 3 then
       if op1 = 0 \<and> crn = 0 \<and> 1 \<le> crm \<and> crm \<le> 7 then Some (IdReg (ucast (crm * 8 + op2)))
       else map_of sysreg_table (op1, crn, crm, op2)
     else None)"

subsection \<open>Instructions\<close>

datatype logic_op = LAnd | LOrr | LEor | LAnds
datatype mov_op = Movn | Movz | Movk
datatype bf_op = Sbfm | Bfm | Ubfm
datatype shift = Lsl | Lsr | Asr | Ror
datatype csel_op = Csel | Csinc | Csinv | Csneg
datatype dp1_op = Rbit | Rev16 | Rev32 | Rev64 | Clz | Cls
datatype dp2_op = Udiv | Sdiv | Lslv | Lsrv | Asrv | Rorv | Crc32 (crc_bytes: u8) (crc_c: bool)
datatype dp3_op = Madd | Msub | Smaddl | Smsubl | Umaddl | Umsubl | Smulh | Umulh
datatype br_op = Br | Blr | Ret
datatype ccmp_operand = CcmpReg u8 | CcmpImm u8
datatype pstate_field = PSpSel | DaifSet | DaifClr
datatype at_op = S1e1r | S1e1w | S1e0r | S1e0w
datatype sys_op = Tlbi tlbi_op | At at_op | IcIall | DcIvac | DcSetWay
datatype mem_op = MStore | MLoad (ld_signed: bool) (ld_dst64: bool) | MPrefetch
datatype index = IOffset | IPre | IPost
datatype addr_mode = AImm u64 index | AReg u8 u8 u8

text \<open>The fields of an instruction are in the order of the source's declaration.\<close>

datatype (plugins only: size) 'i insn =
    AddSubImm bool bool bool u64 u8 u8
  | LogicalImm bool logic_op u64 u8 u8
  | MoveWide bool mov_op u8 u16 u8
  | Adr bool u64 u8
  | Bitfield bool bf_op u8 u8 u64 u64 u8 u8
  | Extract bool u8 u8 u8 u8
  | LogicalReg bool logic_op bool shift u8 u8 u8 u8
  | AddSubReg bool bool bool shift u8 u8 u8 u8
  | AddSubExt bool bool bool u8 u8 u8 u8 u8
  | AddSubCarry bool bool bool u8 u8 u8
  | CondCmp bool bool ccmp_operand u8 u8 u8
  | CondSel bool csel_op u8 u8 u8 u8
  | Dp1 bool dp1_op u8 u8
  | Dp2 bool dp2_op u8 u8 u8
  | Dp3 bool dp3_op u8 u8 u8 u8
  | Branch bool u64
  | BCond u8 u64
  | Cbz bool bool u8 u64
  | Tbz bool u8 u8 u64
  | BranchReg br_op u8
  | Svc u16
  | Hvc u16
  | Smc u16
  | Brk u16
  | Eret
  | Wfi
  | Wfe
  | Yield
  | MsrImm pstate_field u8
  | Sys sys_op u8
  | Nop
  | Barrier
  | Clrex
  | DcZva u8
  | CacheMaint
  | Mrs sys_reg u8
  | Msr sys_reg u8
  | LdSt u8 mem_op addr_mode u8 u8 bool
  | LdLiteral u8 mem_op u64 u8
  | LdStPair u8 bool bool index u64 u8 u8 u8
  | Exclusive u8 bool bool u8 u8 u8 u8
  | LoadAcquire u8 u8 u8
  | StoreRelease u8 u8 u8
  | Simd 'i
  | UndefinedInsn
  | UnimplementedInsn string

record 'i simd_decoders =
  sd_ldst :: "u32 \<Rightarrow> 'i insn"
  sd_fp :: "u32 \<Rightarrow> 'i insn"
  sd_int :: "u32 \<Rightarrow> 'i insn"

definition simd_decode_dp :: "'i simd_decoders \<Rightarrow> u32 \<Rightarrow> 'i insn" where
  "simd_decode_dp D w =
    (if (drop_bit 28 w AND 1 \<noteq> 0) \<and> \<not> (drop_bit 30 w AND 1 \<noteq> 0) then sd_fp D w else sd_int D w)"

definition regf :: "u32 \<Rightarrow> nat \<Rightarrow> u8" where
  "regf w lo = ucast (field w (lo + 4) lo)"

subsection \<open>The decoder\<close>

definition logic_op_of :: "u32 \<Rightarrow> logic_op" where
  "logic_op_of k = [LAnd, LOrr, LEor, LAnds] ! unat k"

definition shift_of :: "u32 \<Rightarrow> shift" where
  "shift_of k = [Lsl, Lsr, Asr, Ror] ! unat k"

definition dp_imm :: "u32 \<Rightarrow> 'i insn" where
  "dp_imm w =
    (let sf = wbit w 31; rd = regf w 0; rn = regf w 5; k = field w 25 23
     in if k = 0 \<or> k = 1 then
          let imm = sext (ucast (push_bit 2 (field w 23 5) OR field w 30 29)) 21; page = wbit w 31
          in Adr page (if page then push_bit 12 imm else imm) rd
        else if k = 2 then
          let imm12 = ucast (field w 21 10)
          in AddSubImm sf (wbit w 30) (wbit w 29) (if wbit w 22 then push_bit 12 imm12 else imm12) rn rd
        else if k = 4 then
          let n = field w 22 22
          in if \<not> sf \<and> n = 1 then UndefinedInsn
             else (case decode_bit_masks n (field w 15 10) (field w 21 16) True (if sf then 64 else 32) of
                 None \<Rightarrow> UndefinedInsn
               | Some (imm, _) \<Rightarrow> LogicalImm sf (logic_op_of (field w 30 29)) imm rn rd)
        else if k = 5 then
          let hw = field w 22 21; o' = field w 30 29
          in if o' = 1 then UndefinedInsn
             else if \<not> sf \<and> hw \<ge> 2 then UndefinedInsn
             else MoveWide sf (if o' = 0 then Movn else if o' = 2 then Movz else Movk)
                    (ucast (hw * 16)) (ucast (field w 20 5)) rd
        else if k = 6 then
          let o' = field w 30 29; n = field w 22 22; immr = field w 21 16; imms = field w 15 10
          in if o' = 3 then UndefinedInsn
             else if sf \<and> n \<noteq> 1 \<or> \<not> sf \<and> (n \<noteq> 0 \<or> immr \<ge> 32 \<or> imms \<ge> 32) then UndefinedInsn
             else (case decode_bit_masks n imms immr False (if sf then 64 else 32) of
                 None \<Rightarrow> UndefinedInsn
               | Some (wmask, tmask) \<Rightarrow>
                   Bitfield sf (if o' = 0 then Sbfm else if o' = 1 then Bfm else Ubfm)
                     (ucast immr) (ucast imms) wmask tmask rn rd)
        else if k = 7 then
          let imms = field w 15 10
          in if field w 30 29 \<noteq> 0 \<or> wbit w 21 \<or> wbit w 22 \<noteq> sf \<or> \<not> sf \<and> imms \<ge> 32 then UndefinedInsn
             else Extract sf (ucast imms) (regf w 16) rn rd
        else UndefinedInsn)"

definition branch_reg :: "u32 \<Rightarrow> 'i insn" where
  "branch_reg w =
    (if w = 0xD69F03E0 then Eret
     else if field w 20 16 \<noteq> 0x1f \<or> field w 15 10 \<noteq> 0 \<or> field w 4 0 \<noteq> 0 then UndefinedInsn
     else let o' = field w 24 21
          in if o' = 0 then BranchReg Br (regf w 5)
             else if o' = 1 then BranchReg Blr (regf w 5)
             else if o' = 2 then BranchReg Ret (regf w 5)
             else UndefinedInsn)"

definition exception_insn :: "u32 \<Rightarrow> 'i insn" where
  "exception_insn w =
    (let imm = ucast (field w 20 5); a = field w 23 21; b = field w 4 2; l = field w 1 0
     in if a = 0 \<and> b = 0 \<and> l = 1 then Svc imm
        else if a = 0 \<and> b = 0 \<and> l = 2 then Hvc imm
        else if a = 0 \<and> b = 0 \<and> l = 3 then Smc imm
        else if a = 1 \<and> b = 0 \<and> l = 0 then Brk imm
        else UndefinedInsn)"

definition system_hint :: "u32 \<Rightarrow> u32 \<Rightarrow> u32 \<Rightarrow> u32 \<Rightarrow> 'i insn" where
  "system_hint crn op1 crm op2 =
    (if crn = 2 \<and> op1 = 3 then
       if crm = 0 \<and> op2 = 1 then Yield
       else if crm = 0 \<and> op2 = 2 then Wfe
       else if crm = 0 \<and> op2 = 3 then Wfi
       else Nop
     else if crn = 3 \<and> op1 = 3 then
       if op2 = 2 then Clrex else if 4 \<le> op2 \<and> op2 \<le> 6 then Barrier else UndefinedInsn
     else if crn = 4 \<and> op1 = 0 \<and> op2 = 5 then MsrImm PSpSel (ucast crm)
     else if crn = 4 \<and> op1 = 3 \<and> op2 = 6 then MsrImm DaifSet (ucast crm)
     else if crn = 4 \<and> op1 = 3 \<and> op2 = 7 then MsrImm DaifClr (ucast crm)
     else UndefinedInsn)"

definition system_sys :: "u32 \<Rightarrow> u32 \<Rightarrow> u32 \<Rightarrow> u32 \<Rightarrow> u8 \<Rightarrow> 'i insn" where
  "system_sys op1 crn crm op2 rt =
    (if op1 = 3 \<and> crn = 7 \<and> crm = 4 \<and> op2 = 1 then DcZva rt
     else if op1 = 3 \<and> crn = 7 \<and> (crm = 5 \<or> crm = 10 \<or> crm = 11 \<or> crm = 14) \<and> op2 = 1 then CacheMaint
     else if op1 = 0 \<and> crn = 7 \<and> (crm = 1 \<or> crm = 5) \<and> op2 = 0 then Sys IcIall rt
     else if op1 = 0 \<and> crn = 7 \<and> crm = 6 \<and> op2 = 1 then Sys DcIvac rt
     else if op1 = 0 \<and> crn = 7 \<and> (crm = 6 \<or> crm = 10 \<or> crm = 14) \<and> op2 = 2 then Sys DcSetWay rt
     else if op1 = 0 \<and> crn = 7 \<and> crm = 8 \<and> op2 = 0 then Sys (At S1e1r) rt
     else if op1 = 0 \<and> crn = 7 \<and> crm = 8 \<and> op2 = 1 then Sys (At S1e1w) rt
     else if op1 = 0 \<and> crn = 7 \<and> crm = 8 \<and> op2 = 2 then Sys (At S1e0r) rt
     else if op1 = 0 \<and> crn = 7 \<and> crm = 8 \<and> op2 = 3 then Sys (At S1e0w) rt
     else (case from_sys op1 crn crm op2 of Some t \<Rightarrow> Sys (Tlbi t) rt | None \<Rightarrow> UndefinedInsn))"

definition system_reg :: "bool \<Rightarrow> u32 \<Rightarrow> u32 \<Rightarrow> u32 \<Rightarrow> u32 \<Rightarrow> u32 \<Rightarrow> u8 \<Rightarrow> 'i insn" where
  "system_reg l op0 op1 crn crm op2 rt =
    (case sysreg_lookup op0 op1 crn crm op2 of
       None \<Rightarrow> if is_unmodelled_a53 op0 op1 crn crm op2
               then UnimplementedInsn ''MRS/MSR system register'' else UndefinedInsn
     | Some reg \<Rightarrow> if l then Mrs reg rt
                  else if reg = DczidEl0 \<or> reg = CtrEl0 then UndefinedInsn
                  else Msr reg rt)"

definition system :: "u32 \<Rightarrow> 'i insn" where
  "system w =
    (let l = wbit w 21; op0 = field w 20 19; op1 = field w 18 16; crn = field w 15 12;
         crm = field w 11 8; op2 = field w 7 5; rt = regf w 0
     in if op0 = 0 then if l \<or> rt \<noteq> 31 then UndefinedInsn else system_hint crn op1 crm op2
        else if op0 = 1 then if l then UndefinedInsn else system_sys op1 crn crm op2 rt
        else system_reg l op0 op1 crn crm op2 rt)"

definition branch_sys :: "u32 \<Rightarrow> 'i insn" where
  "branch_sys w =
    (let op0 = field w 31 29; k = op0 AND 3
     in if k = 0 then Branch (wbit w 31) (push_bit 2 (sext (ucast (field w 25 0)) 26))
        else if k = 1 then
          let rt = regf w 0; nonzero = wbit w 24
          in if \<not> wbit w 25 then Cbz (wbit w 31) nonzero rt (push_bit 2 (sext (ucast (field w 23 5)) 19))
             else let b = push_bit 5 (field w 31 31) OR field w 23 19
                  in Tbz nonzero (ucast b) rt (push_bit 2 (sext (ucast (field w 18 5)) 14))
        else if op0 = 2 then
          if wbit w 25 \<or> wbit w 24 \<or> wbit w 4 then UndefinedInsn
          else BCond (ucast (field w 3 0)) (push_bit 2 (sext (ucast (field w 23 5)) 19))
        else if op0 = 6 then
          if wbit w 25 then branch_reg w
          else if \<not> wbit w 24 then exception_insn w
          else if field w 23 22 = 0 then system w
          else UndefinedInsn
        else UndefinedInsn)"

definition mem_op_of :: "u8 \<Rightarrow> u32 \<Rightarrow> bool \<Rightarrow> mem_op option" where
  "mem_op_of sz opc prfm_ok =
    (if opc = 0 then Some MStore
     else if opc = 1 then Some (MLoad False (sz = 3))
     else if opc = 2 \<and> sz = 3 then if prfm_ok then Some MPrefetch else None
     else if opc = 2 then Some (MLoad True True)
     else if opc = 3 \<and> (sz = 0 \<or> sz = 1) then Some (MLoad True False)
     else None)"

definition exclusive :: "u32 \<Rightarrow> 'i insn" where
  "exclusive w =
    (let sz = ucast (field w 31 30); load = wbit w 22; o0 = wbit w 15;
         rs = regf w 16; rt2 = regf w 10; rn = regf w 5; rt = regf w 0
     in if \<not> wbit w 23 \<and> \<not> wbit w 21 then Exclusive sz load False rs rt rt2 rn
        else if \<not> wbit w 23 \<and> wbit w 21 then
          if sz < 2 then UndefinedInsn else Exclusive sz load True rs rt rt2 rn
        else if wbit w 23 \<and> \<not> wbit w 21 then
          if \<not> o0 then UndefinedInsn
          else if load then LoadAcquire sz rt rn else StoreRelease sz rt rn
        else UndefinedInsn)"

definition ldst_reg :: "u32 \<Rightarrow> u8 \<Rightarrow> u8 \<Rightarrow> 'i insn" where
  "ldst_reg w rt rn =
    (let sz = ucast (field w 31 30); opc = field w 23 22
     in if wbit w 24 then
          (case mem_op_of sz opc True of
             None \<Rightarrow> UndefinedInsn
           | Some op \<Rightarrow> LdSt sz op (AImm (push_bit (unat sz) (ucast (field w 21 10))) IOffset) rt rn False)
        else if wbit w 21 then
          if field w 11 10 \<noteq> 2 then UndefinedInsn
          else let extend = ucast (field w 15 13)
               in if extend AND (2 :: u8) = 0 then UndefinedInsn
                  else (case mem_op_of sz opc True of
                      None \<Rightarrow> UndefinedInsn
                    | Some op \<Rightarrow>
                        LdSt sz op (AReg (regf w 16) extend (if wbit w 12 then sz else 0)) rt rn False)
        else let offset = sext (ucast (field w 20 12)) 9; k = field w 11 10;
                 idx = (if k = 0 then IOffset else if k = 1 then IPost else if k = 2 then IOffset else IPre)
             in (case mem_op_of sz opc (k = 0) of
                   None \<Rightarrow> UndefinedInsn
                 | Some op \<Rightarrow> LdSt sz op (AImm offset idx) rt rn (k = 2)))"

definition ldst :: "'i simd_decoders \<Rightarrow> u32 \<Rightarrow> 'i insn" where
  "ldst D w =
    (if wbit w 26 then sd_ldst D w
     else let rt = regf w 0; rn = regf w 5; k = field w 29 27
          in if k = 1 then if field w 25 24 \<noteq> 0 then UndefinedInsn else exclusive w
             else if k = 3 then
               if wbit w 24 then UndefinedInsn
               else let offset = push_bit 2 (sext (ucast (field w 23 5)) 19); o' = field w 31 30
                    in if o' = 0 then LdLiteral 2 (MLoad False False) offset rt
                       else if o' = 1 then LdLiteral 3 (MLoad False True) offset rt
                       else if o' = 2 then LdLiteral 2 (MLoad True True) offset rt
                       else LdLiteral 3 MPrefetch offset rt
             else if k = 5 then
               let load = wbit w 22; j = field w 24 23;
                   idx = (if j = 0 \<or> j = 2 then IOffset else if j = 1 then IPost else IPre);
                   noalloc = (j = 0); o' = field w 31 30;
                   r = (if o' = 0 then Some (2, False) else if o' = 2 then Some (3, False)
                        else if o' = 1 \<and> load \<and> \<not> noalloc then Some (2, True) else None)
               in (case r of
                     None \<Rightarrow> UndefinedInsn
                   | Some (sz, sg) \<Rightarrow>
                       LdStPair sz load sg idx (push_bit (unat sz) (sext (ucast (field w 21 15)) 7))
                         rt (regf w 10) rn)
             else ldst_reg w rt rn)"

definition dp_two_source :: "u32 \<Rightarrow> bool \<Rightarrow> u8 \<Rightarrow> u8 \<Rightarrow> u8 \<Rightarrow> 'i insn" where
  "dp_two_source w sf rm rn rd =
    (let opcode = field w 15 10
     in if wbit w 30 then
          if field w 20 16 \<noteq> 0 then UndefinedInsn
          else if opcode = 0 then Dp1 sf Rbit rn rd
          else if opcode = 1 then Dp1 sf Rev16 rn rd
          else if opcode = 2 then Dp1 sf Rev32 rn rd
          else if opcode = 3 \<and> sf then Dp1 sf Rev64 rn rd
          else if opcode = 4 then Dp1 sf Clz rn rd
          else if opcode = 5 then Dp1 sf Cls rn rd
          else UndefinedInsn
        else if opcode = 2 then Dp2 sf Udiv rm rn rd
        else if opcode = 3 then Dp2 sf Sdiv rm rn rd
        else if opcode = 8 then Dp2 sf Lslv rm rn rd
        else if opcode = 9 then Dp2 sf Lsrv rm rn rd
        else if opcode = 10 then Dp2 sf Asrv rm rn rd
        else if opcode = 11 then Dp2 sf Rorv rm rn rd
        else if 16 \<le> opcode \<and> opcode \<le> 23 then
          let sz = opcode AND 3
          in if (sz = 3) \<noteq> sf then UndefinedInsn
             else Dp2 sf (Crc32 (push_bit (unat sz) 1) (opcode AND 4 \<noteq> 0)) rm rn rd
        else UndefinedInsn)"

definition dp_three_source :: "u32 \<Rightarrow> bool \<Rightarrow> u8 \<Rightarrow> u8 \<Rightarrow> u8 \<Rightarrow> 'i insn" where
  "dp_three_source w sf rm rn rd =
    (let o0 = wbit w 15; k = field w 23 21;
         op = (if k = 0 \<and> \<not> o0 then Some Madd else if k = 0 \<and> o0 then Some Msub
               else if k = 1 \<and> \<not> o0 then Some Smaddl else if k = 1 \<and> o0 then Some Smsubl
               else if k = 2 \<and> \<not> o0 then Some Smulh
               else if k = 5 \<and> \<not> o0 then Some Umaddl else if k = 5 \<and> o0 then Some Umsubl
               else if k = 6 \<and> \<not> o0 then Some Umulh else None)
     in if field w 30 29 \<noteq> 0 then UndefinedInsn
        else (case op of
            None \<Rightarrow> UndefinedInsn
          | Some op \<Rightarrow>
              if \<not> sf \<and> op \<noteq> Madd \<and> op \<noteq> Msub then UndefinedInsn
              else Dp3 sf op (regf w 10) rm rn rd))"

definition dp_reg :: "u32 \<Rightarrow> 'i insn" where
  "dp_reg w =
    (let sf = wbit w 31; rm = regf w 16; rn = regf w 5; rd = regf w 0; op2 = field w 24 21
     in if \<not> wbit w 28 then
          let imm6 = ucast (field w 15 10) :: u8; shift_ty = field w 23 22
          in if \<not> wbit w 24 then
               if \<not> sf \<and> imm6 \<ge> 32 then UndefinedInsn
               else LogicalReg sf (logic_op_of (field w 30 29)) (wbit w 21) (shift_of shift_ty) imm6 rm rn rd
             else if \<not> wbit w 21 then
               if shift_ty = 3 \<or> \<not> sf \<and> imm6 \<ge> 32 then UndefinedInsn
               else AddSubReg sf (wbit w 30) (wbit w 29) (shift_of shift_ty) imm6 rm rn rd
             else let imm3 = ucast (field w 12 10) :: u8
                  in if shift_ty \<noteq> 0 \<or> imm3 > 4 then UndefinedInsn
                     else AddSubExt sf (wbit w 30) (wbit w 29) (ucast (field w 15 13)) imm3 rm rn rd
        else if op2 = 0 then
          if field w 15 10 \<noteq> 0 then UndefinedInsn
          else AddSubCarry sf (wbit w 30) (wbit w 29) rm rn rd
        else if op2 = 2 then
          if \<not> wbit w 29 \<or> wbit w 10 \<or> wbit w 4 then UndefinedInsn
          else CondCmp sf (wbit w 30) (if wbit w 11 then CcmpImm rm else CcmpReg rm)
                 (ucast (field w 15 12)) (ucast (field w 3 0)) rn
        else if op2 = 4 then
          if wbit w 29 \<or> wbit w 11 then UndefinedInsn
          else CondSel sf (if wbit w 30 then if wbit w 10 then Csneg else Csinv
                           else if wbit w 10 then Csinc else Csel)
                 (ucast (field w 15 12)) rm rn rd
        else if op2 = 6 then
          if wbit w 29 then UndefinedInsn else dp_two_source w sf rm rn rd
        else if 8 \<le> op2 \<and> op2 \<le> 15 then dp_three_source w sf rm rn rd
        else UndefinedInsn)"

definition decode :: "'i simd_decoders \<Rightarrow> u32 \<Rightarrow> 'i insn" where
  "decode D w =
    (let k = field w 28 25
     in if k = 8 \<or> k = 9 then dp_imm w
        else if k = 10 \<or> k = 11 then branch_sys w
        else if k = 4 \<or> k = 6 \<or> k = 12 \<or> k = 14 then ldst D w
        else if k = 5 \<or> k = 13 then dp_reg w
        else if k = 7 \<or> k = 15 then simd_decode_dp D w
        else UndefinedInsn)"


subsection \<open>Well-formed instructions\<close>

text \<open>
  What the executor relies on: register numbers that index the register file, shift amounts below the
  data size, sizes of at most eight bytes, condition codes and flags of four bits, indices of banked
  system registers in range, and branch offsets that keep the program counter aligned.
\<close>

fun reg_ok :: "sys_reg \<Rightarrow> bool" where
  "reg_ok (DbgbvrEl1 n) = (n < 6)"
| "reg_ok (DbgbcrEl1 n) = (n < 6)"
| "reg_ok (DbgwvrEl1 n) = (n < 4)"
| "reg_ok (DbgwcrEl1 n) = (n < 4)"
| "reg_ok (IdReg n) = (8 \<le> n \<and> n < 64)"
| "reg_ok _ = True"

fun insn_ok :: "'i insn \<Rightarrow> bool" where
  "insn_ok (AddSubImm _ _ _ imm rn rd) \<longleftrightarrow> rn \<le> 31 \<and> rd \<le> 31 \<and> imm < 0x1000000"
| "insn_ok (LogicalImm sf _ imm rn rd) \<longleftrightarrow> rn \<le> 31 \<and> rd \<le> 31 \<and> (sf \<or> imm < 0x100000000)"
| "insn_ok (MoveWide sf _ sh _ rd) \<longleftrightarrow> rd \<le> 31 \<and> sh < (if sf then 64 else 32)"
| "insn_ok (Adr _ _ rd) \<longleftrightarrow> rd \<le> 31"
| "insn_ok (Bitfield sf _ r s _ _ rn rd) \<longleftrightarrow> rn \<le> 31 \<and> rd \<le> 31 \<and> r < (if sf then 64 else 32) \<and> s < (if sf then 64 else 32)"
| "insn_ok (Extract sf lsb rm rn rd) \<longleftrightarrow> rm \<le> 31 \<and> rn \<le> 31 \<and> rd \<le> 31 \<and> lsb < (if sf then 64 else 32)"
| "insn_ok (LogicalReg sf _ _ _ a rm rn rd) \<longleftrightarrow> rm \<le> 31 \<and> rn \<le> 31 \<and> rd \<le> 31 \<and> a < (if sf then 64 else 32)"
| "insn_ok (AddSubReg sf _ _ sh a rm rn rd) \<longleftrightarrow> rm \<le> 31 \<and> rn \<le> 31 \<and> rd \<le> 31 \<and> a < (if sf then 64 else 32) \<and> sh \<noteq> Ror"
| "insn_ok (AddSubExt _ _ _ ext a rm rn rd) \<longleftrightarrow> rm \<le> 31 \<and> rn \<le> 31 \<and> rd \<le> 31 \<and> ext \<le> 7 \<and> a \<le> 4"
| "insn_ok (AddSubCarry _ _ _ rm rn rd) \<longleftrightarrow> rm \<le> 31 \<and> rn \<le> 31 \<and> rd \<le> 31"
| "insn_ok (CondCmp _ _ operand cond nzcv rn) \<longleftrightarrow> (case operand of CcmpReg rm \<Rightarrow> rm \<le> 31 | CcmpImm k \<Rightarrow> k \<le> 31) \<and> cond \<le> 15 \<and> nzcv \<le> 15 \<and> rn \<le> 31"
| "insn_ok (CondSel _ _ cond rm rn rd) \<longleftrightarrow> rm \<le> 31 \<and> rn \<le> 31 \<and> rd \<le> 31 \<and> cond \<le> 15"
| "insn_ok (Dp1 sf op rn rd) \<longleftrightarrow> rn \<le> 31 \<and> rd \<le> 31 \<and> (op = Rev64 \<longrightarrow> sf)"
| "insn_ok (Dp2 sf op rm rn rd) \<longleftrightarrow> rm \<le> 31 \<and> rn \<le> 31 \<and> rd \<le> 31 \<and>
        (case op of Crc32 n _ \<Rightarrow> n \<in> {1, 2, 4, 8} \<and> (n = 8 \<longleftrightarrow> sf) | _ \<Rightarrow> True)"
| "insn_ok (Dp3 sf op ra rm rn rd) \<longleftrightarrow> ra \<le> 31 \<and> rm \<le> 31 \<and> rn \<le> 31 \<and> rd \<le> 31 \<and> (sf \<or> op = Madd \<or> op = Msub)"
| "insn_ok (Branch _ offset) \<longleftrightarrow> offset AND 3 = 0"
| "insn_ok (BCond cond offset) \<longleftrightarrow> cond \<le> 15 \<and> offset AND 3 = 0"
| "insn_ok (Cbz _ _ rt offset) \<longleftrightarrow> rt \<le> 31 \<and> offset AND 3 = 0"
| "insn_ok (Tbz _ b rt offset) \<longleftrightarrow> rt \<le> 31 \<and> b < 64 \<and> offset AND 3 = 0"
| "insn_ok (BranchReg _ rn) \<longleftrightarrow> rn \<le> 31"
| "insn_ok (MsrImm _ imm) \<longleftrightarrow> imm \<le> 15"
| "insn_ok (Sys _ rt) \<longleftrightarrow> rt \<le> 31"
| "insn_ok (DcZva rt) \<longleftrightarrow> rt \<le> 31"
| "insn_ok (Mrs reg rt) \<longleftrightarrow> rt \<le> 31 \<and> reg_ok reg"
| "insn_ok (Msr reg rt) \<longleftrightarrow> rt \<le> 31 \<and> reg_ok reg \<and> reg \<noteq> DczidEl0 \<and> reg \<noteq> CtrEl0"
| "insn_ok (LdSt sz op a rt rn unpriv) \<longleftrightarrow> sz \<le> 3 \<and> rt \<le> 31 \<and> rn \<le> 31 \<and> (op = MPrefetch \<longrightarrow> sz = 3 \<and> \<not> unpriv) \<and>
        (case a of AImm _ _ \<Rightarrow> True | AReg rm ext sh \<Rightarrow> rm \<le> 31 \<and> ext \<in> {2, 3, 6, 7} \<and> sh \<le> 3 \<and> \<not> unpriv)"
| "insn_ok (LdLiteral sz _ offset rt) \<longleftrightarrow> sz \<in> {2, 3} \<and> rt \<le> 31 \<and> offset AND 3 = 0"
| "insn_ok (LdStPair sz load sg _ _ rt rt2 rn) \<longleftrightarrow> sz \<in> {2, 3} \<and> rt \<le> 31 \<and> rt2 \<le> 31 \<and> rn \<le> 31 \<and> (sg \<longrightarrow> load \<and> sz = 2)"
| "insn_ok (Exclusive sz _ p rs rt rt2 rn) \<longleftrightarrow> sz \<le> 3 \<and> (p \<longrightarrow> 2 \<le> sz) \<and> rs \<le> 31 \<and> rt \<le> 31 \<and> rt2 \<le> 31 \<and> rn \<le> 31"
| "insn_ok (LoadAcquire sz rt rn) \<longleftrightarrow> sz \<le> 3 \<and> rt \<le> 31 \<and> rn \<le> 31"
| "insn_ok (StoreRelease sz rt rn) \<longleftrightarrow> sz \<le> 3 \<and> rt \<le> 31 \<and> rn \<le> 31"
| "insn_ok _ = True"

text \<open>What the vector decoders give: a vector instruction, or one of the two ways to reject the word.\<close>

definition simd_rejects :: "'i insn \<Rightarrow> bool" where
  "simd_rejects i = (case i of Simd _ \<Rightarrow> True | UndefinedInsn \<Rightarrow> True | UnimplementedInsn _ \<Rightarrow> True | _ \<Rightarrow> False)"

definition simd_decoders_ok :: "'i simd_decoders \<Rightarrow> bool" where
  "simd_decoders_ok D \<longleftrightarrow> (\<forall>w. simd_rejects (sd_ldst D w) \<and> simd_rejects (sd_fp D w) \<and> simd_rejects (sd_int D w))"

lemma ucast_field_le:
  assumes "lo \<le> hi" "hi - lo < 8" "2 ^ (hi - lo + 1) \<le> k + 1" "k < 256"
  shows "(ucast (field w hi lo) :: u8) \<le> of_nat k"
proof -
  have "unat (field w hi lo) < 2 ^ (hi - lo + 1)" using assms(1,2) by (intro field_less) auto
  moreover have "unat (ucast (field w hi lo) :: u8) \<le> unat (field w hi lo)"
    by (simp add: unsigned_ucast_eq take_bit_nat_less_eq_self)
  ultimately show ?thesis using assms(3,4)
    by (simp add: word_le_nat_alt unsigned_of_nat take_bit_nat_eq_self)
qed

lemma regf_le [simp]: "regf w lo \<le> 31"
  using ucast_field_le [of lo "lo + 4" 31 w] by (simp add: regf_def)


lemma ucast_field_less:
  assumes "lo \<le> hi" "hi - lo < 8" "2 ^ (hi - lo + 1) \<le> k" "k < 256"
  shows "(ucast (field w hi lo) :: u8) < of_nat k"
proof -
  have "unat (field w hi lo) < 2 ^ (hi - lo + 1)" using assms(1,2) by (intro field_less) auto
  moreover have "unat (ucast (field w hi lo) :: u8) \<le> unat (field w hi lo)"
    by (simp add: unsigned_ucast_eq take_bit_nat_less_eq_self)
  ultimately show ?thesis using assms(3,4)
    by (simp add: word_less_nat_alt unsigned_of_nat take_bit_nat_eq_self)
qed

lemma unat_ucast_field:
  assumes "lo \<le> hi" "hi - lo < 8"
  shows "unat (ucast (field w hi lo) :: u8) = unat (field w hi lo)"
proof -
  have "unat (field w hi lo) < 2 ^ (hi - lo + 1)" using assms by (intro field_less) auto
  also have "\<dots> \<le> 2 ^ 8" using assms by (intro power_increasing) auto
  finally show ?thesis by (simp add: unsigned_ucast_eq take_bit_nat_eq_self)
qed

lemma and3_push_bit [simp]: "push_bit 2 x AND 3 = (0 :: u64)"
proof -
  have e: "(3 :: u64) = mask 2" by (simp add: mask_eq_exp_minus_1)
  show ?thesis unfolding e by (rule bit_eqI) (auto simp: bit_simps)
qed

lemma decode_bit_masks_small:
  assumes "decode_bit_masks n imms immr i 32 = Some (w, t)" "n \<le> 1"
  shows "w < 0x100000000"
proof -
  have nr: "\<not> mask_reserved n imms i 32"
    using assms by (auto simp: decode_bit_masks_unfold [OF assms(2)] split: if_splits)
  have "\<not> bit w k" if "32 \<le> k" for k
    using decode_bit_masks_cases [OF _ assms(2) nr, of immr] assms(1) that bit_imp_le_length [of w k]
    by auto
  then have "take_bit 32 w = w" by (intro bit_word_eqI) (auto simp: bit_simps intro: leI)
  then show ?thesis by (simp add: take_bit_word_self_iff word_less_nat_alt)
qed

lemma field_datasize:
  assumes "lo + 5 = hi" "sf \<or> \<not> 32 \<le> field w hi lo"
  shows "(ucast (field w hi lo) :: u8) < (if sf then 64 else 32)"
  using assms ucast_field_less [of lo hi 64 w] unat_ucast_field [of lo hi w]
  by (auto simp: word_less_nat_alt word_le_nat_alt)

lemmas insn_ok_splits = if_split [of insn_ok] option.split [of insn_ok] prod.split [of insn_ok] insn_ok.simps

lemma dp_imm_ok: "insn_ok (dp_imm w :: 'i insn)"
proof -
  have imm12: "(ucast (field w 21 10) :: u64) < 0x1000"
  proof -
    have "unat (field w 21 10) < 2 ^ 12" using field_less [of 10 21 w] by simp
    then show ?thesis by (simp add: word_less_nat_alt unsigned_ucast_eq take_bit_nat_eq_self)
  qed
  then have imm24: "push_bit 12 (ucast (field w 21 10) :: u64) < 0x1000000"
    by (simp add: push_bit_eq_mult word_less_nat_alt unat_word_ariths)
  have imm: "(if b then push_bit 12 (ucast (field w 21 10)) else ucast (field w 21 10) :: u64) < 0x1000000" for b
    using imm24 order_less_trans [OF imm12, of "0x1000000"] by simp
  have hw: "unat (field w 22 21) < 4" using field_less [of 21 22 w] by simp
  then have mw: "(ucast (field w 22 21 * 16) :: u8) < (if sf then 64 else 32)"
    if "\<not> (\<not> sf \<and> 2 \<le> field w 22 21)" for sf
    using that by (auto simp: word_less_nat_alt word_le_nat_alt unsigned_ucast_eq unat_word_ariths take_bit_nat_eq_self)
  have n1: "field w 22 22 \<le> 1" using field_less [of 22 22 w] by (simp add: word_le_nat_alt)
  show ?thesis
    unfolding dp_imm_def Let_def
  proof (simp only: insn_ok_splits, intro conjI impI allI; (rule regf_le imm TrueI mw field_datasize)?)
    fix m x y
    assume "decode_bit_masks (field w 22 22) (field w 15 10) (field w 21 16) True (if wbit w 31 then 64 else 32) = Some m"
      "m = (x, y)"
    then show "wbit w 31 \<or> x < 0x100000000"
      using decode_bit_masks_small [OF _ n1] by (cases "wbit w 31") auto
  qed auto
qed

lemma sysreg_table_ok: "\<forall>(k, r) \<in> set sysreg_table. reg_ok r"
  by (simp add: sysreg_table_def)

lemma lookup_debug_ok: "pred_option reg_ok (lookup_debug op1 crn crm op2)"
proof -
  have u: "(ucast crm :: u8) < of_nat k" if "crm < of_nat k" "k < 256" for k
    using that by (simp add: word_less_nat_alt unsigned_of_nat unsigned_ucast_eq take_bit_nat_eq_self)
  show ?thesis
    unfolding lookup_debug_def using u [of 6] u [of 4]
    by (simp only: if_split [of "pred_option reg_ok"] option.pred_inject reg_ok.simps) simp
qed

lemma sysreg_lookup_ok:
  assumes "sysreg_lookup op0 op1 crn crm op2 = Some r" "op2 \<le> 7"
  shows "reg_ok r"
proof -
  have "reg_ok (IdReg (ucast (crm * 8 + op2)))" if "1 \<le> crm" "crm \<le> 7"
  proof -
    have u: "unat (crm * 8 + op2) = unat crm * 8 + unat op2"
      using that assms(2) by (simp add: word_le_nat_alt unat_word_ariths)
    then show ?thesis
      using that assms(2)
      by (simp add: word_le_nat_alt word_less_nat_alt unsigned_ucast_eq u take_bit_nat_eq_self)
  qed
  moreover have "reg_ok r" if "map_of sysreg_table k = Some r" for k
    using sysreg_table_ok map_of_SomeD [OF that] by blast
  ultimately show ?thesis
    using assms(1) lookup_debug_ok [of op1 crn crm op2] by (auto simp: sysreg_lookup_def split: if_splits)
qed

lemma system_ok: "insn_ok (system w :: 'i insn)"
proof -
  have op2: "field w 7 5 \<le> 7" using field_less [of 5 7 w] by (simp add: word_le_nat_alt)
  have crm: "(ucast (field w 11 8) :: u8) \<le> 15" using ucast_field_le [of 8 11 15 w] by simp
  have h: "insn_ok (system_hint crn op1 (field w 11 8) o2 :: 'i insn)" for crn op1 o2
    unfolding system_hint_def by (simp add: insn_ok_splits crm)
  have s: "insn_ok (system_sys op1 crn cm o2 (regf w 0) :: 'i insn)" for op1 crn cm o2
    unfolding system_sys_def by (simp add: insn_ok_splits)
  have r: "insn_ok (system_reg l op0 op1 crn cm (field w 7 5) (regf w 0) :: 'i insn)" for l op0 op1 crn cm
    unfolding system_reg_def using sysreg_lookup_ok [OF _ op2] by (auto simp: insn_ok_splits)
  show ?thesis
    unfolding system_def Let_def by (simp add: insn_ok_splits h s r)
qed

lemma branch_sys_ok: "insn_ok (branch_sys w :: 'i insn)"
proof -
  have tb: "(ucast (push_bit 5 (field w 31 31) OR field w 23 19) :: u8) < 64"
  proof -
    have "take_bit 6 (ucast (push_bit 5 (field w 31 31) OR field w 23 19) :: u8) =
        ucast (push_bit 5 (field w 31 31) OR field w 23 19)"
      by (rule bit_word_eqI) (auto simp: field_take_bit bit_simps)
    then show ?thesis by (simp add: take_bit_word_self_iff word_less_nat_alt)
  qed
  have c4: "(ucast (field w 3 0) :: u8) \<le> 15" using ucast_field_le [of 0 3 15 w] by simp
  have b: "insn_ok (branch_reg w :: 'i insn)" "insn_ok (exception_insn w :: 'i insn)"
    unfolding branch_reg_def exception_insn_def Let_def by (simp_all add: insn_ok_splits)
  show ?thesis
    unfolding branch_sys_def Let_def
    by (simp only: insn_ok_splits, intro conjI impI; (rule regf_le tb c4 and3_push_bit b system_ok TrueI)?)
qed

lemma size2: "(ucast (field w 31 30) :: u8) \<le> 3"
  using ucast_field_le [of 30 31 3 w] by simp

lemma mem_op_prefetch: "mem_op_of sz opc ok = Some MPrefetch \<Longrightarrow> sz = 3 \<and> ok"
  by (auto simp: mem_op_of_def split: if_splits)

lemma extend_values:
  assumes "(ucast (field w 15 13) :: u8) AND 2 \<noteq> 0"
  shows "(ucast (field w 15 13) :: u8) \<in> {2, 3, 6, 7}"
proof -
  define e where "e = (ucast (field w 15 13) :: u8)"
  have "e < 8" using ucast_field_less [of 13 15 8 w] by (simp add: e_def)
  then have n: "unat e < 8" by (simp add: word_less_nat_alt)
  have e: "e = of_nat (unat e)" by simp
  from n have "unat e = 0 \<or> unat e = 1 \<or> unat e = 2 \<or> unat e = 3 \<or> unat e = 4 \<or> unat e = 5 \<or>
      unat e = 6 \<or> unat e = 7"
    by arith
  then show ?thesis
    using assms unfolding e_def [symmetric] by (elim disjE; subst (asm) e; subst e; simp only:; simp)
qed

lemma mem_op_field: "field w 11 10 = 2 \<Longrightarrow> mem_op_of sz opc (field w 11 10 = 0) \<noteq> Some MPrefetch"
  using mem_op_prefetch by fastforce

lemma ldst_reg_ok:
  assumes "rt \<le> 31" "rn \<le> 31"
  shows "insn_ok (ldst_reg w rt rn :: 'i insn)"
  unfolding ldst_reg_def Let_def
  by (simp only: insn_ok_splits addr_mode.case simp_thms, intro conjI impI allI;
      (rule assms size2 regf_le extend_values)?; (assumption)?; (simp add: size2; fail)?; auto dest: mem_op_prefetch)

lemma exclusive_ok: "insn_ok (exclusive w :: 'i insn)"
  unfolding exclusive_def Let_def by (simp add: insn_ok_splits size2 not_less)

lemma simd_rejects_ok: "simd_rejects i \<Longrightarrow> insn_ok i"
  by (cases i) (simp_all add: simd_rejects_def)

lemma ldst_ok: "simd_decoders_ok D \<Longrightarrow> insn_ok (ldst D w)"
  unfolding ldst_def Let_def
  by (simp add: insn_ok_splits exclusive_ok ldst_reg_ok simd_decoders_ok_def simd_rejects_ok split: if_split)

lemma shift_of_Ror:
  assumes "k \<noteq> 3" "unat k < 4"
  shows "shift_of k \<noteq> Ror"
proof -
  from assms have "unat k \<noteq> 3" by (simp add: word_unat_eq_iff)
  with assms(2) have "unat k = 0 \<or> unat k = 1 \<or> unat k = 2" by arith
  then show ?thesis by (auto simp: shift_of_def numeral_2_eq_2)
qed

lemma crc_bytes:
  fixes k :: u32
  shows "(push_bit (unat (k AND 3)) 1 :: u8) \<in> {1, 2, 4, 8} \<and> ((push_bit (unat (k AND 3)) 1 :: u8) = 8 \<longleftrightarrow> k AND 3 = 3)"
proof -
  have e: "k AND 3 = take_bit 2 k" by (simp add: take_bit_eq_mask mask_eq_exp_minus_1)
  have "unat (k AND 3) < 4" using take_bit_nat_less_exp [of 2 "unat k"] unfolding e by (simp add: unsigned_take_bit_eq)
  then have "unat (k AND 3) = 0 \<or> unat (k AND 3) = 1 \<or> unat (k AND 3) = 2 \<or> unat (k AND 3) = 3" by arith
  moreover have "k AND 3 = 3 \<longleftrightarrow> unat (k AND 3) = 3" by (simp add: word_unat_eq_iff)
  ultimately show ?thesis by auto
qed

lemma dp_two_source_ok:
  assumes "rm \<le> 31" "rn \<le> 31" "rd \<le> 31"
  shows "insn_ok (dp_two_source w sf rm rn rd :: 'i insn)"
  unfolding dp_two_source_def Let_def using assms crc_bytes [of "field w 15 10"]
  by (simp add: insn_ok_splits) blast

lemma dp_three_source_ok:
  assumes "rm \<le> 31" "rn \<le> 31" "rd \<le> 31"
  shows "insn_ok (dp_three_source w sf rm rn rd :: 'i insn)"
  unfolding dp_three_source_def Let_def using assms by (simp add: insn_ok_splits)

lemma dp_reg_ok: "insn_ok (dp_reg w :: 'i insn)"
proof -
  have sh: "field w 23 22 \<noteq> 3 \<Longrightarrow> shift_of (field w 23 22) \<noteq> Ror"
    using field_less [of 22 23 w] by (intro shift_of_Ror) simp_all
  have c: "(ucast (field w 15 12) :: u8) \<le> 15" "(ucast (field w 3 0) :: u8) \<le> 15" "(ucast (field w 15 13) :: u8) \<le> 7"
    using ucast_field_le [of 12 15 15 w] ucast_field_le [of 0 3 15 w] ucast_field_le [of 13 15 7 w] by simp_all
  have d: "(ucast (field w 15 10) :: u8) < (if sf then 64 else 32)" if "\<not> (\<not> sf \<and> 32 \<le> (ucast (field w 15 10) :: u8))" for sf
    using that ucast_field_less [of 10 15 64 w] by (cases sf) simp_all
  show ?thesis
    unfolding dp_reg_def Let_def
    by (simp only: insn_ok_splits, intro conjI impI;
        (rule regf_le c d dp_two_source_ok dp_three_source_ok TrueI sh)?; (simp add: not_less; fail)?;
        auto)
qed

text \<open>
  C14. The decoder is well typed: for all 32-bit words it gives an instruction the executor can run
  without leaving its arrays or shifting out of range. Register numbers are at most 31, shift amounts
  are below the data size, access sizes are at most eight bytes and a pair exclusive is of words or
  doublewords, condition codes and immediate flags have four bits, the byte count of a CRC fits the
  data size, indices of the banked debug registers are within their banks, and every branch offset is
  a multiple of four. The vector decoders are only assumed to give vector instructions or to reject.
\<close>

theorem decode_well_formed:
  assumes "simd_decoders_ok D"
  shows "insn_ok (decode D w)"
  using assms
  by (simp add: decode_def Let_def insn_ok_splits dp_imm_ok branch_sys_ok ldst_ok dp_reg_ok simd_decode_dp_def
      simd_decoders_ok_def simd_rejects_ok)

theorem decode_well_formed_witness:
  "insn_ok (decode \<lparr>sd_ldst = (\<lambda>_. UndefinedInsn), sd_fp = Simd, sd_int = (\<lambda>_. UnimplementedInsn ''int'')\<rparr> 0xD2800540)"
  by (rule decode_well_formed) (simp add: simd_decoders_ok_def simd_rejects_def)

end
