(* ===== verification/Cpu_Exec.thy ===== *)
theory Cpu_Exec
  imports Cpu_Decode "HOL-Library.Signed_Division"
begin

text \<open>
  The interpreter of \<^verbatim>\<open>crates/vetro-cpu/src/exec.rs\<close>: what each decoded instruction does to the core and
  to the memory. The trait \<^verbatim>\<open>Memory\<close> (\<^verbatim>\<open>mem.rs\<close>) is a record of operations that take and return the
  state of the memory. The execution of the vector instructions (\<^verbatim>\<open>simd/\<close>) is an argument, and so
  is their decoder. An instruction returns an exception or the target of its branch, beside the core
  and the memory it leaves.
\<close>

subsection \<open>Memory and exceptions\<close>

record 'm memory =
  me_read :: "u64 \<Rightarrow> nat \<Rightarrow> 'm \<Rightarrow> (mem_fault + bytes) \<times> 'm"
  me_write :: "u64 \<Rightarrow> bytes \<Rightarrow> 'm \<Rightarrow> (mem_fault + unit) \<times> 'm"
  me_fetch :: "u64 \<Rightarrow> 'm \<Rightarrow> (mem_fault + u32) \<times> 'm"
  me_read_unpriv :: "u64 \<Rightarrow> nat \<Rightarrow> 'm \<Rightarrow> (mem_fault + bytes) \<times> 'm"
  me_write_unpriv :: "u64 \<Rightarrow> bytes \<Rightarrow> 'm \<Rightarrow> (mem_fault + unit) \<times> 'm"
  me_zero_block :: "u64 \<Rightarrow> 'm \<Rightarrow> (mem_fault + unit) \<times> 'm"
  me_cmpxchg :: "u64 \<Rightarrow> bytes \<Rightarrow> bytes \<Rightarrow> 'm \<Rightarrow> (mem_fault + bool) \<times> 'm"

text \<open>The methods with a default implementation, from the three that have none.\<close>

definition default_cmpxchg ::
  "(u64 \<Rightarrow> nat \<Rightarrow> 'm \<Rightarrow> (mem_fault + bytes) \<times> 'm) \<Rightarrow> (u64 \<Rightarrow> bytes \<Rightarrow> 'm \<Rightarrow> (mem_fault + unit) \<times> 'm) \<Rightarrow>
    u64 \<Rightarrow> bytes \<Rightarrow> bytes \<Rightarrow> 'm \<Rightarrow> (mem_fault + bool) \<times> 'm" where
  "default_cmpxchg rd wr addr old new m =
    sbind (rd addr (length old) m) (\<lambda>cur m.
      if cur \<noteq> old then (Inr False, m) else sbind (wr addr new m) (\<lambda>_ m. (Inr True, m)))"

definition default_memory ::
  "(u64 \<Rightarrow> nat \<Rightarrow> 'm \<Rightarrow> (mem_fault + bytes) \<times> 'm) \<Rightarrow> (u64 \<Rightarrow> bytes \<Rightarrow> 'm \<Rightarrow> (mem_fault + unit) \<times> 'm) \<Rightarrow>
    (u64 \<Rightarrow> 'm \<Rightarrow> (mem_fault + u32) \<times> 'm) \<Rightarrow> 'm memory" where
  "default_memory rd wr ft =
    \<lparr>me_read = rd, me_write = wr, me_fetch = ft, me_read_unpriv = rd, me_write_unpriv = wr,
     me_zero_block = (\<lambda>addr. wr addr (replicate 64 0)), me_cmpxchg = default_cmpxchg rd wr\<rparr>"

datatype exception =
    ExSvc u16 | Breakpoint u16 | ExUndefined u32 | ExUnimplemented u32 string
  | DataAbort u64 bool | InstructionAbort u64 | Alignment u64 | PcAlignment u64 | SpAlignment

definition exception_of_fault :: "mem_fault \<Rightarrow> exception" where
  "exception_of_fault f =
    (if mf_access f = Fetch then InstructionAbort (mf_addr f)
     else DataAbort (mf_addr f) (mf_access f = Write))"

type_synonym ('a, 'm) exec_result = "(exception + 'a) \<times> cpu \<times> 'm"

text \<open>A memory operation called by the interpreter: its fault becomes an exception.\<close>

definition lift_mem :: "('m \<Rightarrow> (mem_fault + 'a) \<times> 'm) \<Rightarrow> cpu \<times> 'm \<Rightarrow> ('a, 'm) exec_result" where
  "lift_mem f s = (case f (snd s) of (r, m) \<Rightarrow> (map_err exception_of_fault r, fst s, m))"

text \<open>What the interpreter calls for a vector instruction.\<close>

type_synonym ('i, 'm) simd_exec = "'m memory \<Rightarrow> 'i \<Rightarrow> cpu \<times> 'm \<Rightarrow> (unit, 'm) exec_result"

subsection \<open>Arithmetic\<close>

definition trunc :: "u64 \<Rightarrow> bool \<Rightarrow> u64" where
  "trunc v sf = (if sf then v else ucast (ucast v :: u32))"

definition datasize :: "bool \<Rightarrow> nat" where
  "datasize sf = (if sf then 64 else 32)"

definition overflowing_add :: "u64 \<Rightarrow> u64 \<Rightarrow> u64 \<times> bool" where
  "overflowing_add x y = (x + y, 2 ^ 64 \<le> unat x + unat y)"

definition add_with_carry :: "u64 \<Rightarrow> u64 \<Rightarrow> bool \<Rightarrow> bool \<Rightarrow> u64 \<times> bool \<times> bool \<times> bool \<times> bool" where
  "add_with_carry x y carry sf =
    (if sf then
       let (r1, c1) = overflowing_add x y; (r, c2) = overflowing_add r1 (of_bool carry);
           v = (drop_bit 63 ((x XOR r) AND (y XOR r)) \<noteq> 0)
       in (r, drop_bit 63 r \<noteq> 0, r = 0, c1 \<or> c2, v)
     else
       let x = ucast x :: u32; y = ucast y :: u32;
           wide = ucast x + ucast y + of_bool carry :: u64; r = ucast wide :: u32;
           v = (drop_bit 31 ((x XOR r) AND (y XOR r)) \<noteq> 0)
       in (ucast r, drop_bit 31 r \<noteq> 0, r = 0, drop_bit 32 wide \<noteq> 0, v))"

definition shift_reg :: "u64 \<Rightarrow> shift \<Rightarrow> nat \<Rightarrow> bool \<Rightarrow> u64" where
  "shift_reg v sh amount sf =
    (let n = datasize sf; v = trunc v sf;
         r = (case sh of
                Lsl \<Rightarrow> if amount < 64 then push_bit amount v else 0
              | Lsr \<Rightarrow> if amount < 64 then drop_bit amount v else 0
              | Asr \<Rightarrow> signed_drop_bit (min amount 63) (sext v n)
              | Ror \<Rightarrow> ror v amount n)
     in trunc r sf)"

definition extend_reg :: "u64 \<Rightarrow> u8 \<Rightarrow> u8 \<Rightarrow> u64" where
  "extend_reg v ext sh =
    push_bit (unat sh)
      (if ext = 0 then ucast (ucast v :: u8)
       else if ext = 1 then ucast (ucast v :: u16)
       else if ext = 2 then ucast (ucast v :: u32)
       else if ext = 3 \<or> ext = 7 then v
       else if ext = 4 then scast (ucast v :: u8)
       else if ext = 5 then scast (ucast v :: u16)
       else scast (ucast v :: u32))"

definition crc_step :: "u32 \<Rightarrow> u32 \<Rightarrow> u32" where
  "crc_step poly crc = (if crc AND 1 \<noteq> 0 then drop_bit 1 crc XOR poly else drop_bit 1 crc)"

definition crc32 :: "u32 \<Rightarrow> u64 \<Rightarrow> u8 \<Rightarrow> bool \<Rightarrow> u32" where
  "crc32 acc data n c =
    (let poly = (if c then 0x82F63B78 else 0xEDB88320)
     in fold (\<lambda>i crc. (crc_step poly ^^ 8) (crc XOR ucast (ucast (drop_bit (8 * i) data) :: u8)))
          [0..<unat n] acc)"

definition read_uint :: "'m memory \<Rightarrow> u64 \<Rightarrow> nat \<Rightarrow> cpu \<times> 'm \<Rightarrow> (u128, 'm) exec_result" where
  "read_uint M addr n s = sbind (lift_mem (me_read M addr n) s) (\<lambda>b s. (Inr (of_le b), s))"

definition write_uint :: "'m memory \<Rightarrow> u64 \<Rightarrow> nat \<Rightarrow> u128 \<Rightarrow> cpu \<times> 'm \<Rightarrow> (unit, 'm) exec_result" where
  "write_uint M addr n v = lift_mem (me_write M addr (take n (le_bytes 16 v)))"

definition check_aligned :: "u64 \<Rightarrow> u64 \<Rightarrow> exception + unit" where
  "check_aligned addr n = (if addr mod n \<noteq> 0 then Inl (Alignment addr) else Inr ())"

definition extend_load :: "u64 \<Rightarrow> u8 \<Rightarrow> mem_op \<Rightarrow> u64" where
  "extend_load raw sz op = (case op of
      MLoad True dst64 \<Rightarrow>
        let s = sext raw (8 * 2 ^ unat sz) in if dst64 then s else ucast (ucast s :: u32)
    | _ \<Rightarrow> raw)"

definition reverse_bits :: "'a::len word \<Rightarrow> 'a word" where
  "reverse_bits w = horner_sum of_bool 2 (rev (map (bit w) [0..<LENGTH('a)]))"

definition swap_bytes :: "'a::len word \<Rightarrow> 'a word" where
  "swap_bytes w = of_le (rev (le_bytes (LENGTH('a) div 8) w))"

definition set_logic_flags :: "u64 \<Rightarrow> bool \<Rightarrow> cpu \<Rightarrow> cpu" where
  "set_logic_flags r sf = set_flags (drop_bit (datasize sf - 1) r AND 1 \<noteq> 0) (r = 0) False False"

definition add_sub :: "u64 \<Rightarrow> u64 \<Rightarrow> bool \<Rightarrow> bool \<Rightarrow> bool \<Rightarrow> cpu \<Rightarrow> u64 \<times> cpu" where
  "add_sub x y sub setflags sf c =
    (let (y, cin) = (if sub then (NOT y, True) else (y, False));
         (r, n, z, co, v) = add_with_carry x y cin sf
     in (r, if setflags then set_flags n z co v c else c))"

definition dp1 :: "bool \<Rightarrow> dp1_op \<Rightarrow> u64 \<Rightarrow> u64" where
  "dp1 sf op x =
    (if sf then (case op of
         Rbit \<Rightarrow> reverse_bits x
       | Rev16 \<Rightarrow> push_bit 8 (x AND 0x00ff00ff00ff00ff) OR (drop_bit 8 x AND 0x00ff00ff00ff00ff)
       | Rev32 \<Rightarrow> push_bit 32 (ucast (swap_bytes (ucast (drop_bit 32 x) :: u32))) OR
                 ucast (swap_bytes (ucast x :: u32))
       | Rev64 \<Rightarrow> swap_bytes x
       | Clz \<Rightarrow> of_nat (leading_zeros x)
       | Cls \<Rightarrow> of_nat (leading_zeros ((x XOR drop_bit 1 x) AND drop_bit 1 (- 1)) - 1))
     else let x = ucast x :: u32
          in (case op of
         Rbit \<Rightarrow> ucast (reverse_bits x)
       | Rev16 \<Rightarrow> ucast (push_bit 8 (x AND 0x00ff00ff) OR (drop_bit 8 x AND 0x00ff00ff))
       | Rev32 \<Rightarrow> ucast (swap_bytes x)
       | Rev64 \<Rightarrow> ucast (swap_bytes x)
       | Clz \<Rightarrow> of_nat (leading_zeros x)
       | Cls \<Rightarrow> of_nat (leading_zeros ((x XOR drop_bit 1 x) AND drop_bit 1 (- 1)) - 1)))"

definition dp2 :: "bool \<Rightarrow> dp2_op \<Rightarrow> u64 \<Rightarrow> u64 \<Rightarrow> u64" where
  "dp2 sf op xn xm =
    (let x = trunc xn sf; y = trunc xm sf; n = datasize sf
     in case op of
          Udiv \<Rightarrow> if y = 0 then 0 else x div y
        | Sdiv \<Rightarrow> let a = sext x n; b = sext y n in if b = 0 then 0 else word_of_int (sint a sdiv sint b)
        | Lslv \<Rightarrow> shift_reg x Lsl (unat (y mod of_nat n)) sf
        | Lsrv \<Rightarrow> shift_reg x Lsr (unat (y mod of_nat n)) sf
        | Asrv \<Rightarrow> shift_reg x Asr (unat (y mod of_nat n)) sf
        | Rorv \<Rightarrow> shift_reg x Ror (unat (y mod of_nat n)) sf
        | Crc32 k c \<Rightarrow> ucast (crc32 (ucast x) xm k c))"

definition dp3 :: "dp3_op \<Rightarrow> u64 \<Rightarrow> u64 \<Rightarrow> u64 \<Rightarrow> u64" where
  "dp3 op a m n =
    (let sx = (\<lambda>v :: u64. scast (ucast v :: u32) :: u64); zx = (\<lambda>v :: u64. ucast (ucast v :: u32) :: u64)
     in case op of
          Madd \<Rightarrow> a + n * m
        | Msub \<Rightarrow> a - n * m
        | Smaddl \<Rightarrow> a + sx n * sx m
        | Smsubl \<Rightarrow> a - sx n * sx m
        | Umaddl \<Rightarrow> a + zx n * zx m
        | Umsubl \<Rightarrow> a - zx n * zx m
        | Smulh \<Rightarrow> ucast (signed_drop_bit 64 (scast n * scast m :: u128))
        | Umulh \<Rightarrow> ucast (drop_bit 64 (ucast n * ucast m :: u128)))"

definition logic_result :: "logic_op \<Rightarrow> u64 \<Rightarrow> u64 \<Rightarrow> u64" where
  "logic_result op x y = (case op of LAnd \<Rightarrow> x AND y | LAnds \<Rightarrow> x AND y | LOrr \<Rightarrow> x OR y | LEor \<Rightarrow> x XOR y)"

subsection \<open>Instructions\<close>

text \<open>
  The arms of \<^verbatim>\<open>execute\<close> in the order of the source: data processing, which only changes the core,
  branches, which also give the target, and the instructions that may raise an exception.
\<close>

definition exec_dp_imm :: "'i insn \<Rightarrow> cpu \<Rightarrow> cpu" where
  "exec_dp_imm i c = (case i of
      AddSubImm sf sub setflags imm rn rd \<Rightarrow>
        let x = xsp c rn; (y, cin) = (if sub then (NOT imm, True) else (imm, False));
            (r, n, z, co, v) = add_with_carry x y cin sf
        in if setflags then set_x rd r (set_flags n z co v c) else set_xsp rd r c
    | LogicalImm sf op imm rn rd \<Rightarrow>
        let r = trunc (logic_result op (xr c rn) imm) sf
        in if op = LAnds then set_x rd r (set_logic_flags r sf c) else set_xsp rd r c
    | MoveWide sf op sh imm16 rd \<Rightarrow>
        let imm = push_bit (unat sh) (ucast imm16);
            r = (case op of Movz \<Rightarrow> imm | Movn \<Rightarrow> NOT imm
                 | Movk \<Rightarrow> (xr c rd AND NOT (push_bit (unat sh) 0xffff)) OR imm)
        in set_x rd (trunc r sf) c
    | Adr page imm rd \<Rightarrow>
        let base = (if page then c_pc c AND NOT 0xfff else c_pc c) in set_x rd (base + imm) c
    | Bitfield sf op r s wmask tmask rn rd \<Rightarrow>
        let n = datasize sf; dst = (if op = Bfm then xr c rd else 0); src = xr c rn;
            bot = (dst AND NOT wmask) OR (ror src (unat r) n AND wmask);
            top = (if op = Sbfm then if drop_bit (unat s) src AND 1 \<noteq> 0 then ones n else 0 else dst)
        in set_x rd (trunc ((top AND NOT tmask) OR (bot AND tmask)) sf) c
    | Extract sf lsb rm rn rd \<Rightarrow>
        let hi = xr c rn; lo = xr c rm;
            r = (if sf then
                   if lsb = 0 then lo else drop_bit (unat lsb) lo OR push_bit (64 - unat lsb) hi
                 else let concat' = push_bit 32 (ucast (ucast hi :: u32)) OR ucast (ucast lo :: u32) :: u64
                      in ucast (ucast (drop_bit (unat lsb) concat') :: u32))
        in set_x rd r c
    | _ \<Rightarrow> c)"

definition exec_dp_reg :: "'i insn \<Rightarrow> cpu \<Rightarrow> cpu" where
  "exec_dp_reg i c = (case i of
      LogicalReg sf op invert sh amount rm rn rd \<Rightarrow>
        let y = shift_reg (xr c rm) sh (unat amount) sf; y = (if invert then trunc (NOT y) sf else y);
            r = trunc (logic_result op (xr c rn) y) sf
        in set_x rd r (if op = LAnds then set_logic_flags r sf c else c)
    | AddSubReg sf sub setflags sh amount rm rn rd \<Rightarrow>
        let y = shift_reg (xr c rm) sh (unat amount) sf; (r, c1) = add_sub (xr c rn) y sub setflags sf c
        in set_x rd r c1
    | AddSubExt sf sub setflags ext amount rm rn rd \<Rightarrow>
        let y = trunc (extend_reg (xr c rm) ext amount) sf; (r, c1) = add_sub (xsp c rn) y sub setflags sf c
        in if setflags then set_x rd r c1 else set_xsp rd r c1
    | AddSubCarry sf sub setflags rm rn rd \<Rightarrow>
        let y = (if sub then NOT (xr c rm) else xr c rm); cin = (c_nzcv c AND flag_C \<noteq> 0);
            (r, n, z, co, v) = add_with_carry (xr c rn) y cin sf
        in set_x rd r (if setflags then set_flags n z co v c else c)
    | CondCmp sf sub operand cond nzcv rn \<Rightarrow>
        if condition_holds c cond then
          snd (add_sub (xr c rn) (case operand of CcmpReg rm \<Rightarrow> xr c rm | CcmpImm k \<Rightarrow> ucast k) sub True sf c)
        else c\<lparr>c_nzcv := push_bit 28 (ucast nzcv)\<rparr>
    | CondSel sf op cond rm rn rd \<Rightarrow>
        let r = (if condition_holds c cond then xr c rn
                 else let m = xr c rm
                      in case op of Csel \<Rightarrow> m | Csinc \<Rightarrow> m + 1 | Csinv \<Rightarrow> NOT m | Csneg \<Rightarrow> - m)
        in set_x rd (trunc r sf) c
    | Dp1 sf op rn rd \<Rightarrow> set_x rd (dp1 sf op (xr c rn)) c
    | Dp2 sf op rm rn rd \<Rightarrow> set_x rd (trunc (dp2 sf op (xr c rn) (xr c rm)) sf) c
    | Dp3 sf op ra rm rn rd \<Rightarrow> set_x rd (trunc (dp3 op (xr c ra) (xr c rm) (xr c rn)) sf) c
    | _ \<Rightarrow> c)"

definition exec_branch :: "'i insn \<Rightarrow> cpu \<Rightarrow> u64 option \<times> cpu" where
  "exec_branch i c = (let pc = c_pc c in case i of
      Branch link offset \<Rightarrow>
        (Some (pc + offset), if link then c\<lparr>c_x := (c_x c)[30 := pc + 4]\<rparr> else c)
    | BCond cond offset \<Rightarrow> (if condition_holds c cond then Some (pc + offset) else None, c)
    | Cbz sf nonzero rt offset \<Rightarrow>
        (if (trunc (xr c rt) sf \<noteq> 0) = nonzero then Some (pc + offset) else None, c)
    | Tbz nonzero b rt offset \<Rightarrow>
        (if (drop_bit (unat b) (xr c rt) AND 1 \<noteq> 0) = nonzero then Some (pc + offset) else None, c)
    | BranchReg op rn \<Rightarrow>
        (Some (xr c rn), if op = Blr then c\<lparr>c_x := (c_x c)[30 := pc + 4]\<rparr> else c)
    | _ \<Rightarrow> (None, c))"

definition CTR_EL0 :: u64 where "CTR_EL0 = 0x84448004"

definition exec_mrs :: "sys_reg \<Rightarrow> u8 \<Rightarrow> u32 \<Rightarrow> cpu \<Rightarrow> exception + cpu" where
  "exec_mrs reg rt raw c =
    (if is_el0_dcc reg then Inl (ExUndefined raw)
     else if \<not> is_el0_legacy reg then Inl (ExUnimplemented raw ''MRS/MSR system register'')
     else Inr (set_x rt
       (if reg = Nzcv then ucast (c_nzcv c) else if reg = TpidrEl0 then c_tpidr_el0 c
        else if reg = TpidrroEl0 then c_tpidrro_el0 c else if reg = Fpcr then ucast (c_fpcr c)
        else if reg = Fpsr then ucast (c_fpsr c) else if reg = DczidEl0 then 4 else CTR_EL0) c))"

definition exec_msr :: "sys_reg \<Rightarrow> u8 \<Rightarrow> u32 \<Rightarrow> cpu \<Rightarrow> exception + cpu" where
  "exec_msr reg rt raw c =
    (if is_el0_dcc reg then Inl (ExUndefined raw)
     else if \<not> is_el0_legacy reg then Inl (ExUnimplemented raw ''MRS/MSR system register'')
     else let v = xr c rt
          in if reg = Nzcv then Inr (c\<lparr>c_nzcv := ucast v AND 0xf0000000\<rparr>)
             else if reg = TpidrEl0 then Inr (c\<lparr>c_tpidr_el0 := v\<rparr>)
             else if reg = Fpcr then Inr (c\<lparr>c_fpcr := ucast v AND FPCR_MASK\<rparr>)
             else if reg = Fpsr then Inr (c\<lparr>c_fpsr := ucast v AND FPSR_MASK\<rparr>)
             else Inl (ExUndefined raw))"

definition check_sp_alignment :: "cpu \<Rightarrow> u8 \<Rightarrow> exception + unit" where
  "check_sp_alignment c rn =
    (if rn = 31 \<and> s_mode (c_sys c) = System \<and> c_sp c AND 15 \<noteq> 0 then
       let b = (if s_el (c_sys c) = 0 then sctlr_SA0 else sctlr_SA)
       in if s_sctlr_el1 (c_sys c) AND b \<noteq> 0 then Inl SpAlignment else Inr ()
     else Inr ())"

text \<open>The address of a load or store and the value written back to its base.\<close>

definition ldst_address :: "cpu \<Rightarrow> addr_mode \<Rightarrow> u8 \<Rightarrow> u64 \<times> u64 option" where
  "ldst_address c a rn = (let base = xsp c rn in case a of
      AImm offset idx \<Rightarrow>
        let moved = base + offset
        in (case idx of IOffset \<Rightarrow> (moved, None) | IPre \<Rightarrow> (moved, Some moved) | IPost \<Rightarrow> (base, Some moved))
    | AReg rm ext sh \<Rightarrow> (base + extend_reg (xr c rm) ext sh, None))"

definition exec_ldst :: "'m memory \<Rightarrow> u8 \<Rightarrow> mem_op \<Rightarrow> addr_mode \<Rightarrow> u8 \<Rightarrow> u8 \<Rightarrow> bool \<Rightarrow> cpu \<times> 'm \<Rightarrow> (unit, 'm) exec_result" where
  "exec_ldst M sz op a rt rn unpriv s =
    sbind (if op \<noteq> MPrefetch then check_sp_alignment (fst s) rn else Inr (), s) (\<lambda>_ s.
      let c = fst s; (address, writeback) = ldst_address c a rn; n = 2 ^ unat sz
      in sbind (case op of
            MStore \<Rightarrow>
              if unpriv then lift_mem (me_write_unpriv M address (take n (le_bytes 16 (ucast (xr c rt) :: u128)))) s
              else write_uint M address n (ucast (xr c rt)) s
          | MLoad _ _ \<Rightarrow>
              sbind (if unpriv then sbind (lift_mem (me_read_unpriv M address n) s) (\<lambda>b s. (Inr (of_le b), s))
                     else sbind (read_uint M address n s) (\<lambda>v s. (Inr (ucast v), s)))
                (\<lambda>raw s. (Inr (), set_x rt (extend_load raw sz op) (fst s), snd s))
          | MPrefetch \<Rightarrow> (Inr (), s))
          (\<lambda>_ s. (Inr (), case writeback of Some wb \<Rightarrow> (set_xsp rn wb (fst s), snd s) | None \<Rightarrow> s)))"

definition exec_literal :: "'m memory \<Rightarrow> u8 \<Rightarrow> mem_op \<Rightarrow> u64 \<Rightarrow> u8 \<Rightarrow> cpu \<times> 'm \<Rightarrow> (unit, 'm) exec_result" where
  "exec_literal M sz op offset rt s =
    (if op \<noteq> MPrefetch then
       sbind (read_uint M (c_pc (fst s) + offset) (2 ^ unat sz) s) (\<lambda>raw s.
         (Inr (), set_x rt (extend_load (ucast raw) sz op) (fst s), snd s))
     else (Inr (), s))"

definition exec_pair ::
  "'m memory \<Rightarrow> u8 \<Rightarrow> bool \<Rightarrow> bool \<Rightarrow> index \<Rightarrow> u64 \<Rightarrow> u8 \<Rightarrow> u8 \<Rightarrow> u8 \<Rightarrow> cpu \<times> 'm \<Rightarrow> (unit, 'm) exec_result" where
  "exec_pair M sz load sg idx offset rt rt2 rn s =
    sbind (check_sp_alignment (fst s) rn, s) (\<lambda>_ s.
      let c = fst s; base = xsp c rn; moved = base + offset;
          address = (if idx = IPost then base else moved); n = 2 ^ unat sz; second = address + of_nat n
      in sbind (if load then
              let op = MLoad sg True
              in sbind (read_uint M address n s) (\<lambda>a s. sbind (read_uint M second n s) (\<lambda>b s.
                   (Inr (), set_x rt2 (extend_load (ucast b) sz op) (set_x rt (extend_load (ucast a) sz op) (fst s)),
                    snd s)))
            else let a = xr c rt; b = xr c rt2
                 in sbind (write_uint M address n (ucast a) s) (\<lambda>_ s. write_uint M second n (ucast b) s))
          (\<lambda>_ s. (Inr (), if idx \<noteq> IOffset then (set_xsp rn moved (fst s), snd s) else s)))"

definition exec_exclusive ::
  "'m memory \<Rightarrow> u8 \<Rightarrow> bool \<Rightarrow> bool \<Rightarrow> u8 \<Rightarrow> u8 \<Rightarrow> u8 \<Rightarrow> u8 \<Rightarrow> cpu \<times> 'm \<Rightarrow> (unit, 'm) exec_result" where
  "exec_exclusive M sz load pair' rs rt rt2 rn s =
    sbind (check_sp_alignment (fst s) rn, s) (\<lambda>_ s.
      let address = xsp (fst s) rn; elem = 2 ^ unat sz; total = (if pair' then elem * 2 else elem)
      in sbind (check_aligned address (of_nat total), s) (\<lambda>_ s.
        if load then
          sbind (read_uint M address total s) (\<lambda>v s.
            let c = (fst s)\<lparr>c_monitor := Some \<lparr>mon_addr = address, mon_bytes = of_nat total, mon_value = v\<rparr>\<rparr>
            in (Inr (), if pair' then
                  set_x rt2 (ucast (drop_bit (elem * 8) v)) (set_x rt (ucast (v AND ucast (ones (elem * 8)))) c)
                else set_x rt (ucast v) c, snd s))
        else
          let c = fst s;
              new = (if pair' then
                       (ucast (xr c rt) AND ucast (ones (elem * 8))) OR push_bit (elem * 8) (ucast (xr c rt2))
                     else ucast (xr c rt)) :: u128;
              s1 = (c\<lparr>c_monitor := None\<rparr>, snd s)
          in sbind (case c_monitor c of
                Some m \<Rightarrow>
                  if mon_addr m = address \<and> mon_bytes m = of_nat total then
                    lift_mem (me_cmpxchg M address (take total (le_bytes 16 (mon_value m)))
                                (take total (le_bytes 16 new))) s1
                  else (Inr False, s1)
              | None \<Rightarrow> (Inr False, s1))
              (\<lambda>ok s. (Inr (), set_x rs (of_bool (\<not> ok)) (fst s), snd s))))"

definition exec_load_acquire :: "'m memory \<Rightarrow> u8 \<Rightarrow> u8 \<Rightarrow> u8 \<Rightarrow> cpu \<times> 'm \<Rightarrow> (unit, 'm) exec_result" where
  "exec_load_acquire M sz rt rn s =
    sbind (check_sp_alignment (fst s) rn, s) (\<lambda>_ s.
      let address = xsp (fst s) rn
      in sbind (check_aligned address (push_bit (unat sz) 1), s) (\<lambda>_ s.
           sbind (read_uint M address (2 ^ unat sz) s) (\<lambda>v s. (Inr (), set_x rt (ucast v) (fst s), snd s))))"

definition exec_store_release :: "'m memory \<Rightarrow> u8 \<Rightarrow> u8 \<Rightarrow> u8 \<Rightarrow> cpu \<times> 'm \<Rightarrow> (unit, 'm) exec_result" where
  "exec_store_release M sz rt rn s =
    sbind (check_sp_alignment (fst s) rn, s) (\<lambda>_ s.
      let address = xsp (fst s) rn
      in sbind (check_aligned address (push_bit (unat sz) 1), s) (\<lambda>_ s.
           write_uint M address (2 ^ unat sz) (ucast (xr (fst s) rt)) s))"

text \<open>The instruction as a whole: \<open>Some\<close> target when it branches.\<close>

abbreviation no_branch :: "(unit, 'm) exec_result \<Rightarrow> (u64 option, 'm) exec_result" where
  "no_branch x \<equiv> sbind x (\<lambda>_ s. (Inr None, s))"

definition execute ::
  "('i, 'm) simd_exec \<Rightarrow> 'm memory \<Rightarrow> 'i insn \<Rightarrow> u32 \<Rightarrow> cpu \<times> 'm \<Rightarrow> (u64 option, 'm) exec_result" where
  "execute X M i raw s = (case i of
      AddSubImm _ _ _ _ _ _ \<Rightarrow> (Inr None, exec_dp_imm i (fst s), snd s)
    | LogicalImm _ _ _ _ _ \<Rightarrow> (Inr None, exec_dp_imm i (fst s), snd s)
    | MoveWide _ _ _ _ _ \<Rightarrow> (Inr None, exec_dp_imm i (fst s), snd s)
    | Adr _ _ _ \<Rightarrow> (Inr None, exec_dp_imm i (fst s), snd s)
    | Bitfield _ _ _ _ _ _ _ _ \<Rightarrow> (Inr None, exec_dp_imm i (fst s), snd s)
    | Extract _ _ _ _ _ \<Rightarrow> (Inr None, exec_dp_imm i (fst s), snd s)
    | LogicalReg _ _ _ _ _ _ _ _ \<Rightarrow> (Inr None, exec_dp_reg i (fst s), snd s)
    | AddSubReg _ _ _ _ _ _ _ _ \<Rightarrow> (Inr None, exec_dp_reg i (fst s), snd s)
    | AddSubExt _ _ _ _ _ _ _ _ \<Rightarrow> (Inr None, exec_dp_reg i (fst s), snd s)
    | AddSubCarry _ _ _ _ _ _ \<Rightarrow> (Inr None, exec_dp_reg i (fst s), snd s)
    | CondCmp _ _ _ _ _ _ \<Rightarrow> (Inr None, exec_dp_reg i (fst s), snd s)
    | CondSel _ _ _ _ _ _ \<Rightarrow> (Inr None, exec_dp_reg i (fst s), snd s)
    | Dp1 _ _ _ _ \<Rightarrow> (Inr None, exec_dp_reg i (fst s), snd s)
    | Dp2 _ _ _ _ _ \<Rightarrow> (Inr None, exec_dp_reg i (fst s), snd s)
    | Dp3 _ _ _ _ _ _ \<Rightarrow> (Inr None, exec_dp_reg i (fst s), snd s)
    | Branch _ _ \<Rightarrow> (case exec_branch i (fst s) of (t, c) \<Rightarrow> (Inr t, c, snd s))
    | BCond _ _ \<Rightarrow> (case exec_branch i (fst s) of (t, c) \<Rightarrow> (Inr t, c, snd s))
    | Cbz _ _ _ _ \<Rightarrow> (case exec_branch i (fst s) of (t, c) \<Rightarrow> (Inr t, c, snd s))
    | Tbz _ _ _ _ \<Rightarrow> (case exec_branch i (fst s) of (t, c) \<Rightarrow> (Inr t, c, snd s))
    | BranchReg _ _ \<Rightarrow> (case exec_branch i (fst s) of (t, c) \<Rightarrow> (Inr t, c, snd s))
    | Svc _ \<Rightarrow> (Inr None, s)
    | Brk imm \<Rightarrow> (Inl (Breakpoint imm), s)
    | Nop \<Rightarrow> (Inr None, s)
    | Barrier \<Rightarrow> (Inr None, s)
    | CacheMaint \<Rightarrow> (Inr None, s)
    | Clrex \<Rightarrow> (Inr None, (fst s)\<lparr>c_monitor := None\<rparr>, snd s)
    | DcZva rt \<Rightarrow> no_branch (lift_mem (me_zero_block M (xr (fst s) rt AND NOT 63)) s)
    | Wfi \<Rightarrow> (Inr None, s)
    | Wfe \<Rightarrow> (Inr None, s)
    | Yield \<Rightarrow> (Inr None, s)
    | Hvc _ \<Rightarrow> (Inl (ExUndefined raw), s)
    | Smc _ \<Rightarrow> (Inl (ExUndefined raw), s)
    | Eret \<Rightarrow> (Inl (ExUndefined raw), s)
    | MsrImm _ _ \<Rightarrow> (Inl (ExUndefined raw), s)
    | Sys _ _ \<Rightarrow> (Inl (ExUndefined raw), s)
    | Mrs reg rt \<Rightarrow> (case exec_mrs reg rt raw (fst s) of Inl e \<Rightarrow> (Inl e, s) | Inr c \<Rightarrow> (Inr None, c, snd s))
    | Msr reg rt \<Rightarrow> (case exec_msr reg rt raw (fst s) of Inl e \<Rightarrow> (Inl e, s) | Inr c \<Rightarrow> (Inr None, c, snd s))
    | LdSt sz op a rt rn unpriv \<Rightarrow> no_branch (exec_ldst M sz op a rt rn unpriv s)
    | LdLiteral sz op offset rt \<Rightarrow> no_branch (exec_literal M sz op offset rt s)
    | LdStPair sz load sg idx offset rt rt2 rn \<Rightarrow> no_branch (exec_pair M sz load sg idx offset rt rt2 rn s)
    | Exclusive sz load pair' rs rt rt2 rn \<Rightarrow> no_branch (exec_exclusive M sz load pair' rs rt rt2 rn s)
    | LoadAcquire sz rt rn \<Rightarrow> no_branch (exec_load_acquire M sz rt rn s)
    | StoreRelease sz rt rn \<Rightarrow> no_branch (exec_store_release M sz rt rn s)
    | Simd x \<Rightarrow> no_branch (X M x s)
    | UndefinedInsn \<Rightarrow> (Inl (ExUndefined raw), s)
    | UnimplementedInsn what \<Rightarrow> (Inl (ExUnimplemented raw what), s))"

definition cpu_step ::
  "'i simd_decoders \<Rightarrow> ('i, 'm) simd_exec \<Rightarrow> 'm memory \<Rightarrow> cpu \<times> 'm \<Rightarrow> (unit, 'm) exec_result" where
  "cpu_step D X M s =
    (let pc = c_pc (fst s)
     in if pc AND 3 \<noteq> 0 then (Inl (PcAlignment pc), s)
        else sbind (lift_mem (me_fetch M pc) s) (\<lambda>raw s.
          let i = decode D raw
          in sbind (execute X M i raw s) (\<lambda>target s.
            let s1 = ((fst s)\<lparr>c_pc := case target of Some t \<Rightarrow> t | None \<Rightarrow> pc + 4\<rparr>, snd s)
            in case i of Svc imm \<Rightarrow> (Inl (ExSvc imm), s1) | _ \<Rightarrow> (Inr (), s1))))"


subsection \<open>What an instruction leaves alone\<close>

text \<open>
  The interpreter keeps the system state, the program counter and TPIDRRO_EL0 of the core and its
  well-formedness; reads and writes of memory keep all of it.
\<close>

definition frame :: "cpu \<Rightarrow> cpu \<Rightarrow> bool" where
  "frame c c' \<longleftrightarrow> c_sys c' = c_sys c \<and> c_pc c' = c_pc c \<and> c_tpidrro_el0 c' = c_tpidrro_el0 c \<and> (cpu_ok c \<longrightarrow> cpu_ok c')"

named_theorems frame_intros "what the interpreter leaves alone"

lemma frame_refl [frame_intros]: "frame c c"
  by (simp add: frame_def)

lemma frame_trans: "frame a b \<Longrightarrow> frame b c \<Longrightarrow> frame a c"
  by (simp add: frame_def)

lemma frame_set_x [frame_intros]: "frame a c \<Longrightarrow> frame a (set_x r v c)"
  by (simp add: frame_def set_x_def cpu_ok_def)

lemma frame_set_xsp [frame_intros]: "frame a c \<Longrightarrow> frame a (set_xsp r v c)"
  by (simp add: frame_def set_xsp_def cpu_ok_def)

lemma nzcv_push_bit: "push_bit 28 w AND 0x0fffffff = (0 :: u32)"
  unfolding spsr_masks(6) by (rule bit_eqI) (auto simp: bit_simps)

lemma frame_set_flags [frame_intros]: "frame a c \<Longrightarrow> frame a (set_flags n z cf v c)"
proof -
  have "push_bit 31 (of_bool n) OR push_bit 30 (of_bool z) OR push_bit 29 (of_bool cf) OR push_bit 28 (of_bool v) =
      push_bit 28 (push_bit 3 (of_bool n) OR push_bit 2 (of_bool z) OR push_bit 1 (of_bool cf) OR of_bool v :: u32)"
    by (rule bit_word_eqI) (auto simp: bit_simps)
  then have "(push_bit 31 (of_bool n) OR push_bit 30 (of_bool z) OR push_bit 29 (of_bool cf) OR push_bit 28 (of_bool v))
      AND 0x0fffffff = (0 :: u32)" by (simp only: nzcv_push_bit)
  then show "frame a c \<Longrightarrow> frame a (set_flags n z cf v c)"
    by (simp add: frame_def set_flags_def cpu_ok_def)
qed

lemma frame_set_logic_flags [frame_intros]: "frame a c \<Longrightarrow> frame a (set_logic_flags r sf c)"
  unfolding set_logic_flags_def by (rule frame_set_flags)

lemma frame_nzcv [frame_intros]: "frame a c \<Longrightarrow> n AND 0x0fffffff = 0 \<Longrightarrow> frame a (c\<lparr>c_nzcv := n\<rparr>)"
  by (simp add: frame_def cpu_ok_def)

lemma frame_monitor [frame_intros]: "frame a c \<Longrightarrow> frame a (c\<lparr>c_monitor := m\<rparr>)"
  by (simp add: frame_def cpu_ok_def)

lemma frame_link [frame_intros]: "frame a c \<Longrightarrow> frame a (c\<lparr>c_x := (c_x c)[k := v]\<rparr>)"
  by (simp add: frame_def cpu_ok_def)

lemma frame_add_sub: "frame c (snd (add_sub x y sub setflags sf c))"
  by (simp add: add_sub_def Let_def case_prod_beta frame_intros)

lemma exec_dp_imm_frame: "frame c (exec_dp_imm i c)"
  by (cases i) (simp_all add: exec_dp_imm_def Let_def case_prod_beta frame_intros)

lemma exec_dp_reg_frame: "frame c (exec_dp_reg i c)"
  by (cases i) (simp_all add: exec_dp_reg_def Let_def case_prod_beta frame_intros frame_add_sub nzcv_push_bit)

lemma exec_branch_frame: "frame c (snd (exec_branch i c))"
  by (cases i) (simp_all add: exec_branch_def Let_def frame_intros)

lemma exec_mrs_frame: "exec_mrs reg rt raw c = Inr c' \<Longrightarrow> frame c c'"
  by (auto simp: exec_mrs_def frame_intros split: if_splits)

lemma exec_msr_frame: "exec_msr reg rt raw c = Inr c' \<Longrightarrow> frame c c'"
proof -
  have "(w AND 0xf0000000) AND 0x0fffffff = 0" for w :: u32 by (simp add: and.assoc)
  then show "exec_msr reg rt raw c = Inr c' \<Longrightarrow> frame c c'"
    by (auto simp: exec_msr_def Let_def frame_def cpu_ok_def split: if_splits)
qed

lemma lift_mem_cpu [simp]: "fst (snd (lift_mem f s)) = fst s"
  by (simp add: lift_mem_def case_prod_beta)

text \<open>A chain of operations keeps the frame when each does.\<close>

abbreviation frames :: "cpu \<Rightarrow> ('a, 'm) exec_result \<Rightarrow> bool" where
  "frames a x \<equiv> frame a (fst (snd x))"

lemma frames_sbind [frame_intros]:
  "frames a x \<Longrightarrow> (\<And>v s. frame a (fst s) \<Longrightarrow> frames a (f v s)) \<Longrightarrow> frames a (sbind x f)"
  by (cases "(x, f)" rule: sbind.cases) auto

lemma frames_lift_mem [frame_intros]: "frame a (fst s) \<Longrightarrow> frames a (lift_mem f s)"
  by simp

lemma frames_read_uint [frame_intros]: "frame a (fst s) \<Longrightarrow> frames a (read_uint M addr n s)"
  unfolding read_uint_def by (intro frame_intros) auto

lemma frames_write_uint [frame_intros]: "frame a (fst s) \<Longrightarrow> frames a (write_uint M addr n v s)"
  unfolding write_uint_def by (intro frame_intros)

lemma frames_pair [frame_intros]: "frame a (fst s) \<Longrightarrow> frames a (r, s)"
  by simp

lemma exec_ldst_frame [frame_intros]: "frame a (fst s) \<Longrightarrow> frames a (exec_ldst M sz op ad rt rn unpriv s)"
  unfolding exec_ldst_def Let_def case_prod_beta
  by (intro frame_intros; simp split: mem_op.split option.split)
     (auto intro!: frame_intros)

lemma exec_literal_frame [frame_intros]: "frame a (fst s) \<Longrightarrow> frames a (exec_literal M sz op offset rt s)"
  unfolding exec_literal_def by (auto intro!: frame_intros)

lemma exec_pair_frame [frame_intros]: "frame a (fst s) \<Longrightarrow> frames a (exec_pair M sz load sg idx offset rt rt2 rn s)"
  unfolding exec_pair_def Let_def by (auto intro!: frame_intros)

lemma exec_exclusive_frame [frame_intros]: "frame a (fst s) \<Longrightarrow> frames a (exec_exclusive M sz load pr rs rt rt2 rn s)"
  unfolding exec_exclusive_def Let_def by (auto intro!: frame_intros split: option.split)

lemma exec_load_acquire_frame [frame_intros]: "frame a (fst s) \<Longrightarrow> frames a (exec_load_acquire M sz rt rn s)"
  unfolding exec_load_acquire_def Let_def by (auto intro!: frame_intros)

lemma exec_store_release_frame [frame_intros]: "frame a (fst s) \<Longrightarrow> frames a (exec_store_release M sz rt rn s)"
  unfolding exec_store_release_def Let_def by (auto intro!: frame_intros)

text \<open>
  What is assumed of the execution of a vector instruction: it changes the general, vector, flag and
  floating point registers only.
\<close>

definition simd_exec_ok :: "('i, 'm) simd_exec \<Rightarrow> bool" where
  "simd_exec_ok X \<longleftrightarrow> (\<forall>M i s. frames (fst s) (X M i s))"

lemma execute_frame:
  assumes "simd_exec_ok X"
  shows "frames (fst s) (execute X M i raw s)"
proof (cases i)
  case (Mrs reg rt)
  then show ?thesis
    by (cases "exec_mrs reg rt raw (fst s)") (auto simp: execute_def frame_intros exec_mrs_frame)
next
  case (Msr reg rt)
  then show ?thesis
    by (cases "exec_msr reg rt raw (fst s)") (auto simp: execute_def frame_intros exec_msr_frame)
next
  case (Simd x)
  have "frames (fst s) (X M x s)" using assms unfolding simd_exec_ok_def by blast
  with Simd show ?thesis by (auto simp: execute_def intro!: frames_sbind)
qed (use exec_branch_frame [of "fst s" i] in
      \<open>simp_all add: execute_def exec_dp_imm_frame exec_dp_reg_frame case_prod_beta frame_intros\<close>)

subsection \<open>Exceptions\<close>

text \<open>
  The instructions that fail leave the core as it was: everything they compute is written after the last
  access that may fault. The exception is a store-exclusive, which consumes the monitor first.
\<close>

lemma sbind_Inl_iff:
  "sbind x f = (Inl e, s) \<longleftrightarrow> x = (Inl e, s) \<or> (\<exists>v s'. x = (Inr v, s') \<and> f v s' = (Inl e, s))"
  by (cases "(x, f)" rule: sbind.cases) auto

lemma lift_mem_cpuD: "lift_mem f s = (r, s') \<Longrightarrow> fst s' = fst s"
  by (metis lift_mem_cpu snd_conv)

lemma read_uint_cpuD: "read_uint M addr n s = (r, s') \<Longrightarrow> fst s' = fst s"
  by (cases r) (auto simp: read_uint_def sbind_Inl_iff sbind_Inr_iff dest: lift_mem_cpuD)

lemma write_uint_cpuD: "write_uint M addr n v s = (r, s') \<Longrightarrow> fst s' = fst s"
  by (auto simp: write_uint_def dest: lift_mem_cpuD)

definition raised :: "exception \<Rightarrow> bool" where
  "raised e \<longleftrightarrow> (case e of ExSvc _ \<Rightarrow> False | PcAlignment _ \<Rightarrow> False | _ \<Rightarrow> True)"

lemmas exec_cases = sbind_Inl_iff sbind_Inr_iff Let_def case_prod_beta
lemmas exec_keeps = lift_mem_cpuD read_uint_cpuD write_uint_cpuD

lemma exec_ldst_Inl: "exec_ldst M sz op ad rt rn unpriv s = (Inl e, s') \<Longrightarrow> fst s' = fst s"
  by (cases op) (auto simp: exec_ldst_def exec_cases dest!: exec_keeps split: if_splits)

lemma exec_literal_Inl: "exec_literal M sz op offset rt s = (Inl e, s') \<Longrightarrow> fst s' = fst s"
  by (auto simp: exec_literal_def exec_cases dest!: exec_keeps split: if_splits)

lemma exec_pair_Inl: "exec_pair M sz load sg idx offset rt rt2 rn s = (Inl e, s') \<Longrightarrow> fst s' = fst s"
  by (auto simp: exec_pair_def exec_cases dest!: exec_keeps split: if_splits)

lemma exec_load_acquire_Inl: "exec_load_acquire M sz rt rn s = (Inl e, s') \<Longrightarrow> fst s' = fst s"
  by (auto simp: exec_load_acquire_def exec_cases dest!: exec_keeps split: if_splits)

lemma exec_store_release_Inl: "exec_store_release M sz rt rn s = (Inl e, s') \<Longrightarrow> fst s' = fst s"
  by (auto simp: exec_store_release_def exec_cases dest!: exec_keeps split: if_splits)

lemma exec_exclusive_Inl:
  "exec_exclusive M sz load pr rs rt rt2 rn s = (Inl e, s') \<Longrightarrow>
    fst s' = fst s \<or> \<not> load \<and> c_monitor (fst s) \<noteq> None \<and> fst s' = (fst s)\<lparr>c_monitor := None\<rparr>"
  by (auto simp: exec_exclusive_def exec_cases dest!: exec_keeps split: if_splits option.splits)

lemma execute_Inl:
  assumes "execute X M i raw s = (Inl e, s')" "\<And>x. i \<noteq> Simd x"
  shows "fst s' = fst s \<or>
    (\<exists>sz pr rs rt rt2 rn. i = Exclusive sz False pr rs rt rt2 rn) \<and> c_monitor (fst s) \<noteq> None \<and>
      fst s' = (fst s)\<lparr>c_monitor := None\<rparr>"
proof (cases i)
  case (Exclusive sz load pr rs rt rt2 rn)
  with assms(1) have "exec_exclusive M sz load pr rs rt rt2 rn s = (Inl e, s')"
    by (auto simp: execute_def sbind_Inl_iff)
  from exec_exclusive_Inl [OF this] Exclusive show ?thesis by auto
qed (use assms in \<open>auto simp: execute_def sbind_Inl_iff case_prod_beta
      dest: exec_ldst_Inl exec_literal_Inl exec_pair_Inl exec_load_acquire_Inl exec_store_release_Inl lift_mem_cpuD
      split: sum.splits\<close>)

lemma execute_Svc: "execute X M (Svc imm) raw s = (Inr None, s)"
  by (simp add: execute_def)

lemma svc_case:
  "(case i of Svc imm \<Rightarrow> (Inl (ExSvc imm), s1) | _ \<Rightarrow> (Inr (), s1)) = (Inl e, s') \<longleftrightarrow>
    (\<exists>imm. i = Svc imm \<and> e = ExSvc imm \<and> s' = s1)"
  by (cases i) auto


definition no_simd :: "unit simd_decoders" where
  "no_simd = \<lparr>sd_ldst = (\<lambda>_. UndefinedInsn), sd_fp = (\<lambda>_. UndefinedInsn), sd_int = (\<lambda>_. UndefinedInsn)\<rparr>"

definition faulty_memory :: "unit memory" where
  "faulty_memory = default_memory (\<lambda>a n m. (Inl \<lparr>mf_addr = a, mf_access = Read\<rparr>, m))
    (\<lambda>a b m. (Inl \<lparr>mf_addr = a, mf_access = Write\<rparr>, m)) (\<lambda>a m. (Inr 0xC8007C20, m))"

lemma decode_stxr: "decode D 0xC8007C20 = Exclusive 3 False False 0 0 31 1"
  by (simp add: decode_def ldst_def exclusive_def field_def wbit_def regf_def Let_def mask_eq_exp_minus_1)


end
