(* ===== verification/Cpu_Alu.thy ===== *)
theory Cpu_Alu
  imports Cpu_Exec
begin

text \<open>
  The arithmetic of the interpreter: the flags of a subtraction against the orders of the operands, and
  the fields that the bitfield instructions move.
\<close>


subsection \<open>The flags of an addition\<close>

lemma msb_iff: "bit w (LENGTH('a) - 1) \<longleftrightarrow> 2 ^ (LENGTH('a) - 1) \<le> unat w" for w :: "'a::len word"
proof -
  let ?n = "LENGTH('a) - 1"
  have n: "Suc ?n = LENGTH('a)" by simp
  have "bit w ?n \<longleftrightarrow> drop_bit ?n (unat w) \<noteq> 0"
  proof -
    have "unat w < 2 ^ Suc ?n" unfolding n by (rule unsigned_less)
    then have "unat w < 2 * 2 ^ ?n" by (simp only: power_Suc)
    then have "unat w div 2 ^ ?n < 2" by (rule less_mult_imp_div_less)
    then have "odd (unat w div 2 ^ ?n) \<longleftrightarrow> unat w div 2 ^ ?n \<noteq> 0" by (auto simp: less_2_cases_iff)
    moreover have "bit w ?n \<longleftrightarrow> bit (unat w) ?n" by (simp add: bit_unsigned_iff)
    ultimately show ?thesis by (simp only: bit_iff_odd drop_bit_eq_div)
  qed
  also have "\<dots> \<longleftrightarrow> 2 ^ ?n \<le> unat w" by (simp add: drop_bit_eq_div div_eq_0_iff not_less)
  finally show ?thesis .
qed

lemma sint_msb: "sint w = int (unat w) - (if bit w (LENGTH('a) - 1) then 2 ^ LENGTH('a) else 0)" for w :: "'a::len word"
proof -
  have "sint w = signed_take_bit (LENGTH('a) - 1) (uint w)" by (simp add: sint_uint)
  then show ?thesis
    by (simp add: signed_take_bit_eq_take_bit_minus bit_unsigned_iff take_bit_int_eq_self_iff unsigned_less)
qed

text \<open>Subtraction by adding the complement: the overflow and carry tests of the source against the signed
  and the unsigned order.\<close>

lemma sub_overflow:
  fixes a b :: "'a::len word"
  defines "r \<equiv> a - b" and "m \<equiv> LENGTH('a) - 1"
  shows "(bit r m = bit ((a XOR r) AND (NOT b XOR r)) m) \<longleftrightarrow> sint b \<le> sint a"
proof -
  have N: "(2 :: nat) ^ LENGTH('a) = 2 * 2 ^ m" unfolding m_def by (simp flip: power_Suc)
  have u: "unat a < 2 * 2 ^ m" "unat b < 2 * 2 ^ m" "unat r < 2 * 2 ^ m"
    unfolding N [symmetric] by (rule unsigned_less)+
  have r: "unat r = (if unat b \<le> unat a then unat a - unat b else unat a + 2 * 2 ^ m - unat b)"
    unfolding r_def N [symmetric] by (simp add: unat_sub_if_size word_size word_le_nat_alt)
  have s: "sint w = int (unat w) - (if 2 ^ m \<le> unat w then 2 * 2 ^ m else 0)" for w :: "'a word"
    using sint_msb [of w] msb_iff [of w] unfolding m_def by (simp flip: power_Suc)
  have x: "bit ((a XOR r) AND (NOT b XOR r)) m \<longleftrightarrow> bit a m \<noteq> bit r m \<and> bit b m = bit r m"
    by (auto simp: bit_simps m_def)
  have b: "bit w m \<longleftrightarrow> 2 ^ m \<le> unat w" for w :: "'a word" unfolding m_def by (rule msb_iff)
  define A B R M where "A = unat a" and "B = unat b" and "R = unat r" and "M = (2 :: nat) ^ m"
  note d = A_def [symmetric] B_def [symmetric] R_def [symmetric] M_def [symmetric]
  have M: "(2 :: int) ^ m = int M" by (simp add: M_def)
  show ?thesis
    unfolding x unfolding s b M d using u r unfolding d
    by (cases "M \<le> A"; cases "M \<le> B"; cases "M \<le> R"; cases "B \<le> A"; simp; linarith)
qed

lemma sub_carry:
  fixes a b :: "'a::len word"
  shows "2 ^ LENGTH('a) \<le> unat a + unat (NOT b) + 1 \<longleftrightarrow> b \<le> a"
proof -
  have "NOT b = - 1 - b" by (simp add: not_eq_complement)
  then have "unat (NOT b) = unat (- 1 :: 'a word) - unat b" by (simp add: unat_sub word_order.extremum)
  also have "unat (- 1 :: 'a word) = 2 ^ LENGTH('a) - 1" by (simp add: unsigned_minus_1_eq_mask mask_eq_exp_minus_1)
  finally have "unat (NOT b) = 2 ^ LENGTH('a) - 1 - unat b" .
  moreover have "unat b < 2 ^ LENGTH('a)" by (rule unsigned_less)
  ultimately show ?thesis unfolding word_le_nat_alt by linarith
qed

lemma drop_msb: "drop_bit (LENGTH('a) - 1) w \<noteq> 0 \<longleftrightarrow> bit w (LENGTH('a) - 1)" for w :: "'a::len word"
proof
  assume "drop_bit (LENGTH('a) - 1) w \<noteq> 0"
  then obtain k where "bit w (LENGTH('a) - 1 + k)" by (auto simp: bit_eq_iff bit_simps)
  moreover from this have "k = 0" using bit_imp_le_length [of w "LENGTH('a) - 1 + k"] by simp
  ultimately show "bit w (LENGTH('a) - 1)" by simp
next
  assume "bit w (LENGTH('a) - 1)"
  then have "bit (drop_bit (LENGTH('a) - 1) w) 0" by (simp add: bit_simps)
  then show "drop_bit (LENGTH('a) - 1) w \<noteq> 0" by auto
qed

lemmas drop_msb64 = drop_msb [where 'a = 64, simplified] and drop_msb32 = drop_msb [where 'a = 32, simplified]

lemma complement_sub: "x + NOT y + 1 = x - y" for x y :: "'a::len word"
  by (simp add: not_eq_complement)

lemma unat_lt64: "unat (w :: u64) < 2 ^ 64"
  using unsigned_less [of w] by simp

lemma unat_lt32: "unat (w :: u32) < 2 ^ 32"
  using unsigned_less [of w] by simp

lemma add_with_carry_sub64:
  "add_with_carry x (NOT y) True True =
    (x - y, bit (x - y) 63, x = y, y \<le> x, bit ((x XOR (x - y)) AND (NOT y XOR (x - y))) 63)"
proof -
  have "unat (x + NOT y) = (if unat x + unat (NOT y) < 2 ^ 64 then unat x + unat (NOT y) else unat x + unat (NOT y) - 2 ^ 64)"
    by (simp add: unat_plus_if_size word_size)
  moreover have "unat x < 2 ^ 64" "unat (NOT y) < 2 ^ 64" by (rule unat_lt64)+
  ultimately have c: "(2 ^ 64 \<le> unat x + unat (NOT y) \<or> 2 ^ 64 \<le> unat (x + NOT y) + unat (1 :: u64)) \<longleftrightarrow> y \<le> x"
    using sub_carry [of x y] by (simp split: if_splits)
  show ?thesis
    unfolding add_with_carry_def overflowing_add_def Let_def if_True prod.case of_bool_eq complement_sub c drop_msb64
    by simp
qed

lemma add_with_carry_sub32:
  fixes x y :: u64
  defines "a \<equiv> ucast x :: u32" and "b \<equiv> ucast y :: u32"
  shows "add_with_carry x (NOT y) True False =
    (ucast (a - b), bit (a - b) 31, a = b, b \<le> a, bit ((a XOR (a - b)) AND (NOT b XOR (a - b))) 31)"
proof -
  have nb: "(ucast (NOT y) :: u32) = NOT b" unfolding b_def by (rule bit_word_eqI) (simp add: bit_simps)
  have "unat a < 2 ^ 32" "unat (NOT b) < 2 ^ 32" by (rule unat_lt32)+
  then have w: "unat (ucast a + ucast (NOT b) + 1 :: u64) = unat a + unat (NOT b) + 1"
    by (simp add: unat_word_ariths unsigned_ucast_eq take_bit_nat_eq_self)
  have r: "(ucast (ucast a + ucast (NOT b) + 1 :: u64) :: u32) = a - b"
  proof -
    have "unat (ucast v :: u32) = unat v mod 2 ^ 32" for v :: u64 by (simp add: unsigned_ucast_eq take_bit_eq_mod)
    moreover have "unat (a + NOT b + 1) = (unat a + unat (NOT b) + 1) mod 2 ^ 32"
      by (simp add: unat_word_ariths mod_simps)
    ultimately have "unat (ucast (ucast a + ucast (NOT b) + 1 :: u64) :: u32) = unat (a + NOT b + 1)"
      by (simp only: w)
    then show ?thesis unfolding complement_sub by (simp add: word_unat_eq_iff)
  qed
  have c: "drop_bit 32 (ucast a + ucast (NOT b) + 1 :: u64) \<noteq> 0 \<longleftrightarrow> b \<le> a"
  proof -
    have "unat (drop_bit 32 v) = unat v div 2 ^ 32" for v :: u64
      unfolding unsigned_drop_bit_eq using unat_lt64 [of v] by (simp add: take_bit_nat_eq_self drop_bit_eq_div)
    then have "drop_bit 32 v \<noteq> 0 \<longleftrightarrow> 2 ^ 32 \<le> unat v" for v :: u64
      by (metis div_eq_0_iff not_less power_eq_0_iff unat_eq_0 zero_neq_numeral)
    then show ?thesis using sub_carry [of a b] by (simp add: w)
  qed
  show ?thesis
    unfolding add_with_carry_def Let_def if_False of_bool_eq nb a_def [symmetric] r c drop_msb32 by simp
qed

subsection \<open>Conditions\<close>

lemma nzcv_set_flags:
  "c_nzcv (set_flags n z cf v c) AND flag_N \<noteq> 0 \<longleftrightarrow> n"
  "c_nzcv (set_flags n z cf v c) AND flag_Z \<noteq> 0 \<longleftrightarrow> z"
  "c_nzcv (set_flags n z cf v c) AND flag_C \<noteq> 0 \<longleftrightarrow> cf"
  "c_nzcv (set_flags n z cf v c) AND flag_V \<noteq> 0 \<longleftrightarrow> v"
  unfolding flag_N_def flag_Z_def flag_C_def flag_V_def word_ne_zero_test
  by (simp_all add: set_flags_def bit_simps)

lemma condition_set_flags:
  fixes n z cf v :: bool and c :: cpu
  defines "f \<equiv> set_flags n z cf v c"
  shows "condition_holds f 0 = z" "condition_holds f 2 = cf" "condition_holds f 4 = n" "condition_holds f 6 = v"
    "condition_holds f 8 = (cf \<and> \<not> z)" "condition_holds f 10 = (n = v)" "condition_holds f 12 = (n = v \<and> \<not> z)"
    "condition_holds f 14" "condition_holds f 15"
  unfolding f_def condition_holds_def Let_def nzcv_set_flags by simp_all

text \<open>Every second condition is the negation of the one before, except for the two that always hold.\<close>

lemma u8_below7: "k < (7 :: u8) \<Longrightarrow> k \<in> {0, 1, 2, 3, 4, 5, 6}"
proof -
  assume "k < 7"
  then have "unat k \<in> {0, 1, 2, 3, 4, 5, 6}" by (auto simp: word_less_nat_alt)
  then have "of_nat (unat k) \<in> (of_nat ` {0, 1, 2, 3, 4, 5, 6} :: u8 set)" by (rule imageI)
  then show ?thesis by simp
qed

lemma condition_negated:
  assumes "k < 7"
  shows "condition_holds c (2 * k + 1) \<longleftrightarrow> \<not> condition_holds c (2 * k)"
  using u8_below7 [OF assms] by (elim insertE emptyE; hypsubst; simp add: condition_holds_def Let_def; blast)

lemma sint_sext32: "sint (sext x 32) = sint (ucast x :: u32)"
proof -
  have "sext x 32 = scast (ucast x :: u32)"
  proof (rule bit_word_eqI)
    fix k
    show "bit (sext x 32) k = bit (scast (ucast x :: u32) :: u64) k" if "k < LENGTH(64)"
      using that by (cases "k < 31"; cases "k = 31"; simp add: bit_simps)
  qed
  then show ?thesis by (simp add: sint_up_scast is_up)
qed

lemma sext64: "sext x 64 = x"
  by (rule bit_word_eqI) (auto simp: bit_simps)

lemma trunc_eq: "trunc x False = ucast (ucast x :: u32)" "trunc x True = x"
  by (simp_all add: trunc_def)


lemma ucast_sub32: "(ucast (x - y) :: u32) = ucast x - ucast (y :: u64)"
proof -
  have dv: "(2 :: int) ^ 32 dvd 2 ^ 64" by simp
  have "(u mod 2 ^ 64 - v mod 2 ^ 64) mod 2 ^ 32 = (u - v) mod 2 ^ 64 mod (2 :: int) ^ 32" for u v
    by (metis dv mod_diff_eq mod_mod_cancel)
  then show ?thesis by transfer (simp add: take_bit_eq_mod mod_simps)
qed

lemma ucast32_order:
  fixes a b :: u32
  shows "(ucast a :: u64) = ucast b \<longleftrightarrow> a = b" "(ucast a :: u64) \<le> ucast b \<longleftrightarrow> a \<le> b"
    "(ucast a :: u64) < ucast b \<longleftrightarrow> a < b"
  using unat_lt32 [of a] unat_lt32 [of b]
  by (simp_all add: word_unat_eq_iff word_le_nat_alt word_less_nat_alt unsigned_ucast_eq take_bit_nat_eq_self)

lemma sint_negative: "bit w (LENGTH('a) - 1) \<longleftrightarrow> sint w < 0" for w :: "'a::len word"
  using bit_last_iff [of w] by simp

lemma sint_order: "sint b \<le> sint a \<and> a \<noteq> b \<longleftrightarrow> sint b < sint a" for a b :: "'a::len word"
proof -
  have "a = b" if "sint a = sint b"
  proof -
    have "word_of_int (sint a) = (word_of_int (sint b) :: 'a word)" using that by simp
    then show ?thesis by simp
  qed
  then show ?thesis by (auto simp: order_le_less)
qed

lemma sint_sub_exact:
  "sint (a - b) \<noteq> sint a - sint b \<longleftrightarrow> (sint (a - b) < 0 \<longleftrightarrow> sint b \<le> sint a)" for a b :: "'a::len word"
proof -
  let ?m = "2 ^ (LENGTH('a) - 1) :: int"
  have m: "2 ^ LENGTH('a) = 2 * ?m" by (simp flip: power_Suc)
  have r: "- ?m \<le> sint w" "sint w < ?m" for w :: "'a word"
    using sint_ge [of w] sint_lt [of w] by auto
  have "(word_of_int (sint (a - b)) :: 'a word) = word_of_int (sint a - sint b)" by simp
  then have "take_bit LENGTH('a) (sint (a - b)) = take_bit LENGTH('a) (sint a - sint b)"
    by (simp only: word_of_int_eq_iff)
  then obtain k where k: "sint (a - b) = sint a - sint b + 2 * ?m * k"
    unfolding take_bit_eq_mod m by (metis mod_eqE add_diff_cancel_left' diff_add_cancel add.commute)
  have "k = 0 \<or> 1 \<le> k \<or> k \<le> - 1" by linarith
  then show ?thesis
  proof (elim disjE)
    assume "1 \<le> k"
    then have "2 * ?m \<le> 2 * ?m * k" by simp
    then show ?thesis using k r [of a] r [of b] r [of "a - b"] by linarith
  next
    assume "k \<le> - 1"
    then have "?m * k \<le> ?m * (- 1)" by (intro mult_left_mono) simp_all
    then show ?thesis using k r [of a] r [of b] r [of "a - b"] by linarith
  qed (use k in auto)
qed

lemma sub_flags:
  fixes x y :: u64 and c :: cpu and sf :: bool
  defines "f \<equiv> snd (add_sub x y True True sf c)"
  shows "fst (add_sub x y True True sf c) = trunc (x - y) sf"
    "condition_holds f 0 \<longleftrightarrow> trunc x sf = trunc y sf"
    "condition_holds f 2 \<longleftrightarrow> trunc y sf \<le> trunc x sf"
    "condition_holds f 4 \<longleftrightarrow> sint (sext (x - y) (datasize sf)) < 0"
    "condition_holds f 6 \<longleftrightarrow> sint (sext (x - y) (datasize sf)) \<noteq> sint (sext x (datasize sf)) - sint (sext y (datasize sf))"
    "condition_holds f 8 \<longleftrightarrow> trunc y sf < trunc x sf"
    "condition_holds f 10 \<longleftrightarrow> sint (sext y (datasize sf)) \<le> sint (sext x (datasize sf))"
    "condition_holds f 12 \<longleftrightarrow> sint (sext y (datasize sf)) < sint (sext x (datasize sf))"
proof -
  let ?a = "ucast x :: u32" and ?b = "ucast y :: u32"
  have d: "(ucast (x - y) :: u32) = ?a - ?b" by (rule ucast_sub32)
  have o64: "(bit (x - y) 63 = bit ((x XOR (x - y)) AND (NOT y XOR (x - y))) 63) \<longleftrightarrow> sint y \<le> sint x"
    using sub_overflow [of x y] by simp
  have o32: "(bit (?a - ?b) 31 = bit ((?a XOR (?a - ?b)) AND (NOT ?b XOR (?a - ?b))) 31) \<longleftrightarrow> sint ?b \<le> sint ?a"
    using sub_overflow [of ?a ?b] by simp
  have n64: "bit (x - y) 63 \<longleftrightarrow> sint (x - y) < 0" and n32: "bit (?a - ?b) 31 \<longleftrightarrow> sint (?a - ?b) < 0"
    using sint_negative [of "x - y"] sint_negative [of "?a - ?b"] by simp_all
  note unf = f_def add_sub_def Let_def if_True prod.case fst_conv snd_conv condition_set_flags
  note facts = trunc_eq datasize_def if_True if_False sext64 sint_sext32 d ucast32_order o64 o32 sint_order
  show "fst (add_sub x y True True sf c) = trunc (x - y) sf"
    by (cases sf) (simp_all add: add_sub_def Let_def add_with_carry_sub64 add_with_carry_sub32 trunc_eq d)
  show "condition_holds f 0 \<longleftrightarrow> trunc x sf = trunc y sf"
    by (cases sf) (simp_all only: unf add_with_carry_sub64 add_with_carry_sub32 facts)
  show "condition_holds f 2 \<longleftrightarrow> trunc y sf \<le> trunc x sf"
    by (cases sf) (simp_all only: unf add_with_carry_sub64 add_with_carry_sub32 facts)
  show "condition_holds f 4 \<longleftrightarrow> sint (sext (x - y) (datasize sf)) < 0"
    by (cases sf) (simp_all only: unf add_with_carry_sub64 add_with_carry_sub32 facts n64 n32)
  have v64: "bit ((x XOR (x - y)) AND (NOT y XOR (x - y))) 63 \<longleftrightarrow> sint (x - y) \<noteq> sint x - sint y"
    and v32: "bit ((?a XOR (?a - ?b)) AND (NOT ?b XOR (?a - ?b))) 31 \<longleftrightarrow> sint (?a - ?b) \<noteq> sint ?a - sint ?b"
    using o64 n64 sint_sub_exact [of x y] o32 n32 sint_sub_exact [of ?a ?b] by blast+
  show "condition_holds f 6 \<longleftrightarrow> sint (sext (x - y) (datasize sf)) \<noteq> sint (sext x (datasize sf)) - sint (sext y (datasize sf))"
    by (cases sf) (simp_all only: unf add_with_carry_sub64 add_with_carry_sub32 facts v64 v32)
  show "condition_holds f 8 \<longleftrightarrow> trunc y sf < trunc x sf"
    by (cases sf) (simp_all only: unf add_with_carry_sub64 add_with_carry_sub32 facts, auto simp: order_le_less)
  show "condition_holds f 10 \<longleftrightarrow> sint (sext y (datasize sf)) \<le> sint (sext x (datasize sf))"
    by (cases sf) (simp_all only: unf add_with_carry_sub64 add_with_carry_sub32 facts)
  show "condition_holds f 12 \<longleftrightarrow> sint (sext y (datasize sf)) < sint (sext x (datasize sf))"
    by (cases sf) (simp_all only: unf add_with_carry_sub64 add_with_carry_sub32 facts)
qed

text \<open>
  C11. Comparisons decide the order. After a flag-setting subtraction (CMP, SUBS, CCMP) at either
  width the result is the difference cut to the width, the condition codes EQ, HS and HI hold exactly
  for the equality and the unsigned orders of the operands, GE and GT exactly for their signed orders,
  MI exactly for a negative result, VS exactly when the difference of the operands as signed integers is not
  the signed result, and NE, LO, LS, LT, LE, PL and VC for the opposite; AL and NV always hold.
\<close>

theorem compare_conditions:
  fixes x y :: u64 and c :: cpu
  shows "case add_sub x y True True sf c of (r, f) \<Rightarrow>
    let n = datasize sf
    in r = trunc (x - y) sf \<and>
       condition_holds f 0 = (trunc x sf = trunc y sf) \<and> condition_holds f 1 = (trunc x sf \<noteq> trunc y sf) \<and>
       condition_holds f 2 = (trunc x sf \<ge> trunc y sf) \<and> condition_holds f 3 = (trunc x sf < trunc y sf) \<and>
       condition_holds f 4 = (sint (sext (x - y) n) < 0) \<and> condition_holds f 5 = (sint (sext (x - y) n) \<ge> 0) \<and>
       condition_holds f 6 = (sint (sext (x - y) n) \<noteq> sint (sext x n) - sint (sext y n)) \<and>
       condition_holds f 7 = (sint (sext (x - y) n) = sint (sext x n) - sint (sext y n)) \<and>
       condition_holds f 8 = (trunc x sf > trunc y sf) \<and> condition_holds f 9 = (trunc x sf \<le> trunc y sf) \<and>
       condition_holds f 10 = (sint (sext x n) \<ge> sint (sext y n)) \<and> condition_holds f 11 = (sint (sext x n) < sint (sext y n)) \<and>
       condition_holds f 12 = (sint (sext x n) > sint (sext y n)) \<and> condition_holds f 13 = (sint (sext x n) \<le> sint (sext y n)) \<and>
       condition_holds f 14 \<and> condition_holds f 15"
proof -
  have neg: "condition_holds f 1 = (\<not> condition_holds f 0)" "condition_holds f 3 = (\<not> condition_holds f 2)"
    "condition_holds f 5 = (\<not> condition_holds f 4)" "condition_holds f 7 = (\<not> condition_holds f 6)" "condition_holds f 9 = (\<not> condition_holds f 8)"
    "condition_holds f 11 = (\<not> condition_holds f 10)" "condition_holds f 13 = (\<not> condition_holds f 12)"
    "condition_holds f 14" "condition_holds f 15" for f
    using condition_negated [of 0 f] condition_negated [of 1 f] condition_negated [of 2 f]
      condition_negated [of 3 f] condition_negated [of 4 f]
      condition_negated [of 5 f] condition_negated [of 6 f] by (simp_all add: condition_holds_def)
  show ?thesis
    unfolding case_prod_beta Let_def neg sub_flags by (simp add: not_le not_less neg)
qed

subsection \<open>Bitfields\<close>

lemma bit_trunc: "bit (trunc v sf) i \<longleftrightarrow> bit v i \<and> i < datasize sf"
  by (auto simp: trunc_def datasize_def bit_simps dest: bit_imp_le_length)

lemma xr_set_x: "rd < 31 \<Longrightarrow> length (c_x c) = 31 \<Longrightarrow> xr (set_x rd v c) rd = v"
  by (auto simp: xr_def set_x_def word_less_nat_alt)

lemma mask_len_datasize: "mask_len (of_bool sf) imms = Some (if sf then 6 else 5)" if "unat imms < datasize sf"
proof -
  have "\<not> bit imms 5" if "\<not> sf" using that \<open>unat imms < datasize sf\<close> word_small_no_bit [of imms 5 5] by (simp add: datasize_def)
  then show ?thesis by (simp add: mask_len_def)
qed

lemma bitfield_masks:
  assumes "unat imms < datasize sf" "unat immr < datasize sf" "i < 64"
  shows "\<exists>wm tm. decode_bit_masks (of_bool sf) imms immr False (datasize sf) = Some (wm, tm) \<and>
    (bit wm i \<longleftrightarrow> i < datasize sf \<and> (i + unat immr) mod datasize sf \<le> unat imms) \<and>
    (bit tm i \<longleftrightarrow> i < datasize sf \<and> i \<le> (unat imms + datasize sf - unat immr) mod datasize sf)"
proof -
  note l = mask_len_datasize [OF assms(1)]
  have E: "2 ^ the (mask_len (of_bool sf) imms) = datasize sf" by (simp add: l datasize_def)
  have nr: "\<not> mask_reserved (of_bool sf) imms False (datasize sf)" by (simp add: mask_reserved_def l datasize_def)
  have "datasize sf = 32 \<or> datasize sf = 64" "(of_bool sf :: u32) \<le> 1" by (auto simp: datasize_def)
  from decode_bit_masks_cases [OF this nr, of immr] show ?thesis
    using assms unfolding E by auto
qed

lemma bitfield_result:
  assumes "unat imms < datasize sf" "unat immr < datasize sf" "i < 64" "rd < 31" "length (c_x c) = 31"
    and "decode_bit_masks (of_bool sf) imms immr False (datasize sf) = Some (wm, tm)"
  defines "n \<equiv> datasize sf" and "R \<equiv> unat immr" and "S \<equiv> unat imms"
  shows "bit (xr (exec_dp_imm (Bitfield sf op (ucast immr) (ucast imms) wm tm rn rd) c) rd) i \<longleftrightarrow> i < n \<and>
    (if i \<le> (S + n - R) mod n
     then if (i + R) mod n \<le> S then bit (xr c rn) ((i + R) mod n) else op = Bfm \<and> bit (xr c rd) i
     else if op = Sbfm then bit (xr c rn) S else op = Bfm \<and> bit (xr c rd) i)"
proof -
  have m: "bit wm i \<longleftrightarrow> i < n \<and> (i + R) mod n \<le> S" "bit tm i \<longleftrightarrow> i < n \<and> i \<le> (S + n - R) mod n"
    using bitfield_masks [OF assms(1-3)] assms(6) unfolding n_def R_def S_def by auto
  have n: "0 < n" "n \<le> 64" by (auto simp: n_def datasize_def)
  have u: "unat (ucast immr :: u8) = R" "unat (ucast imms :: u8) = S"
    using assms(1,2) n(2) unfolding n_def R_def S_def by (auto simp: unsigned_ucast_eq take_bit_nat_eq_self)
  have sgn: "drop_bit S v AND 1 \<noteq> 0 \<longleftrightarrow> bit v S" for v :: u64
    by (simp add: bit_iff_odd_drop_bit and_one_eq odd_iff_mod_2_eq_one)
  show ?thesis
    unfolding exec_dp_imm_def insn.case Let_def u sgn n_def [symmetric]
    using assms(3) n
    by (subst xr_set_x [OF assms(4,5)]) (auto simp: bit_trunc bit_simps m n_def [symmetric])
qed

text \<open>
  C39. The bitfield instructions move fields. For UBFM, SBFM and BFM at either width with the masks the
  decoder computes, and \<open>R\<close>, \<open>S\<close> the two immediates: when \<open>R \<le> S\<close> the bits \<open>R\<close> to \<open>S\<close> of the source land
  at bit 0; otherwise the bits 0 to \<open>S\<close> land at bit \<open>n - R\<close>. The bits below the field are zero and those
  above it zero (UBFM) or the sign of the field (SBFM), and BFM keeps both from the destination. The
  decoder gives masks for all such immediates.
\<close>

theorem bitfield_moves:
  assumes "unat imms < datasize sf" "unat immr < datasize sf" "rd < 31" "length (c_x c) = 31"
  shows "\<exists>wm tm. decode_bit_masks (of_bool sf) imms immr False (datasize sf) = Some (wm, tm) \<and>
    (let n = datasize sf; R = unat immr; S = unat imms; src = xr c rn; dst = (if op = Bfm then xr c rd else 0);
         res = xr (exec_dp_imm (Bitfield sf op (ucast immr) (ucast imms) wm tm rn rd) c) rd
     in \<forall>i. bit res i = (i < n \<and>
          (if R \<le> S then
             if i \<le> S - R then bit src (i + R) else if op = Sbfm then bit src S else bit dst i
           else
             if i < n - R then bit dst i
             else if i \<le> n - R + S then bit src (i - (n - R))
             else if op = Sbfm then bit src S else bit dst i)))"
proof -
  obtain wm tm where m: "decode_bit_masks (of_bool sf) imms immr False (datasize sf) = Some (wm, tm)"
    using bitfield_masks [OF assms(1,2), of 0] by auto
  define n R S where "n = datasize sf" and "R = unat immr" and "S = unat imms"
  have b: "R < n" "S < n" "n \<le> 64" using assms(1,2) by (auto simp: n_def R_def S_def datasize_def)
  have d: "(S + n - R) mod n = (if R \<le> S then S - R else S + n - R)"
  proof (cases "R \<le> S")
    case True
    then have "S + n - R = (S - R) + n" by simp
    with True b show ?thesis by (metis mod_add_self2 mod_less diff_le_self le_less_trans)
  qed (use b in simp)
  have e: "(i + R) mod n = (if i < n - R then i + R else i - (n - R))" if "i < n" for i
    using b that by (cases "i < n - R") (simp_all add: le_mod_geq)
  have "bit (xr (exec_dp_imm (Bitfield sf op (ucast immr) (ucast imms) wm tm rn rd) c) rd) i = (i < n \<and>
          (if R \<le> S then
             if i \<le> S - R then bit (xr c rn) (i + R) else if op = Sbfm then bit (xr c rn) S else op = Bfm \<and> bit (xr c rd) i
           else
             if i < n - R then op = Bfm \<and> bit (xr c rd) i
             else if i \<le> n - R + S then bit (xr c rn) (i - (n - R))
             else if op = Sbfm then bit (xr c rn) S else op = Bfm \<and> bit (xr c rd) i))" for i
  proof (cases "i < n")
    case True
    then have "i < 64" using b by simp
    note r = bitfield_result [OF assms(1,2) this assms(3,4) m, of op rn, folded n_def R_def S_def]
    show ?thesis
    proof (cases "R \<le> S")
      case le: True
      have "i \<le> S - R \<Longrightarrow> i < n - R \<and> i + R \<le> S" using le b by linarith
      then show ?thesis unfolding r d e [OF True] using True le by simp
    next
      case gt: False
      have "i < n - R \<Longrightarrow> i \<le> S + n - R \<and> \<not> i + R \<le> S" "i \<le> n - R + S \<longleftrightarrow> i \<le> S + n - R"
        "\<not> i < n - R \<Longrightarrow> i \<le> n - R + S \<Longrightarrow> i - (n - R) \<le> S"
        using gt b by linarith+
      then show ?thesis unfolding r d e [OF True] using True gt by simp
    qed
  next
    case False
    have "i < 64 \<Longrightarrow> \<not> bit (xr (exec_dp_imm (Bitfield sf op (ucast immr) (ucast imms) wm tm rn rd) c) rd) i"
      using bitfield_result [OF assms(1,2) _ assms(3,4) m, of i op rn, folded n_def R_def S_def] False by simp
    moreover have "bit v i \<Longrightarrow> i < 64" for v :: u64 using bit_imp_le_length [of v i] by simp
    ultimately have "\<not> bit (xr (exec_dp_imm (Bitfield sf op (ucast immr) (ucast imms) wm tm rn rd) c) rd) i" by blast
    with False show ?thesis by simp
  qed
  note res = this
  have dst: "bit (if op = Bfm then xr c rd else 0) i \<longleftrightarrow> op = Bfm \<and> bit (xr c rd) i" for i by simp
  show ?thesis
    unfolding Let_def dst by (intro exI conjI allI, rule m, rule res [unfolded n_def R_def S_def])
qed

theorem bitfield_moves_witness:
  "\<exists>wm tm. decode_bit_masks 1 15 8 False 64 = Some (wm, tm) \<and>
    bit (xr (exec_dp_imm (Bitfield True Ubfm 8 15 wm tm 1 0) (cpu_new\<lparr>c_x := (replicate 31 0)[1 := 0xAB00]\<rparr>)) 0) 3"
proof -
  have "\<exists>wm tm. decode_bit_masks (of_bool True) 15 8 False (datasize True) = Some (wm, tm) \<and>
    bit (xr (exec_dp_imm (Bitfield True Ubfm (ucast (8 :: u32)) (ucast (15 :: u32)) wm tm 1 0)
      (cpu_new\<lparr>c_x := (replicate 31 0)[1 := 0xAB00]\<rparr>)) 0) 3"
    using bitfield_moves [of 15 True 8 0 "cpu_new\<lparr>c_x := (replicate 31 0)[1 := 0xAB00]\<rparr>" 1 Ubfm]
    by (auto simp: datasize_def Let_def xr_def)
  then show ?thesis by (simp add: datasize_def)
qed

end
