(* ===== verification/Cpu_System.thy ===== *)
theory Cpu_System
  imports Cpu_Exec
begin

text \<open>
  System mode, \<^verbatim>\<open>crates/vetro-cpu/src/sys\<close>: the access rules and the semantics of the system registers
  (\<^verbatim>\<open>regs.rs\<close>, \<^verbatim>\<open>id.rs\<close>), the memory of the interpreter on top of the system bus (\<^verbatim>\<open>mem.rs\<close>) and one step
  with interrupts, system instructions and the delivery of exceptions (\<^verbatim>\<open>step.rs\<close>). The traits \<^verbatim>\<open>SysBus\<close> and
  \<^verbatim>\<open>CpuEnv\<close> (\<^verbatim>\<open>mod.rs\<close>) are records of operations over the state of the bus and of the platform.
\<close>

subsection \<open>The interfaces\<close>

record 'b sys_bus =
  sb_translate :: "mmu_regs \<Rightarrow> u64 \<Rightarrow> access_req \<Rightarrow> 'b \<Rightarrow> (bus_fault + u64) \<times> 'b"
  sb_read_phys :: "u64 \<Rightarrow> nat \<Rightarrow> 'b \<Rightarrow> (bus_fault + bytes) \<times> 'b"
  sb_write_phys :: "u64 \<Rightarrow> bytes \<Rightarrow> 'b \<Rightarrow> (bus_fault + unit) \<times> 'b"
  sb_at :: "mmu_regs \<Rightarrow> u64 \<Rightarrow> access \<Rightarrow> u8 \<Rightarrow> 'b \<Rightarrow> at_result \<times> 'b"
  sb_tlbi :: "tlbi_op \<Rightarrow> u64 \<Rightarrow> 'b \<Rightarrow> 'b"
  sb_tlb_flush_all :: "'b \<Rightarrow> 'b"
  sb_cmpxchg_phys :: "u64 \<Rightarrow> bytes \<Rightarrow> bytes \<Rightarrow> 'b \<Rightarrow> (bus_fault + bool) \<times> 'b"

record 'e cpu_env =
  en_irq_line :: "'e \<Rightarrow> bool \<times> 'e"
  en_fiq_line :: "'e \<Rightarrow> bool \<times> 'e"
  en_read_sysreg :: "env_reg \<Rightarrow> 'e \<Rightarrow> u64 \<times> 'e"
  en_write_sysreg :: "env_reg \<Rightarrow> u64 \<Rightarrow> 'e \<Rightarrow> 'e"

datatype sys_event =
    Executed
  | ExceptionTaken exception_kind u64 u8
  | WaitForInterrupt
  | YieldHint
  | HvcCall u16
  | SmcCall u16
  | NotImplemented u32 string

subsection \<open>System registers\<close>

datatype deny = DenyUndefined | DenyTrap

definition mdscr_tdcc :: "u64 \<Rightarrow> bool" where
  "mdscr_tdcc mdscr \<longleftrightarrow> mdscr AND push_bit 12 1 \<noteq> 0"

definition sysreg_access_el0 :: "cpu \<Rightarrow> sys_reg \<Rightarrow> bool \<Rightarrow> deny + unit" where
  "sysreg_access_el0 c reg wr =
    (let sc = s_sctlr_el1 (c_sys c); k = s_cntkctl_el1 (c_sys c);
         enabled' = (\<lambda>b :: u64. if k AND b \<noteq> 0 then Inr () else Inl DenyTrap)
     in if reg \<in> {Nzcv, TpidrEl0, Fpcr, Fpsr, DczidEl0} then Inr ()
        else if reg \<in> {TpidrroEl0, PmuserenrEl0} then if wr then Inl DenyUndefined else Inr ()
        else if reg \<in> {MdccsrEl0, DbgdtrEl0} then
          if mdscr_tdcc (s_mdscr_el1 (c_sys c)) then Inl DenyTrap else Inr ()
        else if reg = CtrEl0 then if sc AND sctlr_UCT \<noteq> 0 then Inr () else Inl DenyTrap
        else if reg = Daif then if sc AND sctlr_UMA \<noteq> 0 then Inr () else Inl DenyTrap
        else case reg of
            Env e \<Rightarrow>
              if e = CntfrqEl0 then
                rbind (enabled' (EL0PCTEN OR EL0VCTEN)) (\<lambda>_. if wr then Inl DenyUndefined else Inr ())
              else if e = CntpctEl0 then enabled' EL0PCTEN
              else if e = CntvctEl0 then enabled' EL0VCTEN
              else if e \<in> {CntpTvalEl0, CntpCtlEl0, CntpCvalEl0} then enabled' EL0PTEN
              else if e \<in> {CntvTvalEl0, CntvCtlEl0, CntvCvalEl0} then enabled' EL0VTEN
              else Inl DenyUndefined
          | _ \<Rightarrow> Inl DenyUndefined)"

definition sysreg_access :: "cpu \<Rightarrow> sys_reg \<Rightarrow> bool \<Rightarrow> deny + unit" where
  "sysreg_access c reg wr =
    (if sysreg_rw reg = ReadOnly \<and> wr \<or> sysreg_rw reg = WriteOnly \<and> \<not> wr then Inl DenyUndefined
     else if (case reg of Env e \<Rightarrow> \<not> is_timer e \<and> \<not> cfg_gicv3 (s_cfg (c_sys c)) | _ \<Rightarrow> False)
     then Inl DenyUndefined
     else if s_el (c_sys c) = 1 then
       if reg = SpEl0 \<and> \<not> s_spsel (c_sys c) then Inl DenyUndefined else Inr ()
     else sysreg_access_el0 c reg wr)"

definition MIDR_EL1 :: u64 where "MIDR_EL1 = 0x410fd034"
definition REVIDR_EL1 :: u64 where "REVIDR_EL1 = 0x00000100"
definition DCZID_BS :: u64 where "DCZID_BS = 4"
definition CLIDR_EL1 :: u64 where "CLIDR_EL1 = 0x0a200023"
definition CCSIDR_EL1 :: "u64 list" where "CCSIDR_EL1 = [0x700fe01a, 0x203fe002, 0x707fe07a]"

definition id_table :: "(u8 \<times> u64) list" where
  "id_table = [(8, 0x00000131), (10, 0x03000006), (12, 0x10101105), (13, 0x40000000),
    (14, 0x01260000), (15, 0x02102211), (16, 0x02101110), (17, 0x13112111), (18, 0x21232042),
    (19, 0x01112131), (20, 0x00011142), (21, 0x00011121), (24, 0x10110222), (25, 0x12111111),
    (26, 0x00000043), (40, 0x10305106), (48, 0x00011120), (56, 0x00001122)]"

definition id_reg :: "u8 \<Rightarrow> bool \<Rightarrow> u64" where
  "id_reg idx gicv3 =
    (let g = of_bool gicv3
     in if idx = 9 then 0x00010001 OR push_bit 28 g
        else if idx = 32 then 0x00000011 OR push_bit 24 g
        else case map_of id_table idx of Some v \<Rightarrow> v | None \<Rightarrow> 0)"

definition sysreg_read :: "'e cpu_env \<Rightarrow> sys_reg \<Rightarrow> cpu \<Rightarrow> 'e \<Rightarrow> u64 \<times> 'e" where
  "sysreg_read E reg c e = (let s = c_sys c in case reg of
      Nzcv \<Rightarrow> (ucast (c_nzcv c), e)
    | TpidrEl0 \<Rightarrow> (c_tpidr_el0 c, e)
    | TpidrroEl0 \<Rightarrow> (c_tpidrro_el0 c, e)
    | Fpcr \<Rightarrow> (ucast (c_fpcr c), e)
    | Fpsr \<Rightarrow> (ucast (c_fpsr c), e)
    | DczidEl0 \<Rightarrow>
        (DCZID_BS OR push_bit 4 (of_bool (s_el s = 0 \<and> s_sctlr_el1 s AND sctlr_DZE = 0)), e)
    | CtrEl0 \<Rightarrow> (CTR_EL0, e)
    | Daif \<Rightarrow> (ucast (s_daif s), e)
    | CurrentEl \<Rightarrow> (push_bit 2 (ucast (s_el s)), e)
    | SpSel \<Rightarrow> (of_bool (s_spsel s), e)
    | SpEl0 \<Rightarrow> (sp_el c 0, e)
    | ElrEl1 \<Rightarrow> (s_elr_el1 s, e)
    | SpsrEl1 \<Rightarrow> (s_spsr_el1 s, e)
    | SctlrEl1 \<Rightarrow> (s_sctlr_el1 s, e)
    | CpacrEl1 \<Rightarrow> (s_cpacr_el1 s, e)
    | TcrEl1 \<Rightarrow> (s_tcr_el1 s, e)
    | Ttbr0El1 \<Rightarrow> (s_ttbr0_el1 s, e)
    | Ttbr1El1 \<Rightarrow> (s_ttbr1_el1 s, e)
    | MairEl1 \<Rightarrow> (s_mair_el1 s, e)
    | ContextidrEl1 \<Rightarrow> (s_contextidr_el1 s, e)
    | VbarEl1 \<Rightarrow> (s_vbar_el1 s, e)
    | EsrEl1 \<Rightarrow> (s_esr_el1 s, e)
    | FarEl1 \<Rightarrow> (s_far_el1 s, e)
    | ParEl1 \<Rightarrow> (s_par_el1 s, e)
    | TpidrEl1 \<Rightarrow> (s_tpidr_el1 s, e)
    | CntkctlEl1 \<Rightarrow> (s_cntkctl_el1 s, e)
    | CsselrEl1 \<Rightarrow> (s_csselr_el1 s, e)
    | DbgclaimsetEl1 \<Rightarrow> (0xff, e)
    | DbgclaimclrEl1 \<Rightarrow> (ucast (s_dbgclaim s), e)
    | CbarEl1 \<Rightarrow> (cfg_cbar (s_cfg s), e)
    | IsrEl1 \<Rightarrow>
        (let (i, e) = en_irq_line E e; (f, e) = en_fiq_line E e
         in (push_bit 8 (of_bool (s_serror_pending s \<noteq> None)) OR push_bit 7 (of_bool i) OR push_bit 6 (of_bool f), e))
    | MidrEl1 \<Rightarrow> (MIDR_EL1, e)
    | MpidrEl1 \<Rightarrow> (cfg_mpidr (s_cfg s), e)
    | RevidrEl1 \<Rightarrow> (REVIDR_EL1, e)
    | ClidrEl1 \<Rightarrow> (CLIDR_EL1, e)
    | CcsidrEl1 \<Rightarrow> (if unat (s_csselr_el1 s) < length CCSIDR_EL1 then CCSIDR_EL1 ! unat (s_csselr_el1 s) else 0, e)
    | IdReg i \<Rightarrow> (id_reg i (cfg_gicv3 (s_cfg s)), e)
    | MdscrEl1 \<Rightarrow> (s_mdscr_el1 s, e)
    | OslsrEl1 \<Rightarrow> (8 OR push_bit 1 (of_bool (s_oslk s)), e)
    | OsdlrEl1 \<Rightarrow> (s_osdlr_el1 s, e)
    | DbgbvrEl1 n \<Rightarrow> (s_dbgbvr s ! unat n, e)
    | DbgbcrEl1 n \<Rightarrow> (s_dbgbcr s ! unat n, e)
    | DbgwvrEl1 n \<Rightarrow> (s_dbgwvr s ! unat n, e)
    | DbgwcrEl1 n \<Rightarrow> (s_dbgwcr s ! unat n, e)
    | PmuserenrEl0 \<Rightarrow> (s_pmuserenr_el0 s, e)
    | Env r \<Rightarrow> en_read_sysreg E r e
    | _ \<Rightarrow> (0, e))"

abbreviation upd_sys :: "(sys_state \<Rightarrow> sys_state) \<Rightarrow> cpu \<Rightarrow> cpu" where
  "upd_sys f c \<equiv> c\<lparr>c_sys := f (c_sys c)\<rparr>"

definition sysreg_write :: "'b sys_bus \<Rightarrow> 'e cpu_env \<Rightarrow> sys_reg \<Rightarrow> u64 \<Rightarrow> cpu \<Rightarrow> 'b \<Rightarrow> 'e \<Rightarrow> cpu \<times> 'b \<times> 'e" where
  "sysreg_write B E reg v c b e = (case reg of
      Nzcv \<Rightarrow> (c\<lparr>c_nzcv := ucast v AND 0xf0000000\<rparr>, b, e)
    | TpidrEl0 \<Rightarrow> (c\<lparr>c_tpidr_el0 := v\<rparr>, b, e)
    | TpidrroEl0 \<Rightarrow> (c\<lparr>c_tpidrro_el0 := v\<rparr>, b, e)
    | Fpcr \<Rightarrow> (c\<lparr>c_fpcr := ucast v AND FPCR_MASK\<rparr>, b, e)
    | Fpsr \<Rightarrow> (c\<lparr>c_fpsr := ucast v AND FPSR_MASK\<rparr>, b, e)
    | Daif \<Rightarrow> (upd_sys (s_daif_update (\<lambda>_. ucast v AND daif_ALL)) c, b, e)
    | SpSel \<Rightarrow> (set_el_sp (s_el (c_sys c)) (v AND 1 \<noteq> 0) c, b, e)
    | SpEl0 \<Rightarrow> (set_sp_el 0 v c, b, e)
    | ElrEl1 \<Rightarrow> (upd_sys (s_elr_el1_update (\<lambda>_. v)) c, b, e)
    | SpsrEl1 \<Rightarrow> (upd_sys (s_spsr_el1_update (\<lambda>_. v)) c, b, e)
    | SctlrEl1 \<Rightarrow> (upd_sys (s_sctlr_el1_update (\<lambda>_. v AND NOT sctlr_MTE_BITS)) c, sb_tlb_flush_all B b, e)
    | CpacrEl1 \<Rightarrow> (upd_sys (s_cpacr_el1_update (\<lambda>_. v)) c, b, e)
    | TcrEl1 \<Rightarrow> (upd_sys (s_tcr_el1_update (\<lambda>_. v)) c, sb_tlb_flush_all B b, e)
    | Ttbr0El1 \<Rightarrow> (upd_sys (s_ttbr0_el1_update (\<lambda>_. v)) c, b, e)
    | Ttbr1El1 \<Rightarrow> (upd_sys (s_ttbr1_el1_update (\<lambda>_. v)) c, b, e)
    | MairEl1 \<Rightarrow> (upd_sys (s_mair_el1_update (\<lambda>_. v)) c, b, e)
    | ContextidrEl1 \<Rightarrow> (upd_sys (s_contextidr_el1_update (\<lambda>_. v)) c, b, e)
    | VbarEl1 \<Rightarrow> (upd_sys (s_vbar_el1_update (\<lambda>_. v AND NOT 0x1f)) c, b, e)
    | EsrEl1 \<Rightarrow> (upd_sys (s_esr_el1_update (\<lambda>_. v)) c, b, e)
    | FarEl1 \<Rightarrow> (upd_sys (s_far_el1_update (\<lambda>_. v)) c, b, e)
    | ParEl1 \<Rightarrow> (upd_sys (s_par_el1_update (\<lambda>_. v)) c, b, e)
    | TpidrEl1 \<Rightarrow> (upd_sys (s_tpidr_el1_update (\<lambda>_. v)) c, b, e)
    | CntkctlEl1 \<Rightarrow> (upd_sys (s_cntkctl_el1_update (\<lambda>_. v)) c, b, e)
    | CsselrEl1 \<Rightarrow> (upd_sys (s_csselr_el1_update (\<lambda>_. v AND 0xf)) c, b, e)
    | DbgclaimsetEl1 \<Rightarrow> (upd_sys (s_dbgclaim_update (\<lambda>d. d OR ucast v)) c, b, e)
    | DbgclaimclrEl1 \<Rightarrow> (upd_sys (s_dbgclaim_update (\<lambda>d. d AND NOT (ucast v))) c, b, e)
    | MdscrEl1 \<Rightarrow> (upd_sys (s_mdscr_el1_update (\<lambda>_. v)) c, b, e)
    | OslarEl1 \<Rightarrow> (upd_sys (s_oslk_update (\<lambda>_. v AND 1 \<noteq> 0)) c, b, e)
    | OsdlrEl1 \<Rightarrow> (upd_sys (s_osdlr_el1_update (\<lambda>_. v AND 1)) c, b, e)
    | DbgbvrEl1 n \<Rightarrow> (upd_sys (s_dbgbvr_update (\<lambda>l. l[unat n := v])) c, b, e)
    | DbgbcrEl1 n \<Rightarrow> (upd_sys (s_dbgbcr_update (\<lambda>l. l[unat n := v])) c, b, e)
    | DbgwvrEl1 n \<Rightarrow> (upd_sys (s_dbgwvr_update (\<lambda>l. l[unat n := v AND NOT 3])) c, b, e)
    | DbgwcrEl1 n \<Rightarrow> (upd_sys (s_dbgwcr_update (\<lambda>l. l[unat n := v])) c, b, e)
    | PmuserenrEl0 \<Rightarrow> (upd_sys (s_pmuserenr_el0_update (\<lambda>_. v AND 0xf)) c, b, e)
    | Env r \<Rightarrow> (c, b, en_write_sysreg E r v e)
    | _ \<Rightarrow> (c, b, e))"

subsection \<open>Memory on the system bus\<close>

datatype pending = PendAbort u64 u8 bool access | PendUnimplemented string

definition FSC_ALIGNMENT :: u8 where "FSC_ALIGNMENT = 0x21"

text \<open>The state of \<^verbatim>\<open>SysMem\<close>: the bus and the fault of the last access that failed.\<close>

type_synonym 'b sys_mem = "'b \<times> pending option"

definition sm_fail :: "u64 \<Rightarrow> access \<Rightarrow> bus_fault \<Rightarrow> 'b \<Rightarrow> (mem_fault + 'a) \<times> 'b sys_mem" where
  "sm_fail va acc f b =
    (Inl \<lparr>mf_addr = va, mf_access = acc\<rparr>,
     b, Some (case f of BusAbort c ea \<Rightarrow> PendAbort va c ea acc | BusUnimplemented w \<Rightarrow> PendUnimplemented w))"

definition page_chunk :: "u64 \<Rightarrow> nat \<Rightarrow> nat" where
  "page_chunk va rest = min rest (unat (page_size - (va AND (page_size - 1))))"

lemma page_chunk_bounds:
  assumes "0 < rest"
  shows "0 < page_chunk va rest" "page_chunk va rest \<le> rest"
proof -
  have e: "page_size - 1 = (mask 12 :: u64)" by (simp add: page_size_def mask_eq_exp_minus_1)
  have "unat (va AND (page_size - 1)) < 2 ^ 12"
    unfolding e take_bit_eq_mask [symmetric] take_bit_word_self_iff [symmetric] by simp
  then have "va AND (page_size - 1) < page_size"
    by (simp add: word_less_nat_alt page_size_def)
  then have "page_size - (va AND (page_size - 1)) \<noteq> 0" by auto
  then show "0 < page_chunk va rest" using assms by (simp add: page_chunk_def unat_gt_0)
qed (simp add: page_chunk_def)

text \<open>The two loops of \<^verbatim>\<open>access\<close>: the translation of every page, and the access to every piece.\<close>

function translate_pages ::
  "'b sys_bus \<Rightarrow> mmu_regs \<Rightarrow> access_req \<Rightarrow> u64 \<Rightarrow> nat \<Rightarrow> nat \<Rightarrow> 'b \<Rightarrow> (u64 \<times> bus_fault + unit) \<times> 'b" where
  "translate_pages B tr req va len off b =
    (if off < len then
       let v = va + of_nat off
       in (case sb_translate B tr v req b of
             (Inl f, b1) \<Rightarrow> (Inl (v, f), b1)
           | (Inr _, b1) \<Rightarrow> translate_pages B tr req va len (off + page_chunk v (len - off)) b1)
     else (Inr (), b))"
  by pat_completeness auto
termination
  by (relation "measure (\<lambda>(_, _, _, _, len, off, _). len - off)")
     (auto intro: diff_less_mono2 simp: page_chunk_bounds)

function access_pieces ::
  "'b sys_bus \<Rightarrow> mmu_regs \<Rightarrow> access_req \<Rightarrow> u64 \<Rightarrow> nat \<Rightarrow> (u64 \<Rightarrow> nat \<Rightarrow> nat \<Rightarrow> 'b \<Rightarrow> (bus_fault + 'a) \<times> 'b) \<Rightarrow>
    nat \<Rightarrow> 'b \<Rightarrow> (u64 \<times> bus_fault + 'a list) \<times> 'b" where
  "access_pieces B tr req va len op off b =
    (if off < len then
       let v = va + of_nat off; n = page_chunk v (len - off)
       in (case sb_translate B tr v req b of
             (Inl f, b1) \<Rightarrow> (Inl (v, f), b1)
           | (Inr pa, b1) \<Rightarrow>
               (case op pa off n b1 of
                  (Inl f, b2) \<Rightarrow> (Inl (v, f), b2)
                | (Inr x, b2) \<Rightarrow>
                    (case access_pieces B tr req va len op (off + n) b2 of
                       (r, b3) \<Rightarrow> (rmap ((#) x) r, b3))))
     else (Inr [], b))"
  by pat_completeness auto
termination
  by (relation "measure (\<lambda>(_, _, _, _, len, _, off, _). len - off)")
     (auto intro: diff_less_mono2 simp: page_chunk_bounds)

declare translate_pages.simps [simp del] access_pieces.simps [simp del]

definition sys_access ::
  "'b sys_bus \<Rightarrow> mmu_regs \<Rightarrow> u8 \<Rightarrow> u64 \<Rightarrow> nat \<Rightarrow> access \<Rightarrow> u8 \<Rightarrow> bool \<Rightarrow>
    (u64 \<Rightarrow> nat \<Rightarrow> nat \<Rightarrow> 'b \<Rightarrow> (bus_fault + 'a) \<times> 'b) \<Rightarrow> 'b sys_mem \<Rightarrow> (mem_fault + 'a list) \<times> 'b sys_mem" where
  "sys_access B tr el va len acc privilege device_fault op m =
    (let b = fst m; aligned = (\<not> device_fault \<and> va mod of_nat len = 0);
         big = (if el = 0 then sctlr_E0E else sctlr_EE);
         req = \<lparr>rq_access = acc, rq_el = privilege, rq_aligned = aligned\<rparr>
     in if len = 0 then (Inr [], m)
        else if acc \<noteq> Fetch \<and> \<not> aligned \<and> \<not> device_fault \<and> sctlr tr AND sctlr_A \<noteq> 0
        then sm_fail va acc (BusAbort FSC_ALIGNMENT False) b
        else if acc \<noteq> Fetch \<and> sctlr tr AND big \<noteq> 0
        then sm_fail va acc (BusUnimplemented ''big-endian data accesses (SCTLR_EL1.EE/E0E)'') b
        else (case (if page_chunk va len < len then translate_pages B tr req va len 0 b else (Inr (), b)) of
                (Inl (v, f), b1) \<Rightarrow> sm_fail v acc f b1
              | (Inr _, b1) \<Rightarrow>
                  (case access_pieces B tr req va len op 0 b1 of
                     (Inl (v, f), b2) \<Rightarrow> sm_fail v acc f b2
                   | (Inr xs, b2) \<Rightarrow> (Inr xs, b2, snd m))))"

text \<open>A result of the pieces combined into the result of the access.\<close>

definition sm_map :: "('a \<Rightarrow> 'c) \<Rightarrow> (mem_fault + 'a) \<times> 'b sys_mem \<Rightarrow> (mem_fault + 'c) \<times> 'b sys_mem" where
  "sm_map f x = (rmap f (fst x), snd x)"

definition read_as :: "'b sys_bus \<Rightarrow> mmu_regs \<Rightarrow> u8 \<Rightarrow> u8 \<Rightarrow> u64 \<Rightarrow> nat \<Rightarrow> 'b sys_mem \<Rightarrow> (mem_fault + bytes) \<times> 'b sys_mem" where
  "read_as B tr el privilege addr n m =
    sm_map concat (sys_access B tr el addr n Read privilege False (\<lambda>pa off k. sb_read_phys B pa k) m)"

definition write_as :: "'b sys_bus \<Rightarrow> mmu_regs \<Rightarrow> u8 \<Rightarrow> u8 \<Rightarrow> u64 \<Rightarrow> bytes \<Rightarrow> 'b sys_mem \<Rightarrow> (mem_fault + unit) \<times> 'b sys_mem" where
  "write_as B tr el privilege addr data m =
    sm_map (\<lambda>_. ()) (sys_access B tr el addr (length data) Write privilege False
      (\<lambda>pa off k. sb_write_phys B pa (take k (drop off data))) m)"

definition cmpxchg_as :: "'b sys_bus \<Rightarrow> mmu_regs \<Rightarrow> u8 \<Rightarrow> u64 \<Rightarrow> bytes \<Rightarrow> bytes \<Rightarrow> 'b sys_mem \<Rightarrow> (mem_fault + bool) \<times> 'b sys_mem" where
  "cmpxchg_as B tr el addr old new m =
    sm_map (\<lambda>oks. oks \<noteq> [] \<and> last oks) (sys_access B tr el addr (length old) Write el False
      (\<lambda>pa _ _. sb_cmpxchg_phys B pa old new) m)"

definition fetch_as :: "'b sys_bus \<Rightarrow> mmu_regs \<Rightarrow> u8 \<Rightarrow> u64 \<Rightarrow> 'b sys_mem \<Rightarrow> (mem_fault + u32) \<times> 'b sys_mem" where
  "fetch_as B tr el addr m =
    (if addr AND 3 = 0 then
       (case sb_translate B tr addr \<lparr>rq_access = Fetch, rq_el = el, rq_aligned = True\<rparr> (fst m) of
          (Inl f, b1) \<Rightarrow> sm_fail addr Fetch f b1
        | (Inr pa, b1) \<Rightarrow>
            (case sb_read_phys B pa 4 b1 of
               (Inl f, b2) \<Rightarrow> sm_fail addr Fetch f b2
             | (Inr w, b2) \<Rightarrow> (Inr (of_le w), b2, snd m)))
     else sm_map (\<lambda>ws. of_le (concat ws))
            (sys_access B tr el addr 4 Fetch el False (\<lambda>pa off k. sb_read_phys B pa k) m))"

definition zero_block_as :: "'b sys_bus \<Rightarrow> mmu_regs \<Rightarrow> u8 \<Rightarrow> u64 \<Rightarrow> 'b sys_mem \<Rightarrow> (mem_fault + unit) \<times> 'b sys_mem" where
  "zero_block_as B tr el addr m =
    sm_map (\<lambda>_. ()) (sys_access B tr el addr 64 Write el True
      (\<lambda>pa off k. sb_write_phys B pa (take k (drop off (replicate 64 0)))) m)"

definition sys_memory :: "'b sys_bus \<Rightarrow> mmu_regs \<Rightarrow> u8 \<Rightarrow> 'b sys_mem memory" where
  "sys_memory B tr el =
    \<lparr>me_read = read_as B tr el el, me_write = write_as B tr el el, me_fetch = fetch_as B tr el,
     me_read_unpriv = read_as B tr el 0, me_write_unpriv = write_as B tr el 0,
     me_zero_block = zero_block_as B tr el, me_cmpxchg = cmpxchg_as B tr el\<rparr>"

subsection \<open>One step\<close>

definition ISS_WFI :: u64 where "ISS_WFI = push_bit 24 1 OR push_bit 20 0xe"
definition ISS_FP :: u64 where "ISS_FP = push_bit 24 1 OR push_bit 20 0xe"

definition sysreg_iss :: "u32 \<Rightarrow> u64" where
  "sysreg_iss raw =
    (let f = (\<lambda>hi lo. ucast (field raw hi lo))
     in push_bit 20 (f 20 19) OR push_bit 17 (f 7 5) OR push_bit 14 (f 18 16) OR push_bit 10 (f 15 12) OR
        push_bit 5 (f 4 0) OR push_bit 1 (f 11 8) OR f 21 21)"

definition is_fp :: "'i insn \<Rightarrow> bool" where
  "is_fp i = (case i of
      Simd _ \<Rightarrow> True
    | Mrs reg _ \<Rightarrow> reg = Fpcr \<or> reg = Fpsr
    | Msr reg _ \<Rightarrow> reg = Fpcr \<or> reg = Fpsr
    | _ \<Rightarrow> False)"

definition is_store :: "'i insn \<Rightarrow> bool" where
  "is_store i = (case i of Exclusive _ load _ _ _ _ _ \<Rightarrow> \<not> load | StoreRelease _ _ _ \<Rightarrow> True | _ \<Rightarrow> False)"

definition take_sync :: "u64 \<Rightarrow> u64 option \<Rightarrow> u64 \<Rightarrow> cpu \<Rightarrow> sys_event \<times> cpu" where
  "take_sync e fa preferred c =
    (ExceptionTaken Sync e (s_el (c_sys c)), take_exception Sync (Some e) fa preferred c)"

definition undefined_insn :: "cpu \<Rightarrow> sys_event \<times> cpu" where
  "undefined_insn c = take_sync (esr_of EC_UNKNOWN 0) None (c_pc c) c"

definition sysreg_trap :: "u32 \<Rightarrow> cpu \<Rightarrow> sys_event \<times> cpu" where
  "sysreg_trap raw c = take_sync (esr_of EC_SYSREG (sysreg_iss raw)) None (c_pc c) c"

definition deny_access :: "deny \<Rightarrow> u32 \<Rightarrow> cpu \<Rightarrow> sys_event \<times> cpu" where
  "deny_access d raw c = (case d of DenyUndefined \<Rightarrow> undefined_insn c | DenyTrap \<Rightarrow> sysreg_trap raw c)"

definition deliver_fault :: "pending option \<Rightarrow> u32 \<Rightarrow> bool \<Rightarrow> cpu \<Rightarrow> sys_event \<times> cpu" where
  "deliver_fault f raw cm c = (let lower = (s_el (c_sys c) = 0) in case f of
      Some (PendAbort va fs ea acc) \<Rightarrow>
        let fs = ucast fs; ea = push_bit 9 (of_bool ea);
            e = (if acc = Fetch then
                   esr_of (if lower then EC_INSN_ABORT_LOWER else EC_INSN_ABORT_SAME) (ea OR fs)
                 else let wnr = push_bit 6 (of_bool (acc = Write)); cm = push_bit 8 (of_bool cm)
                      in esr_of (if lower then EC_DATA_ABORT_LOWER else EC_DATA_ABORT_SAME)
                           (ea OR cm OR wnr OR fs))
        in take_sync e (Some va) (c_pc c) c
    | Some (PendUnimplemented what) \<Rightarrow> (NotImplemented raw what, c)
    | None \<Rightarrow> (NotImplemented raw ''memory fault without details'', c))"

definition take_interrupt :: "'e cpu_env \<Rightarrow> cpu \<Rightarrow> 'e \<Rightarrow> sys_event option \<times> cpu \<times> 'e" where
  "take_interrupt E c e =
    (let masks = s_daif (c_sys c); from_el = s_el (c_sys c);
         (fiq, e1) = (if masks AND daif_F = 0 then en_fiq_line E e else (False, e))
     in if fiq then (Some (ExceptionTaken Fiq 0 from_el), take_exception Fiq None None (c_pc c) c, e1)
        else let (irq, e2) = (if masks AND daif_I = 0 then en_irq_line E e1 else (False, e1))
             in if irq then (Some (ExceptionTaken Irq 0 from_el), take_exception Irq None None (c_pc c) c, e2)
                else if masks AND daif_A = 0 then
                  (case s_serror_pending (c_sys c) of
                     Some iss \<Rightarrow>
                       let c1 = upd_sys (s_serror_pending_update (\<lambda>_. None)) c;
                           v = esr_of EC_SERROR (ucast iss AND 0x1ffffff)
                       in (Some (ExceptionTaken SError v from_el), take_exception SError (Some v) None (c_pc c1) c1, e2)
                   | None \<Rightarrow> (None, c, e2))
                else (None, c, e2))"

definition at_request :: "at_op \<Rightarrow> access \<times> u8" where
  "at_request a = (case a of S1e1r \<Rightarrow> (Read, 1) | S1e1w \<Rightarrow> (Write, 1) | S1e0r \<Rightarrow> (Read, 0) | S1e0w \<Rightarrow> (Write, 0))"

text \<open>
  \<^verbatim>\<open>exec_system\<close>: the event of an instruction with a meaning of its own in system mode, nothing for one that
  goes to the common interpreter.
\<close>

type_synonym ('b, 'e) sys_result = "sys_event option \<times> cpu \<times> 'b \<times> 'e"

definition exec_sys_op :: "'b sys_bus \<Rightarrow> mmu_regs \<Rightarrow> sys_op \<Rightarrow> u8 \<Rightarrow> u32 \<Rightarrow> cpu \<Rightarrow> 'b \<Rightarrow> sys_event \<times> cpu \<times> 'b" where
  "exec_sys_op B tr op rt raw c b =
    (let next = c_pc c + 4; xt = xr c rt
     in if s_el (c_sys c) = 0 then (case undefined_insn c of (ev, c1) \<Rightarrow> (ev, c1, b))
        else (case op of
            Tlbi t \<Rightarrow> (Executed, c\<lparr>c_pc := next\<rparr>, sb_tlbi B t xt b)
          | At a \<Rightarrow>
              (case sb_at B tr xt (fst (at_request a)) (snd (at_request a)) b of
                 (AtPar p, b1) \<Rightarrow> (Executed, (upd_sys (s_par_el1_update (\<lambda>_. p)) c)\<lparr>c_pc := next\<rparr>, b1)
               | (AtAbort fs ea, b1) \<Rightarrow>
                   (case deliver_fault (Some (PendAbort xt fs ea Write)) raw True c of (ev, c1) \<Rightarrow> (ev, c1, b1))
               | (AtUnimplemented what, b1) \<Rightarrow> (NotImplemented raw what, c, b1))
          | _ \<Rightarrow> (Executed, c\<lparr>c_pc := next\<rparr>, b)))"

definition exec_msr_imm :: "pstate_field \<Rightarrow> u8 \<Rightarrow> u32 \<Rightarrow> cpu \<Rightarrow> sys_event \<times> cpu" where
  "exec_msr_imm fld imm raw c =
    (let el = s_el (c_sys c); next = c_pc c + 4
     in if fld = PSpSel then
          if el = 0 then undefined_insn c
          else (Executed, (set_el_sp el (imm AND 1 \<noteq> 0) c)\<lparr>c_pc := next\<rparr>)
        else if el = 0 \<and> s_sctlr_el1 (c_sys c) AND sctlr_UMA = 0 then sysreg_trap raw c
        else let m = push_bit 6 (ucast (imm AND 0xf)) :: u32
             in (Executed, (upd_sys (s_daif_update (\<lambda>d. if fld = DaifSet then d OR m else d AND NOT m)) c)\<lparr>c_pc := next\<rparr>))"

definition exec_system ::
  "'b sys_bus \<Rightarrow> 'e cpu_env \<Rightarrow> mmu_regs \<Rightarrow> 'i insn \<Rightarrow> u32 \<Rightarrow> cpu \<Rightarrow> 'b \<Rightarrow> 'e \<Rightarrow> ('b, 'e) sys_result" where
  "exec_system B E tr i raw c b e =
    (let el = s_el (c_sys c); sc = s_sctlr_el1 (c_sys c); next = c_pc c + 4;
         done = (\<lambda>(ev, c1). (Some ev, c1, b, e))
     in if fp_trapped c \<and> is_fp i then done (take_sync (esr_of EC_FP_ACCESS ISS_FP) None (c_pc c) c)
        else (case i of
            Wfi \<Rightarrow> if el = 0 \<and> sc AND sctlr_NTWI = 0
                   then done (take_sync (esr_of EC_WFX ISS_WFI) None (c_pc c) c)
                   else done (WaitForInterrupt, c\<lparr>c_pc := next\<rparr>)
          | Wfe \<Rightarrow> done (YieldHint, c\<lparr>c_pc := next\<rparr>)
          | Yield \<Rightarrow> done (YieldHint, c\<lparr>c_pc := next\<rparr>)
          | Hvc imm \<Rightarrow> if el = 0 \<or> cfg_psci (s_cfg (c_sys c)) \<noteq> ConduitHvc then done (undefined_insn c)
                       else done (HvcCall imm, c\<lparr>c_pc := next\<rparr>)
          | Smc imm \<Rightarrow> if el = 0 \<or> cfg_psci (s_cfg (c_sys c)) \<noteq> ConduitSmc then done (undefined_insn c)
                       else done (SmcCall imm, c\<lparr>c_pc := next\<rparr>)
          | Eret \<Rightarrow> if el = 0 then done (undefined_insn c) else done (Executed, exception_return c)
          | MsrImm fld imm \<Rightarrow> done (exec_msr_imm fld imm raw c)
          | Sys op rt \<Rightarrow> (case exec_sys_op B tr op rt raw c b of (ev, c1, b1) \<Rightarrow> (Some ev, c1, b1, e))
          | CacheMaint \<Rightarrow> if el = 0 \<and> sc AND sctlr_UCI = 0 then done (sysreg_trap raw c)
                          else done (Executed, c\<lparr>c_pc := next\<rparr>)
          | DcZva _ \<Rightarrow> if el = 0 \<and> sc AND sctlr_DZE = 0 then done (sysreg_trap raw c) else (None, c, b, e)
          | Mrs reg rt \<Rightarrow> (case sysreg_access c reg False of
                Inl d \<Rightarrow> done (deny_access d raw c)
              | Inr _ \<Rightarrow> (case sysreg_read E reg c e of (v, e1) \<Rightarrow> (Some Executed, (set_x rt v c)\<lparr>c_pc := next\<rparr>, b, e1)))
          | Msr reg rt \<Rightarrow> (case sysreg_access c reg True of
                Inl d \<Rightarrow> done (deny_access d raw c)
              | Inr _ \<Rightarrow> (case sysreg_write B E reg (xr c rt) c b e of (c1, b1, e1) \<Rightarrow> (Some Executed, c1\<lparr>c_pc := next\<rparr>, b1, e1)))
          | _ \<Rightarrow> (None, c, b, e)))"

definition deliver_exception :: "exception \<Rightarrow> 'i insn \<Rightarrow> pending option \<Rightarrow> u32 \<Rightarrow> u64 \<Rightarrow> cpu \<Rightarrow> sys_event \<times> cpu" where
  "deliver_exception ex i fault raw pc c = (case ex of
      ExUnimplemented raw what \<Rightarrow> (NotImplemented raw what, c)
    | Breakpoint imm \<Rightarrow> take_sync (esr_of EC_BRK (ucast imm)) None pc c
    | DataAbort _ _ \<Rightarrow> deliver_fault fault raw False c
    | InstructionAbort _ \<Rightarrow> deliver_fault fault raw False c
    | Alignment addr \<Rightarrow>
        deliver_fault (Some (PendAbort addr FSC_ALIGNMENT False (if is_store i then Write else Read))) raw False c
    | SpAlignment \<Rightarrow> take_sync (esr_of EC_SP_ALIGN 0) None pc c
    | _ \<Rightarrow> undefined_insn c)"

definition step_system ::
  "'i simd_decoders \<Rightarrow> ('i, 'b sys_mem) simd_exec \<Rightarrow> 'b sys_bus \<Rightarrow> 'e cpu_env \<Rightarrow> cpu \<Rightarrow> 'b \<Rightarrow> 'e \<Rightarrow>
    sys_event \<times> cpu \<times> 'b \<times> 'e" where
  "step_system D X B E c b e = (case take_interrupt E c e of
      (Some ev, c1, e1) \<Rightarrow> (ev, c1, b, e1)
    | (None, c, e) \<Rightarrow>
      (let pc = c_pc c; tr = translation_regs c; M = sys_memory B tr (s_el (c_sys c))
       in if pc AND 3 \<noteq> 0 then
            (case take_sync (esr_of EC_PC_ALIGN 0) (Some pc) pc c of (ev, c1) \<Rightarrow> (ev, c1, b, e))
          else (case me_fetch M pc (b, None) of
              (Inl _, b1, fault) \<Rightarrow> (case deliver_fault fault 0 False c of (ev, c1) \<Rightarrow> (ev, c1, b1, e))
            | (Inr raw, b1, fault) \<Rightarrow>
                if s_il (c_sys c) then
                  (case take_sync (esr_of EC_ILLEGAL_STATE 0) None pc c of (ev, c1) \<Rightarrow> (ev, c1, b1, e))
                else let i = decode D raw
                     in (case exec_system B E tr i raw c b1 e of
                           (Some ev, c1, b2, e1) \<Rightarrow> (ev, c1, b2, e1)
                         | (None, c1, b2, e1) \<Rightarrow>
                             (case execute X M i raw (c1, b2, fault) of
                                (Inr target, c2, b3, _) \<Rightarrow>
                                  let c3 = c2\<lparr>c_pc := case target of Some t \<Rightarrow> branch_addr c2 t | None \<Rightarrow> pc + 4\<rparr>
                                  in (case i of
                                        Svc imm \<Rightarrow> (case take_sync (esr_of EC_SVC (ucast imm)) None (c_pc c3) c3 of
                                            (ev, c4) \<Rightarrow> (ev, c4, b3, e1))
                                      | _ \<Rightarrow> (Executed, c3, b3, e1))
                              | (Inl ex, c2, b3, fault1) \<Rightarrow>
                                  (case deliver_exception ex i fault1 raw pc c2 of (ev, c3) \<Rightarrow> (ev, c3, b3, e1)))))))"

end
