(* ===== verification/Cpu_Invariant.thy ===== *)
theory Cpu_Invariant
  imports Cpu_System
begin

text \<open>
  The invariant of the core in system mode: every operation of the exception model, every access to a system
  register, every system instruction and so every step keep the state well formed. The last section
  has a concrete core, bus and platform for examples.
\<close>

subsection \<open>The invariant\<close>

lemma sys_ok_frame: "frame c c' \<Longrightarrow> sys_ok c \<Longrightarrow> sys_ok c'"
  by (simp add: frame_def sys_ok_def)

lemma sys_ok_pc [simp]: "sys_ok (c\<lparr>c_pc := p\<rparr>) = sys_ok c"
  by (simp add: sys_ok_def cpu_ok_def)

lemma sys_ok_set_x [simp]: "sys_ok c \<Longrightarrow> sys_ok (set_x r v c)"
  by (rule sys_ok_frame [OF frame_set_x [OF frame_refl]])

lemma set_el_sp_ok:
  assumes "sys_ok c" "el \<le> 1" "el = 0 \<longrightarrow> \<not> spsel"
  shows "sys_ok (set_el_sp el spsel c)"
  using assms by (simp add: sys_ok_def cpu_ok_def set_el_sp_def Let_def)

lemma set_sp_el_ok: "sys_ok c \<Longrightarrow> sys_ok (set_sp_el n v c)"
  by (simp add: sys_ok_def cpu_ok_def set_sp_el_def Let_def)

lemma daif_ALL_ok: "daif_ALL AND NOT daif_ALL = 0"
  by simp

lemma sys_ok_upd:
  assumes "sys_ok c" "s_mode s = System" "s_el s \<le> 1" "s_el s = 0 \<longrightarrow> \<not> s_spsel s" "s_daif s AND NOT daif_ALL = 0"
    "length (s_sp_el s) = 2" "length (s_dbgbvr s) = 6" "length (s_dbgbcr s) = 6" "length (s_dbgwvr s) = 4" "length (s_dbgwcr s) = 4"
  shows "sys_ok (c\<lparr>c_sys := s\<rparr>)"
  using assms by (simp add: sys_ok_def cpu_ok_def Let_def)

lemma take_exception_ok: "sys_ok c \<Longrightarrow> sys_ok (take_exception k e fa p c)"
  by (simp add: take_exception_def set_el_sp_def sys_ok_def cpu_ok_def Let_def split: option.split)

lemma exception_return_ok:
  assumes "sys_ok c"
  shows "sys_ok (exception_return c)"
proof -
  define s where "s = s_spsr_el1 (c_sys c)"
  have n: "(ucast (s AND spsr_NZCV) :: u32) AND 0x0fffffff = 0"
    unfolding spsr_masks by (rule bit_eqI) (auto simp: bit_simps)
  have d: "(ucast (s AND spsr_DAIF) :: u32) AND NOT daif_ALL = 0"
    unfolding spsr_masks daif_ALL_mask by (rule bit_eqI) (auto simp: bit_simps)
  have m: "s AND spsr_M = 0 \<or> s AND spsr_M = 4 \<or> s AND spsr_M = 5 \<Longrightarrow>
      (ucast (drop_bit 2 (s AND spsr_M)) :: u8) \<le> 1 \<and>
      ((ucast (drop_bit 2 (s AND spsr_M)) :: u8) = 0 \<longrightarrow> \<not> (s AND spsr_M) AND 1 \<noteq> 0)"
    by (elim disjE; simp)
  show ?thesis
    unfolding exception_return_def Let_def s_def [symmetric]
    using assms n d m
    by (auto simp: set_el_sp_def sys_ok_def cpu_ok_def Let_def)
qed

lemma sysreg_access_SpSel: "sysreg_access c SpSel w = Inr () \<Longrightarrow> s_el (c_sys c) = 1"
  by (auto simp: sysreg_access_def sysreg_access_el0_def Let_def sysreg_rw_def split: if_splits)

lemma and_nzcv: "(w AND 0xf0000000) AND 0x0fffffff = (0 :: u32)"
  by (simp add: and.assoc)

lemma sysreg_write_ok:
  assumes "sys_ok c" "sysreg_access c reg True = Inr ()"
  shows "sys_ok (fst (sysreg_write B E reg v c b e))"
proof (cases "reg = SpSel")
  case True
  with assms sysreg_access_SpSel [of c True] show ?thesis by (simp add: sysreg_write_def set_el_sp_ok)
next
  case False
  have d: "(ucast v AND daif_ALL) AND NOT daif_ALL = 0" by (simp add: and.assoc)
  show ?thesis
    using False assms(1) and_nzcv [of "ucast v"] d
    by (cases reg) (simp_all add: sysreg_write_def set_sp_el_ok, simp_all add: sys_ok_def cpu_ok_def Let_def)
qed

named_theorems sys_ok_intros "operations that keep the core well formed"

declare take_exception_ok [sys_ok_intros] exception_return_ok [sys_ok_intros]

lemma take_sync_ok [sys_ok_intros]: "sys_ok c \<Longrightarrow> sys_ok (snd (take_sync e fa p c))"
  by (simp add: take_sync_def take_exception_ok)

lemma undefined_insn_ok [sys_ok_intros]: "sys_ok c \<Longrightarrow> sys_ok (snd (undefined_insn c))"
  by (simp add: undefined_insn_def take_sync_ok)

lemma sysreg_trap_ok [sys_ok_intros]: "sys_ok c \<Longrightarrow> sys_ok (snd (sysreg_trap raw c))"
  by (simp add: sysreg_trap_def take_sync_ok)

lemma deny_access_ok [sys_ok_intros]: "sys_ok c \<Longrightarrow> sys_ok (snd (deny_access d raw c))"
  by (simp add: deny_access_def sys_ok_intros split: deny.split)

lemma deliver_fault_ok [sys_ok_intros]: "sys_ok c \<Longrightarrow> sys_ok (snd (deliver_fault f raw cm c))"
  by (simp add: deliver_fault_def Let_def sys_ok_intros split: option.split pending.split)

lemma deliver_exception_ok [sys_ok_intros]: "sys_ok c \<Longrightarrow> sys_ok (snd (deliver_exception ex i f raw pc c))"
  by (simp add: deliver_exception_def sys_ok_intros split: exception.split)

lemma take_interrupt_ok: "sys_ok c \<Longrightarrow> sys_ok (fst (snd (take_interrupt E c e)))"
proof -
  assume ok: "sys_ok c"
  then have "sys_ok (upd_sys (s_serror_pending_update (\<lambda>_. None)) c)" by (simp add: sys_ok_def cpu_ok_def Let_def)
  with ok show ?thesis
    by (auto simp: take_interrupt_def Let_def case_prod_beta sys_ok_intros split: option.split)
qed

lemma exec_sys_op_ok: "sys_ok c \<Longrightarrow> sys_ok (fst (snd (exec_sys_op B tr op rt raw c b)))"
proof -
  assume ok: "sys_ok c"
  then have "sys_ok (upd_sys (s_par_el1_update (\<lambda>_. p)) c)" for p by (simp add: sys_ok_def cpu_ok_def Let_def)
  with ok show ?thesis
    by (auto simp: exec_sys_op_def Let_def case_prod_beta sys_ok_intros split: sys_op.split at_result.split prod.split)
qed

lemma exec_msr_imm_ok: "sys_ok c \<Longrightarrow> sys_ok (snd (exec_msr_imm fld imm raw c))"
proof -
  assume ok: "sys_ok c"
  define m where "m = (push_bit 6 (ucast (imm AND 0xf)) :: u32)"
  have f: "(0xf :: u8) = mask 4" by (simp add: mask_eq_exp_minus_1)
  have "m AND NOT daif_ALL = 0"
    unfolding m_def f daif_ALL_mask by (rule bit_eqI) (auto simp: bit_simps)
  then have "(d OR m) AND NOT daif_ALL = 0 \<and> (d AND NOT m) AND NOT daif_ALL = 0" if "d AND NOT daif_ALL = 0" for d
    using that by (auto simp: bit_eq_iff bit_simps)
  with ok have "sys_ok (upd_sys (s_daif_update (\<lambda>d. if fld = DaifSet then d OR m else d AND NOT m)) c)"
    by (simp add: sys_ok_def cpu_ok_def Let_def)
  moreover have "sys_ok (set_el_sp (s_el (c_sys c)) b c)" if "s_el (c_sys c) \<noteq> 0" for b
    using ok that by (intro set_el_sp_ok) (simp_all add: sys_ok_def Let_def)
  ultimately show ?thesis
    using ok by (simp add: exec_msr_imm_def Let_def m_def [symmetric] sys_ok_intros)
qed

lemma exec_system_ok:
  assumes "sys_ok c"
  shows "sys_ok (fst (snd (exec_system B E tr i raw c b e)))"
proof (cases "fp_trapped c \<and> is_fp i")
  case True
  with assms show ?thesis by (simp add: exec_system_def Let_def case_prod_beta sys_ok_intros)
next
  case False
  show ?thesis
  proof (cases i)
    case (Mrs reg rt)
    with False assms show ?thesis
      by (auto simp: exec_system_def Let_def case_prod_beta sys_ok_intros split: sum.split)
  next
    case (Msr reg rt)
    with False assms sysreg_write_ok [OF assms, of reg] show ?thesis
      by (auto simp: exec_system_def Let_def case_prod_beta sys_ok_intros split: sum.split)
  qed (use False assms exec_sys_op_ok [OF assms] exec_msr_imm_ok [OF assms] in
      \<open>simp_all add: exec_system_def Let_def case_prod_beta sys_ok_intros\<close>)
qed

text \<open>
  C18. A step of system mode keeps the core well formed, whatever the bus, the platform and the
  instruction: EL0 or EL1, EL0 only with SP_EL0, no interrupt mask outside DAIF, no flag outside the
  upper four bits, and all register arrays of their size, so that no access of the core to its own
  registers is out of range. The vector instructions are only assumed to change the general, vector
  and flag registers.
\<close>

theorem step_system_keeps_ok:
  assumes "sys_ok c" "simd_exec_ok X"
  shows "sys_ok (fst (snd (step_system D X B E c b e)))"
proof -
  obtain ev c1 e1 where ti: "take_interrupt E c e = (ev, c1, e1)" by (cases "take_interrupt E c e") auto
  have ok: "sys_ok c1" using take_interrupt_ok [OF assms(1), of E e] ti by simp
  show ?thesis
  proof (cases ev)
    case (Some x)
    with ok ti show ?thesis by (simp add: step_system_def)
  next
    case None
    define M where "M = sys_memory B (translation_regs c1) (s_el (c_sys c1))"
    obtain f b1 fault where fe: "me_fetch M (c_pc c1) (b, None) = (f, b1, fault)"
      by (cases "me_fetch M (c_pc c1) (b, None)") auto
    show ?thesis
    proof (cases f)
      case (Inl x)
      with None ti fe ok show ?thesis
        by (simp add: step_system_def Let_def M_def [symmetric] case_prod_beta sys_ok_intros)
    next
      case (Inr raw)
      define i where "i = decode D raw"
      obtain ev2 c2 b2 e2 where es: "exec_system B E (translation_regs c1) i raw c1 b1 e1 = (ev2, c2, b2, e2)"
        by (cases "exec_system B E (translation_regs c1) i raw c1 b1 e1") auto
      have ok2: "sys_ok c2" using exec_system_ok [OF ok] es by (metis fst_conv snd_conv)
      obtain r c3 b3 fault3 where ex: "execute X M i raw (c2, b2, fault) = (r, c3, b3, fault3)"
        by (cases "execute X M i raw (c2, b2, fault)") auto
      have ok3: "sys_ok c3"
        using sys_ok_frame [OF execute_frame [OF assms(2), of "(c2, b2, fault)" M i raw]] ok2 ex by simp
      show ?thesis
        using None ti fe Inr es ex ok ok2 ok3
        by (auto simp: step_system_def Let_def M_def [symmetric] i_def [symmetric] case_prod_beta sys_ok_intros
            split: option.split sum.split insn.split)
    qed
  qed
qed

subsection \<open>A concrete system\<close>

text \<open>A core at EL0 with a misaligned program counter and the vectors at 0x80000.\<close>

definition demo_core :: cpu where
  "demo_core = (reset_system sys_config_default cpu_new)\<lparr>c_pc := 2,
    c_sys := (c_sys (reset_system sys_config_default cpu_new))\<lparr>s_el := 0, s_spsel := False, s_vbar_el1 := 0x80000\<rparr>\<rparr>"

text \<open>A bus and a platform for concrete runs: flat translation, memory that reads as zero, no interrupts.\<close>

definition flat_sys_bus :: "nat sys_bus" where
  "flat_sys_bus = \<lparr>sb_translate = (\<lambda>tr va req b. (Inr va, b)), sb_read_phys = (\<lambda>pa n b. (Inr (replicate n 0), b)),
    sb_write_phys = (\<lambda>pa bs b. (Inr (), b)), sb_at = (\<lambda>tr va a l b. (AtPar 0, b)), sb_tlbi = (\<lambda>t x b. b + 1),
    sb_tlb_flush_all = (\<lambda>b. b + 1), sb_cmpxchg_phys = (\<lambda>pa x y b. (Inr True, b))\<rparr>"

definition demo_env :: "unit cpu_env" where
  "demo_env = \<lparr>en_irq_line = (\<lambda>e. (False, e)), en_fiq_line = (\<lambda>e. (False, e)),
    en_read_sysreg = (\<lambda>r e. (0, e)), en_write_sysreg = (\<lambda>r v e. e)\<rparr>"

abbreviation idle_simd :: "('i, 'm) simd_exec" where
  "idle_simd \<equiv> \<lambda>M i s. (Inr (), s)"

lemma demo_core_ok: "sys_ok demo_core" "s_el (c_sys demo_core) = 0"
  by (simp_all add: demo_core_def sys_ok_def cpu_ok_def cpu_new_def reset_system_def sys_state_default_def Let_def)

lemma idle_simd_ok: "simd_exec_ok idle_simd"
  by (simp add: simd_exec_ok_def frame_refl)

theorem step_system_keeps_ok_witness:
  "sys_ok (fst (snd (step_system no_simd idle_simd flat_sys_bus demo_env demo_core 0 ())))"
  by (rule step_system_keeps_ok [OF demo_core_ok(1) idle_simd_ok])

end
