(* ===== verification/Cpu_El0.thy ===== *)
theory Cpu_El0
  imports Cpu_Invariant
begin

text \<open>
  What code at EL0 can do: the cases a step is made of, the relation between the core before and
  after a step from EL0, that every step stays in it, and that no step from EL0 depends on the
  privileged operations of the bus or on the registers of the platform that are closed to EL0.
\<close>

subsection \<open>The cases of a step\<close>

lemma take_interrupt_None: "take_interrupt E c e = (None, c1, e1) \<Longrightarrow> c1 = c"
  by (auto simp: take_interrupt_def Let_def case_prod_beta split: if_splits option.splits)

lemma svc_split: "(case i of Svc imm \<Rightarrow> f imm | _ \<Rightarrow> x) = r \<Longrightarrow> (\<exists>imm. f imm = r) \<or> x = r"
  by (cases i) auto

lemma step_system_cases:
  assumes "step_system D X B E c b e = (ev, c', b', e')"
  obtains
    (interrupt) "take_interrupt E c e = (Some ev, c', e')" "b' = b"
  | (sync) v fa p where "take_sync v fa p c = (ev, c')"
  | (fetch) fault where "deliver_fault fault 0 False c = (ev, c')"
  | (system) raw b1 e1 where "exec_system B E (translation_regs c) (decode D raw) raw c b1 e1 = (Some ev, c', b', e')"
  | (run) raw b1 e1 c2 b2 fault r c3 f3 where
      "exec_system B E (translation_regs c) (decode D raw) raw c b1 e1 = (None, c2, b2, e')"
      "execute X (sys_memory B (translation_regs c) (s_el (c_sys c))) (decode D raw) raw (c2, b2, fault) = (r, c3, b', f3)"
      "(\<exists>p. ev = Executed \<and> c' = c3\<lparr>c_pc := p\<rparr>) \<or> (\<exists>p v. take_sync v None p (c3\<lparr>c_pc := p\<rparr>) = (ev, c')) \<or>
       (\<exists>ex. r = Inl ex \<and> deliver_exception ex (decode D raw) f3 raw (c_pc c) c3 = (ev, c'))"
proof -
  obtain iev c1 e1 where ti: "take_interrupt E c e = (iev, c1, e1)" by (cases "take_interrupt E c e") auto
  show thesis
  proof (cases iev)
    case (Some x)
    with assms ti show thesis by (intro interrupt) (auto simp: step_system_def)
  next
    case None
    have c1: "c1 = c" using take_interrupt_None [of E c e c1 e1] ti None by simp
    define M where "M = sys_memory B (translation_regs c) (s_el (c_sys c))"
    obtain f b1 fault where fe: "me_fetch M (c_pc c) (b, None) = (f, b1, fault)"
      by (cases "me_fetch M (c_pc c) (b, None)") auto
    note unf = step_system_def Let_def M_def [symmetric] ti None c1 fe
    show thesis
    proof (cases "c_pc c AND 3 \<noteq> 0")
      case True
      with assms show thesis by (intro sync) (auto simp: unf case_prod_beta)
    next
      case al: False
      show thesis
      proof (cases f)
        case (Inl x)
        with assms al show thesis by (intro fetch) (auto simp: unf case_prod_beta)
      next
        case (Inr raw)
        show thesis
        proof (cases "s_il (c_sys c)")
          case True
          with assms al Inr show thesis by (intro sync) (auto simp: unf case_prod_beta)
        next
          case il: False
          obtain ev2 c2 b2 e2 where es: "exec_system B E (translation_regs c) (decode D raw) raw c b1 e1 = (ev2, c2, b2, e2)"
            by (cases "exec_system B E (translation_regs c) (decode D raw) raw c b1 e1") auto
          show thesis
          proof (cases ev2)
            case (Some x)
            with assms al Inr il es show thesis by (intro system) (auto simp: unf)
          next
            case n2: None
            obtain r c3 b3 f3 where ex: "execute X M (decode D raw) raw (c2, b2, fault) = (r, c3, b3, f3)"
              by (cases "execute X M (decode D raw) raw (c2, b2, fault)") auto
            have st: "(case r of
                Inr t \<Rightarrow>
                  let c4 = c3\<lparr>c_pc := case t of Some t \<Rightarrow> branch_addr c3 t | None \<Rightarrow> c_pc c + 4\<rparr>
                  in (case decode D raw of
                        Svc imm \<Rightarrow> (case take_sync (esr_of EC_SVC (ucast imm)) None (c_pc c4) c4 of (ev, c5) \<Rightarrow> (ev, c5, b3, e2))
                      | _ \<Rightarrow> (Executed, c4, b3, e2))
              | Inl ex \<Rightarrow> (case deliver_exception ex (decode D raw) f3 raw (c_pc c) c3 of (ev, c4) \<Rightarrow> (ev, c4, b3, e2))) =
              (ev, c', b', e')"
              using assms al Inr il es n2 ex by (cases r) (simp_all add: step_system_def ti None c1 fe Let_def M_def [symmetric])
            have "b3 = b' \<and> e2 = e' \<and> ((\<exists>p. ev = Executed \<and> c' = c3\<lparr>c_pc := p\<rparr>) \<or> (\<exists>p v. take_sync v None p (c3\<lparr>c_pc := p\<rparr>) = (ev, c')) \<or>
              (\<exists>ex. r = Inl ex \<and> deliver_exception ex (decode D raw) f3 raw (c_pc c) c3 = (ev, c')))"
            proof (cases r)
              case (Inl ex)
              with st show ?thesis by (auto simp: case_prod_beta)
            next
              case (Inr t)
              define p where "p = (case t of Some t \<Rightarrow> branch_addr c3 t | None \<Rightarrow> c_pc c + 4)"
              from svc_split [OF st [unfolded Inr sum.case Let_def, folded p_def]] show ?thesis
              proof (elim disjE exE)
                fix imm
                assume "(case take_sync (esr_of EC_SVC (ucast imm)) None (c_pc (c3\<lparr>c_pc := p\<rparr>)) (c3\<lparr>c_pc := p\<rparr>) of
                    (ev, c5) \<Rightarrow> (ev, c5, b3, e2)) = (ev, c', b', e')"
                then have "take_sync (esr_of EC_SVC (ucast imm)) None p (c3\<lparr>c_pc := p\<rparr>) = (ev, c')" "b3 = b'" "e2 = e'"
                  by (auto split: prod.splits)
                then show ?thesis by blast
              qed auto
            qed
            then show thesis using es n2 ex by (intro run) (auto simp: M_def)
          qed
        qed
      qed
    qed
  qed
qed

subsection \<open>Confinement of EL0\<close>

text \<open>
  The two ways a step from EL0 may end: at EL0 with the system state as it was, or at EL1 through an
  exception. Only the interrupt masks may change at EL0, and only if the system lets EL0 change them.
  TPIDRRO_EL0, which EL0 may only read, is the same in both.
\<close>

definition entered :: "sys_state \<Rightarrow> exception_kind \<Rightarrow> cpu \<Rightarrow> bool" where
  "entered s k c' \<longleftrightarrow>
    c_pc c' = s_vbar_el1 s + (0x400 + exception_offset k) \<and> s_spsr_el1 (c_sys c') AND spsr_M = 0 \<and>
    c_sys c' = s\<lparr>s_el := 1, s_spsel := True, s_daif := daif_ALL, s_il := False,
      s_sp_el := s_sp_el (c_sys c'), s_elr_el1 := s_elr_el1 (c_sys c'), s_spsr_el1 := s_spsr_el1 (c_sys c'),
      s_esr_el1 := s_esr_el1 (c_sys c'), s_far_el1 := s_far_el1 (c_sys c'),
      s_serror_pending := s_serror_pending (c_sys c')\<rparr>"

definition confined :: "cpu \<Rightarrow> sys_event \<times> cpu \<Rightarrow> bool" where
  "confined c r \<longleftrightarrow> c_tpidrro_el0 (snd r) = c_tpidrro_el0 c \<and>
    ((\<exists>d. c_sys (snd r) = (c_sys c)\<lparr>s_daif := d\<rparr> \<and> (d = s_daif (c_sys c) \<or> s_sctlr_el1 (c_sys c) AND sctlr_UMA \<noteq> 0)) \<or>
     (\<exists>k v. fst r = ExceptionTaken k v 0 \<and> entered (c_sys c) k (snd r)))"

lemma confined_same: "c_sys c' = c_sys c \<Longrightarrow> c_tpidrro_el0 c' = c_tpidrro_el0 c \<Longrightarrow> confined c (ev, c')"
  unfolding confined_def by (intro conjI disjI1 exI [of _ "s_daif (c_sys c)"]) simp_all

lemma confined_daif:
  "c_sys c' = (c_sys c)\<lparr>s_daif := d\<rparr> \<Longrightarrow> d = s_daif (c_sys c) \<or> s_sctlr_el1 (c_sys c) AND sctlr_UMA \<noteq> 0 \<Longrightarrow>
    c_tpidrro_el0 c' = c_tpidrro_el0 c \<Longrightarrow> confined c (ev, c')"
  unfolding confined_def by (rule conjI, simp, rule disjI1, rule exI [of _ d]) simp

lemma confined_cong: "c_sys a = c_sys c \<Longrightarrow> c_tpidrro_el0 a = c_tpidrro_el0 c \<Longrightarrow> confined a = confined c"
  by (simp add: confined_def fun_eq_iff)

lemma take_exception_tpidrro [simp]: "c_tpidrro_el0 (take_exception k e fa pr c) = c_tpidrro_el0 c"
  by (simp add: take_exception_def set_el_sp_def Let_def)

lemma take_exception_entered:
  assumes "sys_ok c" "s_el (c_sys c) = 0" "c_sys c = s \<or> c_sys c = s\<lparr>s_serror_pending := p\<rparr>"
  shows "entered s k (take_exception k e fa pr c)"
proof -
  have sp: "\<not> s_spsel (c_sys c)" using assms(1,2) by (simp add: sys_ok_def Let_def)
  have m: "pstate_spsr c AND spsr_M = 0" using pstate_spsr_fields(3) [OF assms(1)] assms(2) sp by simp
  show ?thesis
    unfolding entered_def take_exception_fields(1) m
    using assms(2,3)
    by (auto simp: take_exception_def set_el_sp_def Let_def sp_index_def intro!: sys_state.equality split: option.split)
qed

lemma confined_sync:
  assumes "sys_ok c" "s_el (c_sys c) = 0"
  shows "confined c (take_sync v fa p c)"
  unfolding confined_def take_sync_def using take_exception_entered [OF assms, of "c_sys c"] assms(2) by auto

lemma confined_deliver:
  assumes "sys_ok c" "s_el (c_sys c) = 0"
  shows "confined c (undefined_insn c)" "confined c (sysreg_trap raw c)"
    "confined c (deny_access d raw c)" "confined c (deliver_fault f raw cm c)"
    "confined c (deliver_exception ex i f raw pc c)"
proof -
  show u: "confined c (undefined_insn c)" and t: "confined c (sysreg_trap raw c)" for raw
    unfolding undefined_insn_def sysreg_trap_def by (rule confined_sync [OF assms])+
  show "confined c (deny_access d raw c)"
    by (simp add: deny_access_def u t split: deny.split)
  show f: "confined c (deliver_fault f raw cm c)" for f raw cm
    by (auto simp: deliver_fault_def Let_def confined_same confined_sync [OF assms] split: option.split pending.split)
  show "confined c (deliver_exception ex i f raw pc c)"
    by (auto simp: deliver_exception_def confined_same confined_sync [OF assms] u f split: exception.split)
qed

lemma take_interrupt_Some:
  assumes "take_interrupt E c e = (Some ev, c', e')"
  shows "\<exists>k v e1 c1. ev = ExceptionTaken k v (s_el (c_sys c)) \<and>
    (c1 = c \<or> c1 = upd_sys (s_serror_pending_update (\<lambda>_. None)) c) \<and> c' = take_exception k e1 None (c_pc c1) c1"
proof -
  obtain fiq e1 where F: "(if s_daif (c_sys c) AND daif_F = 0 then en_fiq_line E e else (False, e)) = (fiq, e1)"
    by (cases "if s_daif (c_sys c) AND daif_F = 0 then en_fiq_line E e else (False, e)")
  obtain irq e2 where I: "(if s_daif (c_sys c) AND daif_I = 0 then en_irq_line E e1 else (False, e1)) = (irq, e2)"
    by (cases "if s_daif (c_sys c) AND daif_I = 0 then en_irq_line E e1 else (False, e1)")
  note t = assms [unfolded take_interrupt_def Let_def F prod.case I]
  show ?thesis
  proof (cases fiq)
    case True
    with t show ?thesis by (simp only: if_True prod.inject option.inject) blast
  next
    case nf: False
    show ?thesis
    proof (cases irq)
      case True
      with t nf show ?thesis by (simp only: if_True if_False prod.inject option.inject) blast
    next
      case False
      let ?c = "upd_sys (s_serror_pending_update (\<lambda>_. None)) c"
      from False t nf obtain v where "ev = ExceptionTaken SError v (s_el (c_sys c))"
        "c' = take_exception SError (Some v) None (c_pc ?c) ?c"
        by (cases "s_serror_pending (c_sys c)"; cases "s_daif (c_sys c) AND daif_A = 0"; simp; blast)
      then show ?thesis by blast
    qed
  qed
qed

lemma confined_interrupt:
  assumes "sys_ok c" "s_el (c_sys c) = 0" "take_interrupt E c e = (Some ev, c', e')"
  shows "confined c (ev, c')"
proof -
  obtain k v e1 c1 where ev: "ev = ExceptionTaken k v 0" and c': "c' = take_exception k e1 None (c_pc c1) c1"
    and c1: "c1 = c \<or> c1 = upd_sys (s_serror_pending_update (\<lambda>_. None)) c"
    using take_interrupt_Some [OF assms(3)] assms(2) by auto
  have "sys_ok c1" using c1 assms(1) by (auto simp: sys_ok_def cpu_ok_def Let_def)
  moreover have "s_el (c_sys c1) = 0" "c_sys c1 = c_sys c \<or> c_sys c1 = (c_sys c)\<lparr>s_serror_pending := None\<rparr>"
    using c1 assms(2) by auto
  ultimately have "entered (c_sys c) k c'" unfolding c' by (rule take_exception_entered)
  moreover have "c_tpidrro_el0 c' = c_tpidrro_el0 c" unfolding c' using c1 by auto
  ultimately show ?thesis unfolding confined_def ev by auto
qed

text \<open>The system registers that EL0 may write, and what writing them changes.\<close>

lemma sysreg_write_el0:
  assumes "s_el (c_sys c) = 0" "sysreg_access c reg True = Inr ()"
  shows "sysreg_write B E reg v c b e = sysreg_write B' E reg v c b e"
    "fst (snd (sysreg_write B E reg v c b e)) = b"
    "\<exists>d. c_sys (fst (sysreg_write B E reg v c b e)) = (c_sys c)\<lparr>s_daif := d\<rparr> \<and>
      (d = s_daif (c_sys c) \<or> s_sctlr_el1 (c_sys c) AND sctlr_UMA \<noteq> 0)"
    "c_tpidrro_el0 (fst (sysreg_write B E reg v c b e)) = c_tpidrro_el0 c"
proof -
  have *: "reg \<in> {Nzcv, TpidrEl0, Fpcr, Fpsr, DbgdtrEl0} \<or> reg = Daif \<and> s_sctlr_el1 (c_sys c) AND sctlr_UMA \<noteq> 0 \<or> (\<exists>r. reg = Env r)"
    using assms by (cases reg) (auto simp: sysreg_access_def sysreg_access_el0_def sysreg_rw_def Let_def split: if_splits)
  then show "sysreg_write B E reg v c b e = sysreg_write B' E reg v c b e" "fst (snd (sysreg_write B E reg v c b e)) = b"
      "c_tpidrro_el0 (fst (sysreg_write B E reg v c b e)) = c_tpidrro_el0 c"
    by (auto simp: sysreg_write_def)
  from * show "\<exists>d. c_sys (fst (sysreg_write B E reg v c b e)) = (c_sys c)\<lparr>s_daif := d\<rparr> \<and>
      (d = s_daif (c_sys c) \<or> s_sctlr_el1 (c_sys c) AND sctlr_UMA \<noteq> 0)"
    by (auto simp: sysreg_write_def intro: exI [of _ "s_daif (c_sys c)"])
qed

lemma exec_msr_imm_el0:
  assumes "sys_ok c" "s_el (c_sys c) = 0"
  shows "confined c (exec_msr_imm fld imm raw c)"
proof (cases "fld = PSpSel \<or> s_sctlr_el1 (c_sys c) AND sctlr_UMA = 0")
  case True
  then show ?thesis
    using assms(2) by (auto simp: exec_msr_imm_def Let_def confined_deliver [OF assms])
next
  case False
  define f where "f = (\<lambda>d :: u32. if fld = DaifSet then d OR push_bit 6 (ucast (imm AND 0xf)) else d AND NOT (push_bit 6 (ucast (imm AND 0xf))))"
  have "s_daif_update f s = s\<lparr>s_daif := f (s_daif s)\<rparr>" for s :: sys_state by (cases s) simp
  with False assms(2) show ?thesis
    unfolding exec_msr_imm_def Let_def f_def [symmetric]
    by (simp add: confined_daif [where d = "f (s_daif (c_sys c))"])
qed

text \<open>At EL0 the system instructions are confined, and the bus is not reached.\<close>

lemma exec_system_el0:
  assumes "sys_ok c" "s_el (c_sys c) = 0"
  shows "exec_system B E tr i raw c b e = exec_system B' E tr i raw c b e"
    and "exec_system B E tr i raw c b e = (r, c', b', e') \<Longrightarrow>
      b' = b \<and> (case r of Some ev \<Rightarrow> confined c (ev, c') | None \<Rightarrow> c' = c \<and> e' = e)"
proof -
  note u = confined_deliver [OF assms] confined_sync [OF assms] exec_msr_imm_el0 [OF assms] confined_same
  show "exec_system B E tr i raw c b e = exec_system B' E tr i raw c b e"
  proof (cases i)
    case (Msr reg rt)
    then show ?thesis
      using sysreg_write_el0(1) [OF assms(2), of reg B E _ b e B']
      by (cases "sysreg_access c reg True") (auto simp: exec_system_def Let_def)
  qed (use assms(2) in \<open>simp_all add: exec_system_def exec_sys_op_def Let_def\<close>)
  show "b' = b \<and> (case r of Some ev \<Rightarrow> confined c (ev, c') | None \<Rightarrow> c' = c \<and> e' = e)"
    if "exec_system B E tr i raw c b e = (r, c', b', e')"
  proof (cases "fp_trapped c \<and> is_fp i")
    case True
    with that u show ?thesis by (auto simp: exec_system_def Let_def case_prod_beta)
  next
    case False
    show ?thesis
    proof (cases i)
      case (Mrs reg rt)
      with that False u show ?thesis
        by (auto simp: exec_system_def Let_def case_prod_beta set_x_def split: sum.splits if_splits)
    next
      case (Msr reg rt)
      show ?thesis
      proof (cases "sysreg_access c reg True")
        case (Inl d)
        with that False Msr u show ?thesis by (auto simp: exec_system_def Let_def case_prod_beta)
      next
        case (Inr x)
        let ?w = "sysreg_write B E reg (xr c rt) c b e"
        obtain d where d: "c_sys (fst ?w) = (c_sys c)\<lparr>s_daif := d\<rparr>" "d = s_daif (c_sys c) \<or> s_sctlr_el1 (c_sys c) AND sctlr_UMA \<noteq> 0"
          using sysreg_write_el0(3) [OF assms(2), of reg B E "xr c rt" b e] Inr by auto
        have "confined c (Executed, (fst ?w)\<lparr>c_pc := p\<rparr>)" for p
          using confined_daif [of "(fst ?w)\<lparr>c_pc := p\<rparr>", OF _ d(2)] d(1)
            sysreg_write_el0(4) [OF assms(2), of reg B E "xr c rt" b e] Inr by simp
        with sysreg_write_el0(2) [OF assms(2), of reg B E "xr c rt" b e] Inr that False Msr show ?thesis
          by (auto simp: exec_system_def Let_def case_prod_beta)
      qed
    qed (use that False u assms(2) in \<open>auto simp: exec_system_def exec_sys_op_def Let_def case_prod_beta split: if_splits\<close>)
  qed
qed

subsection \<open>The platform as EL0 sees it\<close>

text \<open>
  The registers of the platform that EL0 may read (or, with \<open>wr\<close>, write): the counters and their frequency
  and the two timers, each where its bit of CNTKCTL_EL1 says so. No register of the interrupt controller
  is one of them.
\<close>

definition el0_platform :: "sys_state \<Rightarrow> env_reg \<Rightarrow> bool \<Rightarrow> bool" where
  "el0_platform s r wr \<longleftrightarrow> (let k = s_cntkctl_el1 s in
     r = CntfrqEl0 \<and> \<not> wr \<and> (bit k 0 \<or> bit k 1) \<or>
     r = CntpctEl0 \<and> \<not> wr \<and> bit k 0 \<or> r = CntvctEl0 \<and> \<not> wr \<and> bit k 1 \<or>
     r \<in> {CntpTvalEl0, CntpCtlEl0, CntpCvalEl0} \<and> bit k 9 \<or> r \<in> {CntvTvalEl0, CntvCtlEl0, CntvCvalEl0} \<and> bit k 8)"

text \<open>Two platforms that agree on the interrupt lines and on these registers.\<close>

definition same_platform :: "sys_state \<Rightarrow> 'e cpu_env \<Rightarrow> 'e cpu_env \<Rightarrow> bool" where
  "same_platform s E E' \<longleftrightarrow> en_irq_line E = en_irq_line E' \<and> en_fiq_line E = en_fiq_line E' \<and>
    (\<forall>r e. el0_platform s r False \<longrightarrow> en_read_sysreg E r e = en_read_sysreg E' r e) \<and>
    (\<forall>r v e. el0_platform s r True \<longrightarrow> en_write_sysreg E r v e = en_write_sysreg E' r v e)"

lemma and_3_eq_0: "k AND 3 = 0 \<longleftrightarrow> k AND 1 = 0 \<and> k AND 2 = 0" for k :: u64
proof -
  have "k AND 3 = (k AND 1) OR (k AND 2)" using bit.conj_disj_distrib [of k 1 2] by simp
  then show ?thesis by (simp add: or_eq_0_iff)
qed

lemma env_access_el0:
  assumes "s_el (c_sys c) = 0" "sysreg_access c (Env r) wr = Inr ()"
  shows "el0_platform (c_sys c) r wr"
  using assms
  by (cases r) (auto simp: sysreg_access_def sysreg_access_el0_def sysreg_rw_def Let_def el0_platform_def
      EL0PCTEN_def EL0VCTEN_def EL0PTEN_def EL0VTEN_def bit_iff_and_push_bit_not_eq_0 and_3_eq_0 env_rw_def split: if_splits)

lemma sysreg_platform:
  assumes "s_el (c_sys c) = 0" "same_platform (c_sys c) E E'"
  shows "sysreg_access c reg False = Inr () \<Longrightarrow> sysreg_read E reg c e = sysreg_read E' reg c e"
    and "sysreg_access c reg True = Inr () \<Longrightarrow> sysreg_write B E reg v c b e = sysreg_write B E' reg v c b e"
  using assms(2) env_access_el0 [OF assms(1)]
  by (cases reg; auto simp: sysreg_read_def sysreg_write_def same_platform_def)+

lemma exec_system_platform:
  assumes "s_el (c_sys c) = 0" "same_platform (c_sys c) E E'"
  shows "exec_system B E tr i raw c b e = exec_system B E' tr i raw c b e"
proof (cases i)
  case (Mrs reg rt)
  then show ?thesis
    using sysreg_platform(1) [OF assms, of reg e] by (cases "sysreg_access c reg False") (auto simp: exec_system_def Let_def)
next
  case (Msr reg rt)
  then show ?thesis
    using sysreg_platform(2) [OF assms, of reg B _ b e] by (cases "sysreg_access c reg True") (auto simp: exec_system_def Let_def)
qed (simp_all add: exec_system_def Let_def)

lemma step_platform:
  assumes "s_el (c_sys c) = 0" "same_platform (c_sys c) E E'"
  shows "step_system D X B E c b e = step_system D X B E' c b e"
proof -
  have l: "en_irq_line E = en_irq_line E'" "en_fiq_line E = en_fiq_line E'" using assms(2) by (simp_all add: same_platform_def)
  have t: "take_interrupt E c e = take_interrupt E' c e" unfolding take_interrupt_def l by (rule refl)
  show ?thesis
  proof (cases "take_interrupt E' c e")
    case (fields r c1 e1)
    show ?thesis
    proof (cases r)
      case None
      then have [simp]: "c1 = c" using take_interrupt_None [of E' c e c1 e1] fields by simp
      show ?thesis
        unfolding step_system_def t fields None prod.case option.case \<open>c1 = c\<close> exec_system_platform [OF assms] by (rule refl)
    qed (simp add: step_system_def t fields)
  qed
qed

text \<open>
  C1. EL0 is confined. One step of a well-formed core at EL0, whatever the instruction and the bus do, ends in
  one of two ways: with the whole system state of the core (every register of EL1, the level, the masks) as it
  was, but for the interrupt masks when SCTLR_EL1.UMA lets EL0 write them; or at EL1 at the vector for
  exceptions from EL0 (VBAR_EL1 + 0x400 and the offset of the kind), on SP_EL1 with all interrupts masked, with
  EL0 recorded in SPSR_EL1, and with no other part of the system state changed than those an exception
  writes. TPIDRRO_EL0 never changes. Of the platform the step uses the interrupt lines and the counter and
  timer registers that CNTKCTL_EL1 opens to EL0 and nothing else: on any platform that agrees on those the step
  has the same outcome, so no register of the interrupt controller can be read or written. (TPIDR_EL0,
  NZCV, FPCR, FPSR and those timer registers are EL0's own to write.) Of vector execution it is assumed that it
  keeps the system state, the program counter, TPIDRRO_EL0 and the well-formedness of the core.
\<close>

theorem el0_confined:
  assumes "sys_ok c" "s_el (c_sys c) = 0" "simd_exec_ok X" "step_system D X B E c b e = (ev, c', b', e')"
  shows "confined c (ev, c') \<and>
    (\<forall>E'. same_platform (c_sys c) E E' \<longrightarrow> step_system D X B E' c b e = (ev, c', b', e'))"
proof -
  have "confined c (ev, c')" using assms(4)
  proof (cases rule: step_system_cases)
    case interrupt
    show ?thesis by (rule confined_interrupt [OF assms(1,2) interrupt(1)])
  next
    case (sync v fa p)
    then show ?thesis using confined_sync [OF assms(1,2), of v fa p] by simp
  next
    case (fetch fault)
    then show ?thesis using confined_deliver(4) [OF assms(1,2), of fault 0 False] by simp
  next
    case (system raw b1 e1)
    from exec_system_el0(2) [OF assms(1,2) this] show ?thesis by simp
  next
    case (run raw b1 e1 c2 b2 fault r c3 f3)
    from exec_system_el0(2) [OF assms(1,2) run(1)] have c2: "c2 = c" by simp
    have fr: "frame c c3" using execute_frame [OF assms(3), of "(c2, b2, fault)"] run(2) c2 by (metis fst_conv snd_conv)
    then have s3: "c_sys c3 = c_sys c" "c_tpidrro_el0 c3 = c_tpidrro_el0 c" "sys_ok c3"
      using sys_ok_frame assms(1) by (auto simp: frame_def)
    have "confined c (take_sync v None p (c3\<lparr>c_pc := p\<rparr>))" for v p
      using confined_sync [of "c3\<lparr>c_pc := p\<rparr>" v None p] s3 assms(2) confined_cong [of "c3\<lparr>c_pc := p\<rparr>" c] by simp
    moreover have "confined c (deliver_exception ex (decode D raw) f3 raw (c_pc c) c3)" for ex
      using confined_deliver(5) [of c3] s3 assms(2) confined_cong [of c3 c] by simp
    moreover have "confined c (Executed, c3\<lparr>c_pc := p\<rparr>)" for p
      by (rule confined_same) (simp_all add: s3)
    ultimately show ?thesis using run(3) by (elim disjE exE conjE) metis+
  qed
  moreover have "step_system D X B E' c b e = (ev, c', b', e')" if "same_platform (c_sys c) E E'" for E'
    using step_platform [OF assms(2) that, of D X B b e] assms(4) by simp
  ultimately show ?thesis by blast
qed

text \<open>A platform that differs from the demonstration one in every register of the interrupt controller.\<close>

definition strict_env :: "unit cpu_env" where
  "strict_env = demo_env\<lparr>en_read_sysreg := (\<lambda>r e. if is_timer r then en_read_sysreg demo_env r e else (7, e))\<rparr>"

theorem el0_confined_witness:
  "\<exists>ev c' b' e'. step_system no_simd idle_simd flat_sys_bus demo_env demo_core 0 () = (ev, c', b', e') \<and>
    confined demo_core (ev, c') \<and> c_pc c' = 0x80400 \<and>
    step_system no_simd idle_simd flat_sys_bus strict_env demo_core 0 () = (ev, c', b', e')"
proof -
  obtain ev c' b' e' where st: "step_system no_simd idle_simd flat_sys_bus demo_env demo_core 0 () = (ev, c', b', e')"
    by (cases "step_system no_simd idle_simd flat_sys_bus demo_env demo_core 0 ()") auto
  have "same_platform (c_sys demo_core) demo_env strict_env"
    by (auto simp: same_platform_def strict_env_def el0_platform_def Let_def)
  with el0_confined [OF demo_core_ok idle_simd_ok st]
  have "confined demo_core (ev, c')" "step_system no_simd idle_simd flat_sys_bus strict_env demo_core 0 () = (ev, c', b', e')"
    by blast+
  moreover have "c_pc c' = 0x80400"
    using st by (auto simp: step_system_def take_interrupt_def demo_env_def demo_core_def reset_system_def sys_state_default_def
        daif_ALL_def daif_D_def daif_A_def daif_I_def daif_F_def take_sync_def take_exception_def set_el_sp_def Let_def
        split: if_splits)
  ultimately show ?thesis using st by blast
qed

subsection \<open>The bus as EL0 sees it\<close>

text \<open>Two buses that translate the requests of EL0 and access physical memory in the same way.\<close>

definition same_unprivileged :: "'b sys_bus \<Rightarrow> 'b sys_bus \<Rightarrow> bool" where
  "same_unprivileged B B' \<longleftrightarrow>
    (\<forall>tr va req b. rq_el req = 0 \<longrightarrow> sb_translate B tr va req b = sb_translate B' tr va req b) \<and>
    sb_read_phys B = sb_read_phys B' \<and> sb_write_phys B = sb_write_phys B' \<and> sb_cmpxchg_phys B = sb_cmpxchg_phys B'"

lemma translate_pages_same:
  assumes "same_unprivileged B B'" "rq_el req = 0"
  shows "translate_pages B tr req va len off b = translate_pages B' tr req va len off b"
  using assms
proof (induction B tr req va len off b rule: translate_pages.induct)
  case (1 B tr req va len off b)
  then have "sb_translate B tr v req x = sb_translate B' tr v req x" for v x by (simp add: same_unprivileged_def)
  with 1 show ?case
    by (subst (1 2) translate_pages.simps) (auto simp: Let_def split: prod.split sum.split)
qed

lemma access_pieces_same:
  assumes "same_unprivileged B B'" "rq_el req = 0"
  shows "access_pieces B tr req va len op off b = access_pieces B' tr req va len op off b"
  using assms
proof (induction B tr req va len op off b rule: access_pieces.induct)
  case (1 B tr req va len op off b)
  then have "sb_translate B tr v req x = sb_translate B' tr v req x" for v x by (simp add: same_unprivileged_def)
  with 1 show ?case
    by (subst (1 2) access_pieces.simps) (auto simp: Let_def split: prod.split sum.split)
qed

lemma sys_access_same:
  assumes "same_unprivileged B B'"
  shows "sys_access B tr 0 va len acc 0 df op m = sys_access B' tr 0 va len acc 0 df op m"
proof -
  have "translate_pages B tr \<lparr>rq_access = a, rq_el = 0, rq_aligned = al\<rparr> = translate_pages B' tr \<lparr>rq_access = a, rq_el = 0, rq_aligned = al\<rparr>"
    and "access_pieces B tr \<lparr>rq_access = a, rq_el = 0, rq_aligned = al\<rparr> v n op =
      access_pieces B' tr \<lparr>rq_access = a, rq_el = 0, rq_aligned = al\<rparr> v n op" for a al v n
    by (simp_all add: fun_eq_iff translate_pages_same [OF assms] access_pieces_same [OF assms])
  note * = this
  show ?thesis unfolding sys_access_def Let_def unfolding * by (rule refl)
qed

lemma sys_memory_same:
  assumes "same_unprivileged B B'"
  shows "sys_memory B tr 0 = sys_memory B' tr 0"
proof -
  note sys_access_same [OF assms, simp]
  have [simp]: "sb_read_phys B = sb_read_phys B'" "sb_write_phys B = sb_write_phys B'" "sb_cmpxchg_phys B = sb_cmpxchg_phys B'"
    "rq_el req = 0 \<Longrightarrow> sb_translate B tr va req b = sb_translate B' tr va req b" for tr va req b
    using assms by (simp_all add: same_unprivileged_def)
  have "read_as B tr 0 0 = read_as B' tr 0 0" "write_as B tr 0 0 = write_as B' tr 0 0"
    by (simp_all add: read_as_def write_as_def fun_eq_iff)
  moreover have "fetch_as B tr 0 = fetch_as B' tr 0"
    by (simp add: fetch_as_def fun_eq_iff cong: prod.case_cong sum.case_cong)
  moreover have "zero_block_as B tr 0 = zero_block_as B' tr 0" "cmpxchg_as B tr 0 = cmpxchg_as B' tr 0"
    by (simp_all add: zero_block_as_def cmpxchg_as_def fun_eq_iff)
  ultimately show ?thesis by (simp add: sys_memory_def)
qed

text \<open>
  C6. EL0 only sees the unprivileged side of the bus. If two buses translate the requests made with the
  privilege of EL0 in the same way and access physical memory in the same way, a step at EL0 has the same
  event, core, bus state and platform state on both: EL0 never makes a privileged translation, an address
  translation instruction (AT) or a TLB invalidation, whatever word it executes.
\<close>

theorem el0_unprivileged_bus:
  assumes "sys_ok c" "s_el (c_sys c) = 0" "same_unprivileged B B'"
  shows "step_system D X B E c b e = step_system D X B' E c b e"
proof (cases "take_interrupt E c e")
  case (fields r c1 e1)
  show ?thesis
  proof (cases r)
    case None
    then have [simp]: "c1 = c" using take_interrupt_None [of E c e c1 e1] fields by simp
    have xs: "exec_system B E tr i raw c b e = exec_system B' E tr i raw c b e" for tr i raw b e
      by (rule exec_system_el0(1) [OF assms(1,2)])
    show ?thesis
      unfolding step_system_def fields None prod.case option.case \<open>c1 = c\<close> assms(2) sys_memory_same [OF assms(3)] xs
      by (rule refl)
  qed (simp add: step_system_def fields)
qed

text \<open>A bus that differs from the demonstration bus in everything EL0 cannot reach.\<close>

definition strict_bus :: "nat sys_bus" where
  "strict_bus = flat_sys_bus\<lparr>sb_translate := (\<lambda>tr va req b. if rq_el req = 0 then (Inr va, b) else (Inl (BusAbort 4 False), b)),
    sb_at := (\<lambda>tr va a l b. (AtPar 1, b + 5)), sb_tlbi := (\<lambda>t x b. 0), sb_tlb_flush_all := (\<lambda>b. 0)\<rparr>"

theorem el0_unprivileged_bus_witness:
  "step_system no_simd idle_simd flat_sys_bus demo_env demo_core 7 () = step_system no_simd idle_simd strict_bus demo_env demo_core 7 ()"
  by (rule el0_unprivileged_bus [OF demo_core_ok]) (simp add: same_unprivileged_def strict_bus_def flat_sys_bus_def)

end
