(* ===== verification/Spec2Isabelle.thy ===== *)
theory Spec2Isabelle
  imports Lz Mmu Timer Pl011 Pl031 Pl061 Gic_Delivery Virtio_Console Cpu_Alu Cpu_El0
begin

text \<open>
  A verification development for Vetro, an emulator of 64-bit ARM machines.
\<close>

end
